(* ===== verification/Prelude.thy ===== *)
theory Prelude
  imports Main "HOL-Library.Word" "HOL-Library.Signed_Division"
begin

text \<open>
  Shared vocabulary of the development: machine types, the result type of fallible kernel
  code, the table scans every xv6 subsystem is written with, and the generic list and word
  lemmas the component theories use.
\<close>

unbundle bit_operations_syntax

named_theorems kernel_defs \<open>definitions of kernel operations, unfolded together\<close>
named_theorems frame_simps \<open>fields an operation leaves unchanged\<close>

section \<open>Machine types (types.h)\<close>

type_synonym u8 = "8 word"
type_synonym u16 = "16 word"
type_synonym u32 = "32 word"

section \<open>Results of fallible code\<close>

text \<open>
  A C function of the kernel ends in one of three ways that are not a return: it calls
  panic, it reads or writes outside an object (behaviour the language leaves undefined), or
  it goes to sleep and hands the processor to the scheduler.
\<close>

datatype fault =
    Panic string
  | Undefined string
  | Blocked

type_synonym 'a res = "fault + 'a"

definition bindr :: "'a res \<Rightarrow> ('a \<Rightarrow> 'b res) \<Rightarrow> 'b res" where
  "bindr r f = (case r of Inl e \<Rightarrow> Inl e | Inr x \<Rightarrow> f x)"

lemma bindr_simps [simp]:
  "bindr (Inl e) f = Inl e"
  "bindr (Inr x) f = f x"
  by (simp_all add: bindr_def)

lemma bindr_eq_Inr: "bindr r f = Inr y \<longleftrightarrow> (\<exists>x. r = Inr x \<and> f x = Inr y)"
  by (cases r) auto

lemma bindr_assoc: "bindr (bindr r f) g = bindr r (\<lambda>x. bindr (f x) g)"
  by (cases r) auto

lemma bindr_cong [fundef_cong]: "\<lbrakk>r = r'; \<And>x. r' = Inr x \<Longrightarrow> f x = f' x\<rbrakk> \<Longrightarrow> bindr r f = bindr r' f'"
  by (cases r') simp_all

section \<open>Table scans\<close>

text \<open>
  The loop for (p = tab; p < &tab[N]; p++) if (P(p)) goto found; that xv6 uses on every
  table: the index of the first entry that satisfies the test.
\<close>

fun scan_from :: "('a \<Rightarrow> bool) \<Rightarrow> nat \<Rightarrow> 'a list \<Rightarrow> nat option" where
  "scan_from P i [] = None"
| "scan_from P i (x # xs) = (if P x then Some i else scan_from P (Suc i) xs)"

definition scan :: "('a \<Rightarrow> bool) \<Rightarrow> 'a list \<Rightarrow> nat option" where
  "scan P xs = scan_from P 0 xs"

lemma scan_from_Some:
  "scan_from P i xs = Some k \<longleftrightarrow>
     (\<exists>j. k = i + j \<and> j < length xs \<and> P (xs ! j) \<and> (\<forall>l<j. \<not> P (xs ! l)))"
proof (induction xs arbitrary: i)
  case Nil
  then show ?case by simp
next
  case (Cons x xs)
  show ?case
  proof (cases "P x")
    case True
    then show ?thesis by (auto simp: nth_Cons')
  next
    case False
    have "scan_from P (Suc i) xs = Some k \<longleftrightarrow>
        (\<exists>j. k = i + Suc j \<and> j < length xs \<and> P (xs ! j) \<and> (\<forall>l<j. \<not> P (xs ! l)))"
      using Cons.IH [of "Suc i"] by simp
    also have "\<dots> \<longleftrightarrow> (\<exists>j. k = i + j \<and> j < length (x # xs) \<and> P ((x # xs) ! j) \<and>
        (\<forall>l<j. \<not> P ((x # xs) ! l)))" (is "?L \<longleftrightarrow> ?R")
    proof
      assume ?L
      then obtain j where "k = i + Suc j" "j < length xs" "P (xs ! j)" "\<forall>l<j. \<not> P (xs ! l)"
        by blast
      with False show ?R by (intro exI [of _ "Suc j"]) (auto simp: less_Suc_eq_0_disj)
    next
      assume ?R
      then obtain j where j: "k = i + j" "j < length (x # xs)" "P ((x # xs) ! j)"
        "\<forall>l<j. \<not> P ((x # xs) ! l)" by blast
      with False obtain j' where "j = Suc j'" by (cases j) auto
      with j show ?L by (intro exI [of _ j']) auto
    qed
    finally show ?thesis using False by simp
  qed
qed

lemma scan_Some:
  "scan P xs = Some k \<longleftrightarrow> k < length xs \<and> P (xs ! k) \<and> (\<forall>l<k. \<not> P (xs ! l))"
  by (simp add: scan_def scan_from_Some)

lemma scan_from_None: "scan_from P i xs = None \<longleftrightarrow> (\<forall>x\<in>set xs. \<not> P x)"
  by (induction xs arbitrary: i) auto

lemma scan_None: "scan P xs = None \<longleftrightarrow> (\<forall>x\<in>set xs. \<not> P x)"
  by (simp add: scan_def scan_from_None)

lemma scan_SomeD:
  assumes "scan P xs = Some k"
  shows "k < length xs" and "P (xs ! k)" and "\<And>l. l < k \<Longrightarrow> \<not> P (xs ! l)"
  using assms by (simp_all add: scan_Some)

lemma scan_exists: "k < length xs \<Longrightarrow> P (xs ! k) \<Longrightarrow> \<exists>j\<le>k. scan P xs = Some j"
proof -
  assume k: "k < length xs" "P (xs ! k)"
  then have "scan P xs \<noteq> None" by (auto simp: scan_None)
  then obtain j where j: "scan P xs = Some j" by auto
  with k have "j \<le> k" by (meson not_le_imp_less scan_SomeD(3))
  with j show ?thesis by blast
qed

section \<open>Counting table entries\<close>

definition count_if :: "('a \<Rightarrow> bool) \<Rightarrow> 'a list \<Rightarrow> nat" where
  "count_if P xs = length (filter P xs)"

lemma count_if_update:
  assumes "l < length xs"
  shows "count_if P (xs[l := v]) + of_bool (P (xs ! l)) = count_if P xs + of_bool (P v)"
proof -
  have eq: "xs = take l xs @ xs ! l # drop (Suc l) xs"
    using assms by (simp add: id_take_nth_drop)
  have "filter P xs = filter P (take l xs) @ filter P [xs ! l] @ filter P (drop (Suc l) xs)"
    by (subst eq) simp
  moreover have "filter P (xs[l := v]) =
      filter P (take l xs) @ filter P [v] @ filter P (drop (Suc l) xs)"
    using assms by (simp add: upd_conv_take_nth_drop)
  ultimately show ?thesis by (simp add: count_if_def)
qed

lemma count_if_pos: "0 < count_if P xs \<longleftrightarrow> (\<exists>x\<in>set xs. P x)"
  by (simp add: count_if_def filter_empty_conv)

lemma count_if_nth_pos: "l < length xs \<Longrightarrow> P (xs ! l) \<Longrightarrow> 0 < count_if P xs"
  by (auto simp: count_if_pos)

lemma count_if_cong: "(\<And>x. x \<in> set xs \<Longrightarrow> P x = Q x) \<Longrightarrow> count_if P xs = count_if Q xs"
  unfolding count_if_def by (metis filter_cong)

lemma nth_upd: "xs[i := v] ! j = (if i = j \<and> i < length xs then v else xs ! j)"
  by (cases "i < length xs") (auto simp: nth_list_update list_update_beyond)

section \<open>Counting loops\<close>

text \<open>The loop for (i = a; i < b; i++) body of fallible code: the body run on the indices in order.\<close>

fun forM :: "nat list \<Rightarrow> (nat \<Rightarrow> 's \<Rightarrow> 's res) \<Rightarrow> 's \<Rightarrow> 's res" where
  "forM [] f s = Inr s"
| "forM (i # is) f s = bindr (f i s) (forM is f)"

lemma forM_append: "forM (is @ js) f s = bindr (forM is f s) (forM js f)"
proof (induction "is" arbitrary: s)
  case (Cons i "is")
  then show ?case by (cases "f i s") auto
qed simp

text \<open>A loop whose body keeps an invariant indexed by the counter never faults and establishes it.\<close>

lemma forM_upt:
  assumes "a \<le> b" "I a s" "\<And>i s. a \<le> i \<Longrightarrow> i < b \<Longrightarrow> I i s \<Longrightarrow> \<exists>s'. f i s = Inr s' \<and> I (Suc i) s'"
  shows "\<exists>s'. forM [a..<b] f s = Inr s' \<and> I b s'"
  using assms
proof (induction "b - a" arbitrary: a s)
  case 0
  then show ?case by simp
next
  case (Suc k)
  then have ab: "a < b" by simp
  with Suc.prems obtain s1 where s1: "f a s = Inr s1" "I (Suc a) s1" by (meson order_refl)
  have "\<exists>s'. forM [Suc a..<b] f s1 = Inr s' \<and> I b s'"
    using Suc.hyps(2) ab s1(2) Suc.prems(3) by (intro Suc.hyps(1)) (auto simp: Suc_le_eq)
  with s1(1) ab show ?case by (simp add: upt_conv_Cons)
qed

section \<open>Words\<close>

lemma unat_of_nat_u32 [simp]: "unat (of_nat n :: u32) = n mod 2 ^ 32"
  by (simp add: unat_of_nat take_bit_eq_mod)

lemma unat_lt_u32 [simp]: "unat (a :: u32) < 4294967296"
  using unsigned_less [of a] by simp

lemma unat_add_small: "unat (a :: u32) + n < 2 ^ 32 \<Longrightarrow> unat (a + of_nat n) = unat a + n"
  by (simp add: unat_word_ariths)

lemma join16: "ucast (ucast v :: u8) OR push_bit 8 (ucast (ucast (drop_bit 8 v) :: u8)) = (v :: u16)"
  by (rule bit_word_eqI) (auto simp: bit_simps dest: bit_imp_le_length)

lemma join32:
  "ucast (ucast v :: u8) OR push_bit 8 (ucast (ucast (drop_bit 8 v) :: u8))
    OR push_bit 16 (ucast (ucast (drop_bit 16 v) :: u8))
    OR push_bit 24 (ucast (ucast (drop_bit 24 v) :: u8)) = (v :: u32)" (is "?j = v")
proof (rule bit_word_eqI)
  fix n assume "n < LENGTH(32)"
  then consider "n < 8" | "8 \<le> n" "n < 16" | "16 \<le> n" "n < 24" | "24 \<le> n" "n < 32"
    by fastforce
  then show "bit ?j n = bit v n" by cases (auto simp: bit_simps)
qed

end
