(* ===== verification/Memory.thy ===== *)
theory Memory
  imports Prelude
begin

text \<open>
  Byte-addressed memory of the 32-bit machine: little-endian loads and stores of 32-bit
  words, and the string instructions rep stosb / rep stosl of x86.h that memset is built on.
\<close>

type_synonym mem = "u32 \<Rightarrow> u8"

definition load32 :: "mem \<Rightarrow> u32 \<Rightarrow> u32" where
  "load32 m a = ucast (m a) OR push_bit 8 (ucast (m (a + 1)))
     OR push_bit 16 (ucast (m (a + 2))) OR push_bit 24 (ucast (m (a + 3)))"

definition store32 :: "mem \<Rightarrow> u32 \<Rightarrow> u32 \<Rightarrow> mem" where
  "store32 m a v = m(a := ucast v, a + 1 := ucast (drop_bit 8 v),
     a + 2 := ucast (drop_bit 16 v), a + 3 := ucast (drop_bit 24 v))"

fun stosb :: "mem \<Rightarrow> u32 \<Rightarrow> u8 \<Rightarrow> nat \<Rightarrow> mem" where
  "stosb m a v 0 = m"
| "stosb m a v (Suc n) = stosb (m(a := v)) (a + 1) v n"

fun stosl :: "mem \<Rightarrow> u32 \<Rightarrow> u32 \<Rightarrow> nat \<Rightarrow> mem" where
  "stosl m a v 0 = m"
| "stosl m a v (Suc n) = stosl (store32 m a v) (a + 4) v n"

text \<open>The n bytes from base, with the addresses taken modulo 2^32.\<close>

definition in_range :: "u32 \<Rightarrow> nat \<Rightarrow> u32 \<Rightarrow> bool" where
  "in_range base n a \<longleftrightarrow> unat (a - base) < n"

definition aligned4 :: "u32 \<Rightarrow> bool" where
  "aligned4 a \<longleftrightarrow> unat a mod 4 = 0"

section \<open>Addresses\<close>

lemma aligned4_add:
  assumes "aligned4 a" "i < 4"
  shows "unat (a + of_nat i) = unat a + i"
proof -
  have "unat a < 4294967296" by simp
  with assms have "unat a + i < 4294967296" unfolding aligned4_def by presburger
  then have "unat a + i < 2 ^ 32" by simp
  then show ?thesis by (rule unat_add_small)
qed

lemma aligned4_disjoint:
  assumes "aligned4 a" "aligned4 b" "i < 4" "j < 4"
  shows "a + of_nat i = b + of_nat j \<longleftrightarrow> a = b \<and> i = j"
proof
  assume "a + of_nat i = b + of_nat j"
  then have "unat a + i = unat b + j"
    using aligned4_add [OF assms(1,3)] aligned4_add [OF assms(2,4)] by simp
  with assms have "unat a = unat b \<and> i = j" unfolding aligned4_def by presburger
  then show "a = b \<and> i = j" by (simp add: word_unat_eq_iff)
qed simp

lemma in_range_zero [simp]: "\<not> in_range b 0 a"
  by (simp add: in_range_def)

lemma in_range_Suc: "in_range b (Suc n) a \<longleftrightarrow> a = b \<or> in_range (b + 1) n a"
proof (cases "a = b")
  case True
  then show ?thesis by (simp add: in_range_def)
next
  case False
  have eq: "a - (b + 1) = (a - b) - 1" by simp
  have "unat (a - b) \<noteq> 0" using False by (simp add: unat_eq_0)
  then have "unat ((a - b) - 1) = unat (a - b) - 1"
    by (metis unat_minus_one unat_0)
  with False show ?thesis
    using \<open>unat (a - b) \<noteq> 0\<close> unfolding in_range_def eq by auto
qed

lemma in_range_add:
  assumes "unat b + n \<le> 2 ^ 32"
  shows "in_range b n a \<longleftrightarrow> unat b \<le> unat a \<and> unat a < unat b + n"
proof (cases "b \<le> a")
  case True
  then have "unat (a - b) = unat a - unat b" by (simp add: unat_sub)
  with True show ?thesis by (auto simp: in_range_def word_le_nat_alt)
next
  case False
  then have lt: "unat a < unat b" by (simp add: word_le_nat_alt)
  have "unat (a - b) = 2 ^ 32 - (unat b - unat a)"
    using lt by (simp add: unat_sub_if')
  with lt assms show ?thesis by (simp add: in_range_def)
qed

section \<open>Loads and stores\<close>

lemma load32_store32_same [simp]: "aligned4 a \<Longrightarrow> load32 (store32 m a v) a = v"
proof -
  assume al: "aligned4 a"
  have ne: "a + 1 \<noteq> a" "a + 2 \<noteq> a" "a + 3 \<noteq> a" "a + 2 \<noteq> a + 1" "a + 3 \<noteq> a + 1" "a + 3 \<noteq> a + 2"
    by simp_all
  have "load32 (store32 m a v) a =
      ucast (ucast v :: u8) OR push_bit 8 (ucast (ucast (drop_bit 8 v) :: u8))
      OR push_bit 16 (ucast (ucast (drop_bit 16 v) :: u8))
      OR push_bit 24 (ucast (ucast (drop_bit 24 v) :: u8))"
    using ne by (simp add: load32_def store32_def)
  also have "\<dots> = v" by (rule join32)
  finally show ?thesis .
qed

lemma load32_cong:
  assumes "\<And>i. i < 4 \<Longrightarrow> m (a + of_nat i) = m' (a + of_nat i)"
  shows "load32 m a = load32 m' a"
  using assms [of 0] assms [of 1] assms [of 2] assms [of 3] by (simp add: load32_def)

lemma store32_apply:
  assumes "\<And>i. i < 4 \<Longrightarrow> b \<noteq> a + of_nat i"
  shows "store32 m a v b = m b"
  using assms [of 0] assms [of 1] assms [of 2] assms [of 3] by (simp add: store32_def)

lemma load32_store32_other [simp]:
  assumes "aligned4 a" "aligned4 b" "a \<noteq> b"
  shows "load32 (store32 m a v) b = load32 m b"
proof (rule load32_cong)
  fix i :: nat assume "i < 4"
  with assms show "store32 m a v (b + of_nat i) = m (b + of_nat i)"
    by (intro store32_apply) (auto simp: aligned4_disjoint)
qed

end
