(* ===== verification/CString.thy ===== *)
theory CString
  imports Memory
begin

text \<open>
  The C string and memory routines of the kernel (string.c), on byte memory: every loop of
  the source is a recursive function over the remaining count.  A loop with no bound of its
  own (strlen) is a partial function, so that running past the end of memory is None.
\<close>

section \<open>Definitions\<close>

definition memset :: "mem \<Rightarrow> u32 \<Rightarrow> u32 \<Rightarrow> u32 \<Rightarrow> mem" where
  "memset m dst c n =
     (if sint dst smod 4 = 0 \<and> unat n mod 4 = 0
      then let c' = c AND 255
           in stosl m dst (push_bit 24 c' OR push_bit 16 c' OR push_bit 8 c' OR c') (unat n div 4)
      else stosb m dst (ucast c) (unat n))"

fun memcmp :: "mem \<Rightarrow> u32 \<Rightarrow> u32 \<Rightarrow> nat \<Rightarrow> int" where
  "memcmp m s1 s2 0 = 0"
| "memcmp m s1 s2 (Suc n) =
     (if m s1 \<noteq> m s2 then uint (m s1) - uint (m s2) else memcmp m (s1 + 1) (s2 + 1) n)"

text \<open>The two copy loops of memmove: from the high end down, and from the low end up.\<close>

fun copy_down :: "mem \<Rightarrow> u32 \<Rightarrow> u32 \<Rightarrow> nat \<Rightarrow> mem" where
  "copy_down m d s 0 = m"
| "copy_down m d s (Suc n) = (let d' = d - 1; s' = s - 1 in copy_down (m(d' := m s')) d' s' n)"

fun copy_up :: "mem \<Rightarrow> u32 \<Rightarrow> u32 \<Rightarrow> nat \<Rightarrow> mem" where
  "copy_up m d s 0 = m"
| "copy_up m d s (Suc n) = copy_up (m(d := m s)) (d + 1) (s + 1) n"

definition memmove :: "mem \<Rightarrow> u32 \<Rightarrow> u32 \<Rightarrow> u32 \<Rightarrow> mem" where
  "memmove m dst src n =
     (if src < dst \<and> src + n > dst then copy_down m (dst + n) (src + n) (unat n)
      else copy_up m dst src (unat n))"

definition memcpy :: "mem \<Rightarrow> u32 \<Rightarrow> u32 \<Rightarrow> u32 \<Rightarrow> mem" where
  "memcpy m dst src n = memmove m dst src n"

fun strncmp :: "mem \<Rightarrow> u32 \<Rightarrow> u32 \<Rightarrow> nat \<Rightarrow> int" where
  "strncmp m p q 0 = 0"
| "strncmp m p q (Suc n) =
     (if m p \<noteq> 0 \<and> m p = m q then strncmp m (p + 1) (q + 1) n
      else uint (m p) - uint (m q))"

text \<open>The padding loop of strncpy, and its copy loop; a negative count leaves memory alone.\<close>

fun pad_zero :: "mem \<Rightarrow> u32 \<Rightarrow> nat \<Rightarrow> mem" where
  "pad_zero m s 0 = m"
| "pad_zero m s (Suc n) = pad_zero (m(s := 0)) (s + 1) n"

fun strncpy_loop :: "mem \<Rightarrow> u32 \<Rightarrow> u32 \<Rightarrow> nat \<Rightarrow> mem" where
  "strncpy_loop m s t 0 = m"
| "strncpy_loop m s t (Suc n) =
     (let c = m t; m' = m(s := c)
      in if c \<noteq> 0 then strncpy_loop m' (s + 1) (t + 1) n else pad_zero m' (s + 1) n)"

definition strncpy :: "mem \<Rightarrow> u32 \<Rightarrow> u32 \<Rightarrow> int \<Rightarrow> mem" where
  "strncpy m s t n = strncpy_loop m s t (nat n)"

text \<open>safestrcpy: the loop runs on --n, so at most n - 1 bytes are copied before the NUL.\<close>

fun safestrcpy_loop :: "mem \<Rightarrow> u32 \<Rightarrow> u32 \<Rightarrow> nat \<Rightarrow> mem \<times> u32" where
  "safestrcpy_loop m s t 0 = (m, s)"
| "safestrcpy_loop m s t (Suc n) =
     (let c = m t; m' = m(s := c)
      in if c \<noteq> 0 then safestrcpy_loop m' (s + 1) (t + 1) n else (m', s + 1))"

definition safestrcpy :: "mem \<Rightarrow> u32 \<Rightarrow> u32 \<Rightarrow> int \<Rightarrow> mem" where
  "safestrcpy m s t n =
     (if n \<le> 0 then m
      else let (m', s') = safestrcpy_loop m s t (nat (n - 1)) in m'(s' := 0))"

partial_function (option) strlen_from :: "mem \<Rightarrow> u32 \<Rightarrow> nat \<Rightarrow> nat option" where
  "strlen_from m s n = (if m (s + of_nat n) = 0 then Some n else strlen_from m s (Suc n))"

definition strlen :: "mem \<Rightarrow> u32 \<Rightarrow> nat option" where
  "strlen m s = strlen_from m s 0"

text \<open>A NUL-terminated string at an address.\<close>

definition cstr_at :: "mem \<Rightarrow> u32 \<Rightarrow> u8 list \<Rightarrow> bool" where
  "cstr_at m a xs \<longleftrightarrow> (\<forall>i<length xs. m (a + of_nat i) = xs ! i \<and> xs ! i \<noteq> 0) \<and>
     m (a + of_nat (length xs)) = 0"

section \<open>memset\<close>

lemma stosb_eq:
  "n \<le> 2 ^ 32 \<Longrightarrow> stosb m a v n = (\<lambda>x. if in_range a n x then v else m x)"
proof (induction n arbitrary: m a)
  case 0
  then show ?case by simp
next
  case (Suc n)
  then show ?case by (auto simp: in_range_Suc fun_eq_iff)
qed

lemma stosl_eq_stosb:
  assumes "v = push_bit 24 c OR push_bit 16 c OR push_bit 8 c OR c" "c = ucast (b :: u8)"
  shows "stosl m a v k = stosb m a b (4 * k)"
proof (induction k arbitrary: m a)
  case 0
  then show ?case by simp
next
  case (Suc k)
  have b: "ucast v = b" "ucast (drop_bit 8 v) = b" "ucast (drop_bit 16 v) = b"
    "ucast (drop_bit 24 v) = b"
    unfolding assms by (rule bit_word_eqI, auto simp: bit_simps dest: bit_imp_le_length)+
  have "stosb m a b 4 = m(a := b, a + 1 := b, a + 2 := b, a + 3 := b)"
    by (simp add: numeral_eq_Suc add.assoc)
  then have "store32 m a v = stosb m a b 4"
    by (simp add: store32_def b)
  moreover have "stosb m a b (j + n) = stosb (stosb m a b j) (a + of_nat j) b n" for j n m a
    by (induction j arbitrary: m a) (simp_all add: add.assoc)
  from this [of m a 4 "4 * k"] have "stosb m a b (4 * Suc k) = stosb (stosb m a b 4) (a + 4) b (4 * k)"
    by simp
  ultimately show ?case using Suc by simp
qed

theorem memset_spec:
  "memset m dst c n = (\<lambda>x. if in_range dst (unat n) x then ucast c else m x)"
proof -
  have n: "unat n \<le> 2 ^ 32" using unat_lt_u32 [of n] by (simp del: unat_lt_u32)
  have "c AND mask 8 = ucast (ucast c :: u8)"
    by (rule bit_word_eqI) (auto simp: bit_simps)
  then have c: "c AND 255 = ucast (ucast c :: u8)" by (simp add: mask_eq_exp_minus_1)
  show ?thesis
    unfolding memset_def Let_def
    using stosl_eq_stosb [OF refl c, of m dst "unat n div 4"] stosb_eq [OF n]
    by auto
qed

section \<open>memmove\<close>

lemma in_range_offset: "in_range d n x \<longleftrightarrow> (\<exists>i<n. x = d + of_nat i)" if "n \<le> 2 ^ 32"
proof
  assume "in_range d n x"
  then have "unat (x - d) < n" "x = d + of_nat (unat (x - d))"
    by (simp_all add: in_range_def)
  then show "\<exists>i<n. x = d + of_nat i" by blast
next
  assume "\<exists>i<n. x = d + of_nat i"
  then show "in_range d n x" using that by (auto simp: in_range_def)
qed

lemma copy_up_eq:
  assumes "n \<le> 2 ^ 32" "\<And>i j. j < i \<Longrightarrow> i < n \<Longrightarrow> d + of_nat j \<noteq> s + of_nat i"
  shows "copy_up m d s n = (\<lambda>x. if in_range d n x then m (s + (x - d)) else m x)"
  using assms
proof (induction n arbitrary: m d s)
  case 0
  then show ?case by simp
next
  case (Suc n)
  let ?m = "m(d := m s)"
  have IH: "copy_up ?m (d + 1) (s + 1) n =
      (\<lambda>x. if in_range (d + 1) n x then ?m (s + 1 + (x - (d + 1))) else ?m x)"
  proof (rule Suc.IH)
    show "n \<le> 2 ^ 32" using Suc.prems by simp
    fix i j :: nat assume "j < i" "i < n"
    with Suc.prems(2) [of "Suc j" "Suc i"] show "d + 1 + of_nat j \<noteq> s + 1 + of_nat i"
      by (simp add: add.assoc)
  qed
  show ?case
  proof
    fix x
    have "s + (x - d) \<noteq> d" if r: "in_range (d + 1) n x"
    proof -
      have "n \<le> 2 ^ 32" using Suc.prems by simp
      from r [unfolded in_range_offset [OF this]] obtain i where
        "i < n" "x = d + of_nat (Suc i)" by (auto simp: add.assoc)
      with Suc.prems(2) [of 0 "Suc i"] show ?thesis by auto
    qed
    then show "copy_up m d s (Suc n) x = (if in_range d (Suc n) x then m (s + (x - d)) else m x)"
      using IH by (auto simp: in_range_Suc)
  qed
qed

lemma in_range_Suc_last:
  assumes "n < 2 ^ 32"
  shows "in_range (d - of_nat (Suc n)) (Suc n) x \<longleftrightarrow> x = d - 1 \<or> in_range (d - 1 - of_nat n) n x"
proof -
  have eq: "d - of_nat (Suc n) = d - 1 - of_nat n" by simp
  have "unat y = n \<longleftrightarrow> y = of_nat n" for y :: u32
    using assms by (simp add: word_unat_eq_iff)
  then have "unat (x - (d - 1 - of_nat n)) = n \<longleftrightarrow> x - (d - 1 - of_nat n) = of_nat n" .
  also have "\<dots> \<longleftrightarrow> x = d - 1" by (auto simp: diff_eq_eq)
  finally have "unat (x - (d - 1 - of_nat n)) = n \<longleftrightarrow> x = d - 1" .
  then show ?thesis unfolding eq by (auto simp: in_range_def less_Suc_eq)
qed

lemma copy_down_eq:
  assumes "n \<le> 2 ^ 32"
    "\<And>i j. 0 < i \<Longrightarrow> i < j \<Longrightarrow> j \<le> n \<Longrightarrow> d - of_nat i \<noteq> s - of_nat j"
  shows "copy_down m d s n = (\<lambda>x. if in_range (d - of_nat n) n x then m (s + (x - d)) else m x)"
  using assms
proof (induction n arbitrary: m d s)
  case 0
  then show ?case by simp
next
  case (Suc n)
  let ?m = "m(d - 1 := m (s - 1))"
  have n: "n \<le> 2 ^ 32" "n < 2 ^ 32" using Suc.prems by simp_all
  have IH: "copy_down ?m (d - 1) (s - 1) n =
      (\<lambda>x. if in_range (d - 1 - of_nat n) n x then ?m (s - 1 + (x - (d - 1))) else ?m x)"
  proof (rule Suc.IH [OF n(1)])
    fix i j :: nat assume "0 < i" "i < j" "j \<le> n"
    with Suc.prems(2) [of "Suc i" "Suc j"] show "d - 1 - of_nat i \<noteq> s - 1 - of_nat j"
      by (simp add: diff_diff_eq)
  qed
  show ?case
  proof
    fix x
    have "s + (x - d) \<noteq> d - 1" if r: "in_range (d - 1 - of_nat n) n x"
    proof -
      from r [unfolded in_range_offset [OF n(1)]] obtain i where
        i: "i < n" "x = d - 1 - of_nat n + of_nat i" by auto
      then have "x - d = - of_nat (Suc n - i)" by (simp add: of_nat_diff)
      moreover have "d - of_nat 1 \<noteq> s - of_nat (Suc n - i)"
        using i by (intro Suc.prems(2)) auto
      ultimately show ?thesis by auto
    qed
    then show "copy_down m d s (Suc n) x =
        (if in_range (d - of_nat (Suc n)) (Suc n) x then m (s + (x - d)) else m x)"
      using IH unfolding in_range_Suc_last [OF n(2)] by (auto simp: Let_def)
  qed
qed

text \<open>memmove copies the original source bytes even when the two areas overlap.\<close>

theorem memmove_spec:
  assumes d: "unat dst + unat n \<le> 2 ^ 32" and s: "unat src + unat n \<le> 2 ^ 32"
  shows "memmove m dst src n =
    (\<lambda>x. if in_range dst (unat n) x then m (src + (x - dst)) else m x)"
proof (cases "src < dst \<and> src + n > dst")
  case True
  have n: "unat n \<le> 2 ^ 32" using s by simp
  have "copy_down m (dst + n) (src + n) (unat n) =
      (\<lambda>x. if in_range (dst + n - of_nat (unat n)) (unat n) x
           then m (src + n + (x - (dst + n))) else m x)"
  proof (rule copy_down_eq [OF n])
    fix i j :: nat assume ij: "0 < i" "i < j" "j \<le> unat n"
    have eq: "dst + n - of_nat i = dst + of_nat (unat n - i)"
      "src + n - of_nat j = src + of_nat (unat n - j)"
      using ij by (simp_all add: of_nat_diff)
    have "unat (dst + of_nat (unat n - i)) = unat dst + (unat n - i)"
      "unat (src + of_nat (unat n - j)) = unat src + (unat n - j)"
      by (rule unat_add_small, use d s ij in linarith)+
    moreover have "unat src < unat dst" using True by (simp add: word_less_nat_alt)
    ultimately have "unat (dst + of_nat (unat n - i)) \<noteq> unat (src + of_nat (unat n - j))"
      using ij by linarith
    then show "dst + n - of_nat i \<noteq> src + n - of_nat j" unfolding eq by metis
  qed
  moreover have "src + n + (x - (dst + n)) = src + (x - dst)" for x by simp
  ultimately show ?thesis using True by (simp only: memmove_def if_True) simp
next
  case False
  have n: "unat n \<le> 2 ^ 32" using s by simp
  have "copy_up m dst src (unat n) =
      (\<lambda>x. if in_range dst (unat n) x then m (src + (x - dst)) else m x)"
  proof (rule copy_up_eq [OF n])
    fix i j :: nat assume ij: "j < i" "i < unat n"
    have u: "unat (dst + of_nat j) = unat dst + j" "unat (src + of_nat i) = unat src + i"
      using d s ij by (auto intro: unat_add_small)
    show "dst + of_nat j \<noteq> src + of_nat i"
    proof
      assume "dst + of_nat j = src + of_nat i"
      with u have eq: "unat dst + j = unat src + i" by simp
      with ij d have lt: "unat src < unat dst" "unat src + unat n < 2 ^ 32" by auto
      then have "unat (src + n) = unat src + unat n"
        using unat_add_small [of src "unat n"] by simp
      with eq ij lt have "src < dst \<and> src + n > dst" by (simp add: word_less_nat_alt)
      with False show False ..
    qed
  qed
  with False show ?thesis by (auto simp: memmove_def)
qed

section \<open>strlen, strncmp, strncpy, safestrcpy\<close>

lemma cstr_at_Nil [simp]: "cstr_at m a [] \<longleftrightarrow> m a = 0"
  by (simp add: cstr_at_def)

lemma cstr_at_Cons [simp]:
  "cstr_at m a (x # xs) \<longleftrightarrow> m a = x \<and> x \<noteq> 0 \<and> cstr_at m (a + 1) xs"
  by (auto simp: cstr_at_def All_less_Suc2 add.assoc)

lemma strlen_from_reaches:
  "cstr_at m (s + of_nat k) xs \<Longrightarrow> strlen_from m s k = Some (k + length xs)"
proof (induction xs arbitrary: k)
  case Nil
  then show ?case by (simp add: strlen_from.simps)
next
  case (Cons x xs)
  then have "strlen_from m s (Suc k) = Some (Suc k + length xs)"
    by (intro Cons.IH) (simp add: ac_simps)
  with Cons.prems show ?case by (simp add: strlen_from.simps [of m s k])
qed

theorem strlen_spec: "cstr_at m s xs \<Longrightarrow> strlen m s = Some (length xs)"
  using strlen_from_reaches [of m s 0 xs] by (simp add: strlen_def)

theorem strncmp_zero_iff:
  "cstr_at m p xs \<Longrightarrow> cstr_at m q ys \<Longrightarrow> strncmp m p q n = 0 \<longleftrightarrow> take n xs = take n ys"
proof (induction n arbitrary: p q xs ys)
  case 0
  then show ?case by simp
next
  case (Suc n)
  then show ?case by (cases xs; cases ys) (auto simp: word_uint_eq_iff)
qed

lemma pad_zero_eq: "n \<le> 2 ^ 32 \<Longrightarrow> pad_zero m s n = (\<lambda>x. if in_range s n x then 0 else m x)"
proof (induction n arbitrary: m s)
  case (Suc n)
  then show ?case by (auto simp: in_range_Suc fun_eq_iff)
qed simp

text \<open>
  strncpy writes exactly the n bytes from s: the string, cut at n, then zeros.  Nothing
  NUL-terminates the copy when the string has n bytes or more.
\<close>

lemma disjoint_string_upd:
  assumes "\<And>i. i \<le> length xs \<Longrightarrow> a + of_nat i \<noteq> s" "cstr_at m a xs"
  shows "cstr_at (m(s := v)) a xs"
  using assms
proof (induction xs arbitrary: a)
  case Nil
  then show ?case using Nil(1) [of 0] by auto
next
  case (Cons x xs)
  have "a \<noteq> s" using Cons.prems(1) [of 0] by simp
  moreover have "cstr_at (m(s := v)) (a + 1) xs"
  proof (rule Cons.IH)
    fix i assume "i \<le> length xs"
    then show "a + 1 + of_nat i \<noteq> s" using Cons.prems(1) [of "Suc i"] by (simp add: add.assoc)
  qed (use Cons.prems in simp)
  ultimately show ?case using Cons.prems(2) by (simp add: fun_upd_def)
qed

lemma not_in_range_succ: "n < 2 ^ 32 \<Longrightarrow> \<not> in_range (s + 1) n s"
  by (simp add: in_range_def unsigned_minus_1_eq_mask mask_eq_exp_minus_1)

lemma strncpy_loop_eq:
  assumes "n \<le> 2 ^ 32" "cstr_at m t xs"
    "\<And>i. i \<le> length xs \<Longrightarrow> \<not> in_range s n (t + of_nat i)"
  shows "strncpy_loop m s t n =
    (\<lambda>x. if in_range s n x then (xs @ replicate n 0) ! unat (x - s) else m x)"
  using assms
proof (induction n arbitrary: m s t xs)
  case 0
  then show ?case by simp
next
  case (Suc n)
  have n: "n \<le> 2 ^ 32" using Suc.prems(1) by simp
  have sub: "in_range (s + 1) n x \<Longrightarrow> unat (x - s) = Suc (unat (x - (s + 1)))" for x
  proof -
    assume r: "in_range (s + 1) n x"
    from r have "unat (x - (s + 1)) < 2 ^ 32 - 1"
      using Suc.prems(1) by (simp add: in_range_def)
    moreover have "x - s = x - (s + 1) + 1" by simp
    ultimately show ?thesis using unat_add_small [of "x - (s + 1)" 1] by simp
  qed
  show ?case
  proof (cases xs)
    case Nil
    with Suc.prems have "m t = 0" by simp
    moreover have "replicate (Suc n) (0 :: u8) ! unat (x - s) = 0" if "in_range s (Suc n) x" for x
      using that by (simp only: in_range_def nth_replicate)
    ultimately show ?thesis
      using Nil n by (auto simp: Let_def pad_zero_eq in_range_Suc fun_eq_iff)
  next
    case (Cons x ys)
    let ?m = "m(s := x)"
    have ne: "t + of_nat i \<noteq> s" "\<not> in_range (s + 1) n (t + of_nat i)"
      if "i \<le> length xs" for i
      using Suc.prems(3) [OF that] by (auto simp: in_range_Suc)
    have "cstr_at ?m (t + 1) ys"
    proof (rule disjoint_string_upd)
      fix i assume "i \<le> length ys"
      with ne(1) [of "Suc i"] Cons show "t + 1 + of_nat i \<noteq> s" by (simp add: add.assoc)
    qed (use Suc.prems(2) Cons in simp)
    moreover have "\<not> in_range (s + 1) n (t + 1 + of_nat i)" if "i \<le> length ys" for i
      using ne(2) [of "Suc i"] Cons that by (simp add: add.assoc)
    ultimately have IH: "strncpy_loop ?m (s + 1) (t + 1) n =
        (\<lambda>x. if in_range (s + 1) n x then (ys @ replicate n 0) ! unat (x - (s + 1)) else ?m x)"
      by (rule Suc.IH [OF n])
    have nth: "(ys @ replicate n 0) ! k = (xs @ replicate (Suc n) 0) ! Suc k" if "k < n" for k
      using Cons that by (auto simp: nth_append nth_Cons')
    have "(ys @ replicate n 0) ! unat (y - (s + 1)) = (xs @ replicate (Suc n) 0) ! unat (y - s)"
      if "in_range (s + 1) n y" for y
      using nth sub [OF that] that by (simp add: in_range_def)
    then show ?thesis
      using IH Cons Suc.prems(1,2) not_in_range_succ [of n s]
      by (auto simp: Let_def in_range_Suc fun_eq_iff)
  qed
qed

theorem strncpy_spec:
  assumes "n \<le> 2 ^ 32" "cstr_at m t xs"
    "\<And>i. i \<le> length xs \<Longrightarrow> \<not> in_range s n (t + of_nat i)"
  shows "strncpy m s t (int n) =
    (\<lambda>x. if in_range s n x then (xs @ replicate n 0) ! unat (x - s) else m x)"
  using strncpy_loop_eq [OF assms] by (simp add: strncpy_def)

text \<open>safestrcpy leaves the string cut at n - 1 bytes, NUL-terminated, and stays within n bytes.\<close>

lemma safestrcpy_loop_eq:
  assumes "n < 2 ^ 32" "cstr_at m t xs"
    "\<And>i. i \<le> length xs \<Longrightarrow> \<not> in_range s n (t + of_nat i)"
    "safestrcpy_loop m s t n = (m', s')"
  shows "cstr_at (m'(s' := 0)) s (take n xs)"
    and "\<And>x. \<not> in_range s (Suc n) x \<Longrightarrow> (m'(s' := 0)) x = m x"
proof -
  have "cstr_at (m'(s' := 0)) s (take n xs) \<and>
      (\<forall>x. \<not> in_range s (Suc n) x \<longrightarrow> (m'(s' := 0)) x = m x)"
    using assms
  proof (induction n arbitrary: m s t xs)
    case 0
    then show ?case by (auto simp: in_range_Suc)
  next
    case (Suc n)
    show ?case
    proof (cases xs)
      case Nil
      with Suc.prems show ?thesis by (auto simp: in_range_Suc)
    next
      case (Cons x ys)
      let ?m = "m(s := x)"
      have ne: "t + of_nat i \<noteq> s" "\<not> in_range (s + 1) n (t + of_nat i)"
        if "i \<le> length xs" for i
        using Suc.prems(3) [OF that] by (auto simp: in_range_Suc)
      have c: "cstr_at ?m (t + 1) ys"
      proof (rule disjoint_string_upd)
        fix i assume "i \<le> length ys"
        with ne(1) [of "Suc i"] Cons show "t + 1 + of_nat i \<noteq> s" by (simp add: add.assoc)
      qed (use Suc.prems(2) Cons in simp)
      have d: "\<not> in_range (s + 1) n (t + 1 + of_nat i)" if "i \<le> length ys" for i
        using ne(2) [of "Suc i"] Cons that by (simp add: add.assoc)
      have e: "safestrcpy_loop ?m (s + 1) (t + 1) n = (m', s')"
        using Suc.prems(2,4) Cons by (simp add: Let_def)
      have n: "n < 2 ^ 32" using Suc.prems(1) by simp
      have IH: "cstr_at (m'(s' := 0)) (s + 1) (take n ys)"
        "\<And>y. \<not> in_range (s + 1) (Suc n) y \<Longrightarrow> (m'(s' := 0)) y = ?m y"
        using Suc.IH [OF n c d e] by blast+
      have "\<not> in_range (s + 1) (Suc n) s"
        using Suc.prems(1) by (rule not_in_range_succ)
      with IH(2) have "(m'(s' := 0)) s = x" by simp
      moreover have "(m'(s' := 0)) y = m y" if "\<not> in_range s (Suc (Suc n)) y" for y
        using that IH(2) [of y] by (simp add: in_range_Suc del: fun_upd_apply) simp
      ultimately show ?thesis using IH(1) Cons Suc.prems(2) by (simp del: fun_upd_apply)
    qed
  qed
  then show "cstr_at (m'(s' := 0)) s (take n xs)"
    and "\<And>x. \<not> in_range s (Suc n) x \<Longrightarrow> (m'(s' := 0)) x = m x" by blast+
qed

theorem safestrcpy_spec:
  assumes "0 < n" "n \<le> 2 ^ 32" "cstr_at m t xs"
    "\<And>i. i \<le> length xs \<Longrightarrow> \<not> in_range s n (t + of_nat i)"
  shows "cstr_at (safestrcpy m s t (int n)) s (take (n - 1) xs)"
    and "\<And>x. \<not> in_range s n x \<Longrightarrow> safestrcpy m s t (int n) x = m x"
proof -
  obtain m' s' where r: "safestrcpy_loop m s t (n - 1) = (m', s')" by fastforce
  have eq: "safestrcpy m s t (int n) = m'(s' := 0)"
    using assms(1) r by (simp add: safestrcpy_def nat_diff_distrib')
  have "n - 1 < 2 ^ 32" using assms by simp
  moreover have "\<not> in_range s (n - 1) (t + of_nat i)" if "i \<le> length xs" for i
    using assms(4) [OF that] by (auto simp: in_range_def)
  moreover have "Suc (n - 1) = n" using assms by simp
  ultimately show "cstr_at (safestrcpy m s t (int n)) s (take (n - 1) xs)"
    and "\<And>x. \<not> in_range s n x \<Longrightarrow> safestrcpy m s t (int n) x = m x"
    using safestrcpy_loop_eq [OF _ assms(3) _ r] unfolding eq by metis+
qed

end
