(* ===== verification/Carray.thy ===== *)
theory Carray
  imports CString
begin

text \<open>
  The string routines on byte arrays held as lists.  Kernel structures keep names in fixed
  arrays (proc.name, mutex.name, shared_mem.name, the name of a directory entry); on them the
  routines of string.c are functions on lists that fail where the C code would leave the
  array.  The agreement theorems relate them to the routines on byte memory in CString.
\<close>

definition bytes_of :: "string \<Rightarrow> u8 list" where
  "bytes_of s = map of_char s"

text \<open>The string an array holds: the bytes before the first NUL.\<close>

definition cstr :: "u8 list \<Rightarrow> u8 list" where
  "cstr xs = takeWhile (\<lambda>c. c \<noteq> 0) xs"

fun strlen_arr :: "u8 list \<Rightarrow> nat res" where
  "strlen_arr [] = Inl (Undefined ''strlen'')"
| "strlen_arr (x # xs) = (if x = 0 then Inr 0 else bindr (strlen_arr xs) (\<lambda>n. Inr (Suc n)))"

fun strncmp_arr :: "u8 list \<Rightarrow> u8 list \<Rightarrow> nat \<Rightarrow> int res" where
  "strncmp_arr ps qs 0 = Inr 0"
| "strncmp_arr [] qs (Suc n) = Inl (Undefined ''strncmp'')"
| "strncmp_arr (p # ps) [] (Suc n) = Inl (Undefined ''strncmp'')"
| "strncmp_arr (p # ps) (q # qs) (Suc n) =
     (if p \<noteq> 0 \<and> p = q then strncmp_arr ps qs n else Inr (uint p - uint q))"

fun pad_arr :: "u8 list \<Rightarrow> nat \<Rightarrow> u8 list res" where
  "pad_arr ds 0 = Inr ds"
| "pad_arr [] (Suc n) = Inl (Undefined ''strncpy'')"
| "pad_arr (d # ds) (Suc n) = bindr (pad_arr ds n) (\<lambda>r. Inr (0 # r))"

fun strncpy_arr :: "u8 list \<Rightarrow> u8 list \<Rightarrow> nat \<Rightarrow> u8 list res" where
  "strncpy_arr ds ts 0 = Inr ds"
| "strncpy_arr [] ts (Suc n) = Inl (Undefined ''strncpy'')"
| "strncpy_arr (d # ds) [] (Suc n) = Inl (Undefined ''strncpy'')"
| "strncpy_arr (d # ds) (t # ts) (Suc n) =
     bindr (if t \<noteq> 0 then strncpy_arr ds ts n else pad_arr ds n) (\<lambda>r. Inr (t # r))"

fun safestrcpy_go :: "u8 list \<Rightarrow> u8 list \<Rightarrow> nat \<Rightarrow> u8 list res" where
  "safestrcpy_go [] ts n = Inl (Undefined ''safestrcpy'')"
| "safestrcpy_go (d # ds) ts 0 = Inr (0 # ds)"
| "safestrcpy_go (d # ds) [] (Suc n) = Inl (Undefined ''safestrcpy'')"
| "safestrcpy_go (d # ds) (t # ts) (Suc n) =
     (if t \<noteq> 0 then bindr (safestrcpy_go ds ts n) (\<lambda>r. Inr (t # r))
      else case ds of [] \<Rightarrow> Inl (Undefined ''safestrcpy'') | d' # ds' \<Rightarrow> Inr (0 # 0 # ds'))"

definition safestrcpy_arr :: "u8 list \<Rightarrow> u8 list \<Rightarrow> int \<Rightarrow> u8 list res" where
  "safestrcpy_arr ds ts n = (if n \<le> 0 then Inr ds else safestrcpy_go ds ts (nat (n - 1)))"

section \<open>What the routines compute\<close>

lemma strlen_arr_ok: "0 \<in> set xs \<Longrightarrow> strlen_arr xs = Inr (length (cstr xs))"
  by (induction xs) (auto simp: cstr_def)

lemma strncmp_arr_prefix:
  "\<lbrakk>0 \<notin> set xs; length xs \<le> length ys\<rbrakk> \<Longrightarrow> \<exists>r. strncmp_arr (xs @ zs) ys (length xs) = Inr r \<and> (r = 0 \<longleftrightarrow> take (length xs) ys = xs)"
proof (induction xs arbitrary: ys)
  case (Cons x xs)
  then obtain y ys' where y: "ys = y # ys'" by (cases ys) auto
  with Cons show ?case by (auto simp: uint_word_ariths intro: word_uint_eqI)
qed simp

lemma pad_arr_ok: "n \<le> length ds \<Longrightarrow> pad_arr ds n = Inr (replicate n 0 @ drop n ds)"
proof (induction n arbitrary: ds)
  case (Suc n)
  then obtain d ds' where "ds = d # ds'" by (cases ds) auto
  with Suc show ?case by simp
qed simp

lemma strncpy_arr_short:
  "\<lbrakk>0 \<notin> set xs; length xs \<le> length ds\<rbrakk> \<Longrightarrow> strncpy_arr ds (xs @ zs) (length xs) = Inr (xs @ drop (length xs) ds)"
proof (induction xs arbitrary: ds)
  case (Cons x xs)
  then obtain d ds' where "ds = d # ds'" by (cases ds) auto
  with Cons show ?case by auto
qed simp

lemma strncpy_arr_pads:
  "\<lbrakk>0 \<notin> set xs; length xs < n; n \<le> length ds\<rbrakk> \<Longrightarrow>
     strncpy_arr ds (xs @ 0 # zs) n = Inr (xs @ replicate (n - length xs) 0 @ drop n ds)"
proof (induction xs arbitrary: ds n)
  case Nil
  then obtain n' where n: "n = Suc n'" by (cases n) auto
  with Nil obtain d ds' where "ds = d # ds'" by (cases ds) auto
  with n Nil show ?case by (simp add: pad_arr_ok)
next
  case (Cons x xs)
  then obtain n' where n: "n = Suc n'" by (cases n) auto
  with Cons obtain d ds' where "ds = d # ds'" by (cases ds) auto
  with n Cons show ?case by auto
qed

lemma strncpy_arr_over: "\<lbrakk>0 \<notin> set xs; length ds < length xs\<rbrakk> \<Longrightarrow> strncpy_arr ds (xs @ zs) (length xs) = Inl (Undefined ''strncpy'')"
proof (induction xs arbitrary: ds)
  case (Cons x xs)
  then show ?case by (cases ds) auto
qed simp

section \<open>Agreement with byte memory\<close>

definition arr_at :: "mem \<Rightarrow> u32 \<Rightarrow> u8 list \<Rightarrow> bool" where
  "arr_at m a xs \<longleftrightarrow> (\<forall>i<length xs. m (a + of_nat i) = xs ! i)"

lemma arr_at_Nil [simp]: "arr_at m a []"
  by (simp add: arr_at_def)

lemma arr_at_Cons [simp]: "arr_at m a (x # xs) \<longleftrightarrow> m a = x \<and> arr_at m (a + 1) xs"
  by (auto simp: arr_at_def All_less_Suc2 add.assoc)

lemma arr_at_frame:
  "\<lbrakk>arr_at m a xs; \<And>i. i < length xs \<Longrightarrow> m' (a + of_nat i) = m (a + of_nat i)\<rbrakk> \<Longrightarrow> arr_at m' a xs"
  by (simp add: arr_at_def)

text \<open>
  strncmp on arrays is strncmp on memory: where the list version returns a value, the
  routine run on a memory that holds the two arrays returns the same value.
\<close>

theorem strncmp_arr_agrees:
  "\<lbrakk>arr_at m p xs; arr_at m q ys; strncmp_arr xs ys n = Inr r\<rbrakk> \<Longrightarrow> strncmp m p q n = r"
  by (induction xs ys n arbitrary: p q rule: strncmp_arr.induct) (auto split: if_splits)

theorem strncmp_arr_agrees_witness:
  "strncmp (\<lambda>a. if a = 0 then 97 else if a = 10 then 98 else 0) 0 10 (Suc (Suc 0)) = -1"
  by (rule strncmp_arr_agrees [of _ _ "[97, 0]" _ "[98, 0]"]) simp_all

lemma arr_at_tail_upd: "\<lbrakk>arr_at m (s + 1) xs; length xs < 2 ^ 32\<rbrakk> \<Longrightarrow> arr_at (m(s := v)) (s + 1) xs"
proof (rule arr_at_frame, assumption)
  fix i assume l: "length xs < 2 ^ 32" and i: "i < length xs"
  have "s + 1 + of_nat i \<noteq> s"
  proof
    assume "s + 1 + of_nat i = s"
    then have "(of_nat (Suc i) :: u32) = 0" by (simp add: algebra_simps)
    then have "unat (of_nat (Suc i) :: u32) = 0" by (simp only: unat_0)
    then have "Suc i mod 2 ^ 32 = 0" by (simp only: unat_of_nat_u32)
    then show False using l i by simp
  qed
  then show "(m(s := v)) (s + 1 + of_nat i) = m (s + 1 + of_nat i)" by simp
qed

lemma pad_arr_agrees:
  "\<lbrakk>arr_at m s ds; length ds < 2 ^ 32; pad_arr ds n = Inr r\<rbrakk> \<Longrightarrow> arr_at (pad_zero m s n) s r"
proof (induction ds n arbitrary: m s r rule: pad_arr.induct)
  case (3 d ds n)
  then obtain r' where r': "pad_arr ds n = Inr r'" "r = 0 # r'" by (auto simp: bindr_eq_Inr)
  have len: "n \<le> length ds" using r'(1) by (induction ds n arbitrary: r' rule: pad_arr.induct) (auto simp: bindr_eq_Inr)
  have "arr_at (pad_zero (m(s := 0)) (s + 1) n) (s + 1) r'"
    by (rule "3.IH" [OF arr_at_tail_upd]) (use "3.prems" r' in simp_all)
  moreover have "pad_zero (m(s := 0)) (s + 1) n s = 0"
    using pad_zero_eq [of n "m(s := 0)" "s + 1"] not_in_range_succ [of n s] len "3.prems"(2) by simp
  ultimately show ?case using r' by simp
qed auto

lemma strncpy_loop_frame: "n \<le> 2 ^ 32 \<Longrightarrow> \<not> in_range s n x \<Longrightarrow> strncpy_loop m s t n x = m x"
proof (induction n arbitrary: m s t)
  case (Suc n)
  then have "\<not> in_range (s + 1) n x" "x \<noteq> s" by (auto simp: in_range_Suc)
  with Suc show ?case by (simp add: Let_def pad_zero_eq)
qed simp

lemma strncpy_arr_len: "strncpy_arr ds ts n = Inr r \<Longrightarrow> n \<le> length ds"
proof (induction ds ts n arbitrary: r rule: strncpy_arr.induct)
  case (4 d ds t ts n)
  show ?case
  proof (cases "t = 0")
    case True
    with 4 obtain r' where "pad_arr ds n = Inr r'" by (auto simp: bindr_eq_Inr)
    then have "n \<le> length ds" by (induction ds n arbitrary: r' rule: pad_arr.induct) (auto simp: bindr_eq_Inr)
    then show ?thesis by simp
  next
    case False
    with 4 show ?thesis by (auto simp: bindr_eq_Inr)
  qed
qed auto

lemma arr_at_other_upd: "\<lbrakk>arr_at m t xs; \<And>i. i < length xs \<Longrightarrow> t + of_nat i \<noteq> s\<rbrakk> \<Longrightarrow> arr_at (m(s := v)) t xs"
  by (simp add: arr_at_def)

text \<open>
  strncpy on arrays is strncpy on memory: where the list version succeeds, the routine run
  on a memory that holds the two disjoint arrays leaves exactly its result in the destination
  and changes no byte outside the n bytes it is allowed to write.
\<close>

theorem strncpy_arr_agrees:
  assumes "arr_at m s ds" "arr_at m t ts" "length ds < 2 ^ 32" "strncpy_arr ds ts n = Inr r"
    "\<And>i j. i < length ts \<Longrightarrow> j < length ds \<Longrightarrow> t + of_nat i \<noteq> s + of_nat j"
  shows "arr_at (strncpy m s t (int n)) s r \<and> (\<forall>x. \<not> in_range s n x \<longrightarrow> strncpy m s t (int n) x = m x)"
proof -
  have "arr_at (strncpy_loop m s t n) s r" using assms
  proof (induction ds ts n arbitrary: m s t r rule: strncpy_arr.induct)
    case (4 d ds c ts n)
    from "4.prems"(4) obtain r' where r': "(if c \<noteq> 0 then strncpy_arr ds ts n else pad_arr ds n) = Inr r'" "r = c # r'"
      by (auto simp: bindr_eq_Inr)
    have n: "n \<le> length ds" using strncpy_arr_len [OF "4.prems"(4)] by simp
    have mt: "m t = c" using "4.prems"(2) by simp
    have d1: "arr_at (m(s := c)) (s + 1) ds" using "4.prems"(1,3) by (intro arr_at_tail_upd) simp_all
    show ?case
    proof (cases "c = 0")
      case True
      have "arr_at (pad_zero (m(s := c)) (s + 1) n) (s + 1) r'"
        using pad_arr_agrees [OF d1] r' True "4.prems"(3) by simp
      moreover have "pad_zero (m(s := c)) (s + 1) n s = c"
        using pad_zero_eq [of n "m(s := c)" "s + 1"] not_in_range_succ [of n s] n "4.prems"(3) by simp
      ultimately show ?thesis using r' mt True by (simp add: Let_def)
    next
      case False
      have ne: "t + 1 + of_nat i \<noteq> s + of_nat j" if "i < length ts" "j < Suc (length ds)" for i j
        using "4.prems"(5) [of "Suc i" j] that by (simp add: algebra_simps)
      have t1: "arr_at (m(s := c)) (t + 1) ts"
        using "4.prems"(2) ne [of _ 0] by (intro arr_at_other_upd) simp_all
      have "arr_at (strncpy_loop (m(s := c)) (s + 1) (t + 1) n) (s + 1) r'"
      proof (rule "4.IH"(1) [OF False d1 t1])
        show "length ds < 2 ^ 32" "strncpy_arr ds ts n = Inr r'" using "4.prems"(3) r' False by simp_all
        show "t + 1 + of_nat i \<noteq> s + 1 + of_nat j" if "i < length ts" "j < length ds" for i j
          using ne [of i "Suc j"] that by (simp add: algebra_simps)
      qed
      moreover have "strncpy_loop (m(s := c)) (s + 1) (t + 1) n s = c"
        using strncpy_loop_frame [of n "s + 1" s "m(s := c)" "t + 1"] not_in_range_succ [of n s] n "4.prems"(3) by simp
      ultimately show ?thesis using r' mt False by (simp add: Let_def)
    qed
  qed auto
  moreover have "n \<le> 2 ^ 32" using strncpy_arr_len [OF assms(4)] assms(3) by simp
  ultimately show ?thesis using strncpy_loop_frame by (simp add: strncpy_def)
qed

theorem strncpy_arr_agrees_witness:
  "arr_at (strncpy (\<lambda>a. if a = 20 then 65 else 0) 0 20 (int 3)) 0 [65, 0, 0, 0]"
proof -
  have "20 + of_nat i \<noteq> (0 :: u32) + of_nat j" if "i < 2" "j < 4" for i j
  proof
    assume "20 + of_nat i = (0 :: u32) + of_nat j"
    then have "(of_nat (20 + i) :: u32) = of_nat j" by simp
    then have "unat (of_nat (20 + i) :: u32) = unat (of_nat j :: u32)" by (rule arg_cong)
    then show False using that unfolding unat_of_nat_u32 by simp
  qed
  then show ?thesis
    using strncpy_arr_agrees [of "\<lambda>a. if a = 20 then 65 else 0" 0 "[0, 0, 0, 0]" 20 "[65, 0]" 3 "[65, 0, 0, 0]"]
    by (simp add: numeral_3_eq_3)
qed

end
