(* ===== verification/Kalloc.thy ===== *)
theory Kalloc
  imports CString
begin

text \<open>
  The physical page allocator (kalloc.c).  Free pages are linked through their own first
  word, so the free list lives in byte memory; an abstraction predicate reads it back as a
  list.  The locale states what every client of the allocator relies on, and the kernel's
  allocator is its interpretation.
\<close>

section \<open>Constants (mmu.h, memlayout.h)\<close>

definition PGSIZE :: u32 where "PGSIZE = 4096"
definition KERNBASE :: u32 where "KERNBASE = 0x80000000"
definition PHYSTOP :: u32 where "PHYSTOP = 0xE000000"
definition DEVSPACE :: u32 where "DEVSPACE = 0xFE000000"
definition EXTMEM :: u32 where "EXTMEM = 0x100000"
definition KERNLINK :: u32 where "KERNLINK = KERNBASE + EXTMEM"

definition V2P :: "u32 \<Rightarrow> u32" where "V2P a = a - KERNBASE"
definition P2V :: "u32 \<Rightarrow> u32" where "P2V a = a + KERNBASE"

definition PGROUNDUP :: "u32 \<Rightarrow> u32" where
  "PGROUNDUP sz = (sz + PGSIZE - 1) AND NOT (PGSIZE - 1)"

definition PGROUNDDOWN :: "u32 \<Rightarrow> u32" where
  "PGROUNDDOWN a = a AND NOT (PGSIZE - 1)"

lemmas page_consts = PGSIZE_def KERNBASE_def PHYSTOP_def DEVSPACE_def EXTMEM_def KERNLINK_def

section \<open>The allocator\<close>

record kmem =
  kmem_mem :: mem
  use_lock :: bool
  freelist :: u32

definition kfree :: "u32 \<Rightarrow> u32 \<Rightarrow> kmem \<Rightarrow> kmem res" where
  "kfree kend v k =
     (if unat v mod 4096 \<noteq> 0 \<or> v < kend \<or> V2P v \<ge> PHYSTOP then Inl (Panic ''kfree'')
      else let m1 = memset (kmem_mem k) v 1 PGSIZE
           in Inr (k\<lparr>kmem_mem := store32 m1 v (freelist k), freelist := v\<rparr>))"

definition kalloc :: "kmem \<Rightarrow> u32 \<times> kmem" where
  "kalloc k =
     (let r = freelist k
      in if r \<noteq> 0 then (r, k\<lparr>freelist := load32 (kmem_mem k) r\<rparr>) else (0, k))"

lemma kfree_progress:
  assumes "kfree kend v k = Inr k'"
  shows "unat v < 0x8E000000" "0x80000000 \<le> unat v" "unat (v + PGSIZE) = unat v + 4096"
proof -
  from assms have "V2P v < PHYSTOP" by (auto simp: kfree_def split: if_splits)
  then have "unat (v - 0x80000000) < 0xE000000"
    by (simp add: V2P_def page_consts word_less_nat_alt)
  then show lt: "unat v < 0x8E000000" and "0x80000000 \<le> unat v"
    by (auto simp: unat_sub_if' split: if_splits)
  show "unat (v + PGSIZE) = unat v + 4096"
    using lt unat_add_small [of v 4096] by (simp add: PGSIZE_def)
qed

function freerange_loop :: "u32 \<Rightarrow> u32 \<Rightarrow> u32 \<Rightarrow> kmem \<Rightarrow> kmem res" where
  "freerange_loop kend p vend k =
     (if p + PGSIZE \<le> vend
      then (case kfree kend p k of
              Inl e \<Rightarrow> Inl e
            | Inr k' \<Rightarrow> freerange_loop kend (p + PGSIZE) vend k')
      else Inr k)"
  by pat_completeness auto
termination
proof (relation "measure (\<lambda>(kend, p, vend, k). 2 ^ 32 - unat p)", goal_cases)
  case 1
  show ?case by simp
next
  case (2 kend p vend k k')
  from kfree_progress [OF 2(2)] show ?case by simp
qed

declare freerange_loop.simps [simp del]

definition freerange :: "u32 \<Rightarrow> u32 \<Rightarrow> u32 \<Rightarrow> kmem \<Rightarrow> kmem res" where
  "freerange kend vstart vend k = freerange_loop kend (PGROUNDUP vstart) vend k"

definition kinit1 :: "u32 \<Rightarrow> u32 \<Rightarrow> u32 \<Rightarrow> kmem \<Rightarrow> kmem res" where
  "kinit1 kend vstart vend k = freerange kend vstart vend (k\<lparr>use_lock := False\<rparr>)"

definition kinit2 :: "u32 \<Rightarrow> u32 \<Rightarrow> u32 \<Rightarrow> kmem \<Rightarrow> kmem res" where
  "kinit2 kend vstart vend k =
     bindr (freerange kend vstart vend k) (\<lambda>k'. Inr (k'\<lparr>use_lock := True\<rparr>))"

section \<open>Abstraction\<close>

definition page_ok :: "u32 \<Rightarrow> u32 \<Rightarrow> bool" where
  "page_ok kend v \<longleftrightarrow> unat v mod 4096 = 0 \<and> \<not> v < kend \<and> \<not> V2P v \<ge> PHYSTOP"

fun chain :: "mem \<Rightarrow> u32 \<Rightarrow> u32 list \<Rightarrow> bool" where
  "chain m p [] \<longleftrightarrow> p = 0"
| "chain m p (x # xs) \<longleftrightarrow> p = x \<and> x \<noteq> 0 \<and> chain m (load32 m x) xs"

definition kmem_inv :: "u32 \<Rightarrow> kmem \<Rightarrow> u32 list \<Rightarrow> bool" where
  "kmem_inv kend k xs \<longleftrightarrow> chain (kmem_mem k) (freelist k) xs \<and> distinct xs \<and>
     (\<forall>x\<in>set xs. page_ok kend x)"

lemma page_ok_nonzero: "page_ok kend v \<Longrightarrow> v \<noteq> 0"
  by (auto simp: page_ok_def V2P_def page_consts)

lemma page_numberE:
  assumes "n mod 4096 = (0 :: nat)" obtains k where "n = 4096 * k"
  using assms by (auto simp: mod_eq_0_iff_dvd elim: dvdE)

lemma page_aligned4: "unat v mod 4096 = 0 \<Longrightarrow> aligned4 v"
  unfolding aligned4_def by (erule page_numberE) simp

lemma page_top: "unat (v :: u32) mod 4096 = 0 \<Longrightarrow> unat v + 4096 \<le> 2 ^ 32"
  using unat_lt_u32 [of v] by (elim page_numberE) simp

lemma page_disjoint:
  assumes "unat v mod 4096 = 0" "unat x mod 4096 = 0" "v \<noteq> x" "i < 4096"
  shows "\<not> in_range v 4096 (x + of_nat i)"
proof
  assume "in_range v 4096 (x + of_nat i)"
  moreover have "unat (x + of_nat i) = unat x + i"
    using page_top [OF assms(2)] assms(4) by (intro unat_add_small) simp
  ultimately have "unat v \<le> unat x + i" "unat x + i < unat v + 4096"
    using in_range_add [OF page_top [OF assms(1)]] by simp_all
  moreover obtain k where "unat v = 4096 * k" using assms(1) by (rule page_numberE)
  moreover obtain l where "unat x = 4096 * l" using assms(2) by (rule page_numberE)
  ultimately have "unat v = unat x" using assms(4) by simp
  with assms(3) show False by (simp add: word_unat_eq_iff)
qed

lemma chain_frame:
  assumes "\<And>x i. x \<in> set xs \<Longrightarrow> i < 4 \<Longrightarrow> m' (x + of_nat i) = m (x + of_nat i)"
  shows "chain m' p xs = chain m p xs"
  using assms
proof (induction xs arbitrary: p)
  case (Cons x xs)
  then have "load32 m' x = load32 m x" by (intro load32_cong) simp
  with Cons show ?case by auto
qed simp

lemma kmem_inv_alloc:
  assumes "kmem_inv kend k (x # xs)"
  shows "\<exists>k'. kalloc k = (x, k') \<and> kmem_inv kend k' xs \<and> kmem_mem k' = kmem_mem k"
  using assms by (auto simp: kmem_inv_def kalloc_def)

lemma kmem_inv_alloc_none: "kmem_inv kend k [] \<Longrightarrow> kalloc k = (0, k)"
  by (simp add: kmem_inv_def kalloc_def)

lemma kmem_inv_free:
  assumes inv: "kmem_inv kend k xs" and v: "page_ok kend v" "v \<notin> set xs"
  shows "\<exists>k'. kfree kend v k = Inr k' \<and> kmem_inv kend k' (v # xs) \<and>
    (\<forall>a. \<not> in_range v 4096 a \<longrightarrow> kmem_mem k' a = kmem_mem k a)"
proof -
  define m1 where "m1 = memset (kmem_mem k) v 1 PGSIZE"
  define m2 where "m2 = store32 m1 v (freelist k)"
  define k' where "k' = k\<lparr>kmem_mem := m2, freelist := v\<rparr>"
  have va: "unat v mod 4096 = 0" using v by (simp add: page_ok_def)
  have out: "m2 a = kmem_mem k a" if "\<not> in_range v 4096 a" for a
  proof -
    have "m2 a = m1 a" unfolding m2_def
    proof (rule store32_apply)
      fix i :: nat assume "i < 4"
      then have "in_range v 4096 (v + of_nat i)" by (simp add: in_range_def)
      with that show "a \<noteq> v + of_nat i" by auto
    qed
    with that show ?thesis by (simp add: m1_def memset_spec PGSIZE_def)
  qed
  have "chain m2 (freelist k) xs = chain (kmem_mem k) (freelist k) xs"
  proof (rule chain_frame)
    fix x i assume "x \<in> set xs" "i < (4 :: nat)"
    with inv v va show "m2 (x + of_nat i) = kmem_mem k (x + of_nat i)"
      by (intro out page_disjoint) (auto simp: kmem_inv_def page_ok_def)
  qed
  moreover have "load32 m2 v = freelist k"
    unfolding m2_def using page_aligned4 [OF va] by simp
  ultimately have "kmem_inv kend k' (v # xs)"
    using inv v page_ok_nonzero [OF v(1)] by (simp add: kmem_inv_def k'_def)
  moreover have "kfree kend v k = Inr k'"
    using v by (simp add: kfree_def page_ok_def k'_def m2_def m1_def)
  ultimately show ?thesis using out by (auto simp: k'_def)
qed

lemma kfree_bad: "\<not> page_ok kend v \<Longrightarrow> kfree kend v k = Inl (Panic ''kfree'')"
  by (auto simp: page_ok_def kfree_def)

section \<open>The allocator's contract, and what follows for every client\<close>

text \<open>
  The laws a client may use: a successful allocation hands out the head of an abstract free
  list, freeing puts a page back, and writing inside pages that are not free never disturbs
  the allocator.
\<close>

datatype page_op = Alloc | Free u32 | Write u32 u8

definition page_of :: "u32 \<Rightarrow> u32" where "page_of a = PGROUNDDOWN a"

text \<open>
  One step of a client that owns the pages in live: it may allocate, free a page it owns, or
  write a byte inside a page it owns; other requests are ignored.
\<close>

fun page_client :: "('s \<Rightarrow> u32 \<times> 's) \<Rightarrow> (u32 \<Rightarrow> 's \<Rightarrow> 's res) \<Rightarrow> (u32 \<Rightarrow> u8 \<Rightarrow> 's \<Rightarrow> 's) \<Rightarrow>
    page_op \<Rightarrow> 's \<times> u32 list \<Rightarrow> 's \<times> u32 list" where
  "page_client alloc free poke Alloc (s, live) =
     (case alloc s of (p, s') \<Rightarrow> if p = 0 then (s', live) else (s', p # live))"
| "page_client alloc free poke (Free v) (s, live) =
     (if v \<in> set live then (case free v s of Inl e \<Rightarrow> (s, live) | Inr s' \<Rightarrow> (s', remove1 v live))
      else (s, live))"
| "page_client alloc free poke (Write a b) (s, live) =
     (if page_of a \<in> set live then (poke a b s, live) else (s, live))"

locale page_allocator =
  fixes alloc :: "'s \<Rightarrow> u32 \<times> 's"
    and free :: "u32 \<Rightarrow> 's \<Rightarrow> 's res"
    and poke :: "u32 \<Rightarrow> u8 \<Rightarrow> 's \<Rightarrow> 's"
    and valid :: "u32 \<Rightarrow> bool"
    and inv :: "'s \<Rightarrow> u32 list \<Rightarrow> bool"
  assumes alloc_some: "inv s (x # xs) \<Longrightarrow> \<exists>s'. alloc s = (x, s') \<and> inv s' xs"
    and alloc_none: "inv s [] \<Longrightarrow> alloc s = (0, s)"
    and free_ok: "inv s xs \<Longrightarrow> valid v \<Longrightarrow> v \<notin> set xs \<Longrightarrow> \<exists>s'. free v s = Inr s' \<and> inv s' (v # xs)"
    and inv_pages: "inv s xs \<Longrightarrow> distinct xs \<and> (\<forall>x\<in>set xs. valid x \<and> x \<noteq> 0)"
    and poke_ok: "inv s xs \<Longrightarrow> page_of a \<notin> set xs \<Longrightarrow> inv (poke a b s) xs"
begin

definition owns :: "u32 set \<Rightarrow> 's \<times> u32 list \<Rightarrow> bool" where
  "owns pool c \<longleftrightarrow> (\<exists>xs. inv (fst c) xs \<and> distinct (snd c @ xs) \<and> set (snd c @ xs) = pool \<and>
     (\<forall>v\<in>set (snd c). valid v \<and> v \<noteq> 0))"

lemma client_step_owns:
  assumes "owns pool (s, live)"
  shows "owns pool (page_client alloc free poke r (s, live))"
proof -
  from assms obtain xs where xs: "inv s xs" "distinct (live @ xs)" "set (live @ xs) = pool"
    "\<forall>v\<in>set live. valid v \<and> v \<noteq> 0" by (auto simp: owns_def)
  show ?thesis
  proof (cases r)
    case Alloc
    show ?thesis
    proof (cases xs)
      case Nil
      with xs alloc_none have "alloc s = (0, s)" by simp
      with Alloc assms show ?thesis by simp
    next
      case (Cons x ys)
      with xs alloc_some obtain s' where s': "alloc s = (x, s')" "inv s' ys" by blast
      from inv_pages [OF xs(1)] Cons have "x \<noteq> 0" "valid x" by auto
      with Alloc s' xs Cons show ?thesis by (auto simp: owns_def intro!: exI [of _ ys])
    qed
  next
    case (Free v)
    show ?thesis
    proof (cases "v \<in> set live")
      case True
      with xs have "valid v" "v \<notin> set xs" by auto
      with free_ok [OF xs(1)] obtain s' where s': "free v s = Inr s'" "inv s' (v # xs)" by blast
      have "distinct (remove1 v live @ v # xs)" "set (remove1 v live @ v # xs) = pool"
        "\<forall>w\<in>set (remove1 v live). valid w \<and> w \<noteq> 0"
        using xs True by (auto simp: distinct_remove1 dest: notin_set_remove1)
      with s' Free True show ?thesis by (auto simp: owns_def intro!: exI [of _ "v # xs"])
    next
      case False
      with Free assms show ?thesis by simp
    qed
  next
    case (Write a b)
    with assms xs show ?thesis
      by (auto simp: owns_def intro!: exI [of _ xs] poke_ok)
  qed
qed

lemma client_run_owns:
  "owns pool c \<Longrightarrow> owns pool (fold (page_client alloc free poke) ops c)"
proof (induction ops arbitrary: c)
  case (Cons r ops)
  then show ?case using client_step_owns by (cases c) auto
qed simp

end

section \<open>Page rounding\<close>

lemma PGROUNDDOWN_bits: "PGROUNDDOWN a = push_bit 12 (drop_bit 12 a)"
proof -
  have "a AND NOT (mask 12) = push_bit 12 (drop_bit 12 a)"
    by (rule bit_word_eqI) (auto simp: bit_simps)
  then show ?thesis by (simp add: PGROUNDDOWN_def PGSIZE_def mask_eq_exp_minus_1)
qed

lemma unat_PGROUNDDOWN: "unat (PGROUNDDOWN a) = unat a div 4096 * 4096"
proof -
  have "unat (PGROUNDDOWN a) = (unat a div 4096 * 4096) mod 2 ^ 32"
    by (simp add: PGROUNDDOWN_bits push_bit_eq_mult drop_bit_eq_div unat_word_ariths unat_div
        mod_mult_left_eq)
  moreover have "unat a div 4096 * 4096 \<le> unat a" by simp
  then have "unat a div 4096 * 4096 < 2 ^ 32" by (rule le_less_trans) simp
  ultimately show ?thesis by simp
qed

lemma round_up_le: "(n + 4095) div 4096 * 4096 \<le> 4096 * i \<longleftrightarrow> n \<le> 4096 * (i :: nat)"
proof -
  let ?d = "(n + 4095) div 4096" and ?r = "(n + 4095) mod 4096"
  have eq: "n + 4095 = ?d * 4096 + ?r" "?r < 4096" by simp_all
  show ?thesis
  proof (cases "?d \<le> i")
    case True
    with eq have "n \<le> 4096 * i" by linarith
    with True show ?thesis by linarith
  next
    case False
    with eq have "\<not> n \<le> 4096 * i" by linarith
    with False show ?thesis by linarith
  qed
qed

lemma PGROUNDUP_eq: "PGROUNDUP a = PGROUNDDOWN (a + 4095)"
  by (simp add: PGROUNDUP_def PGROUNDDOWN_def PGSIZE_def add.commute)

lemma unat_PGROUNDUP:
  "unat a + 4095 < 2 ^ 32 \<Longrightarrow> unat (PGROUNDUP a) = (unat a + 4095) div 4096 * 4096"
  using unat_add_small [of a 4095] by (simp add: PGROUNDUP_eq unat_PGROUNDDOWN)

lemma PGROUNDUP_aligned: "unat (PGROUNDUP a) mod 4096 = 0"
  by (simp add: PGROUNDUP_eq unat_PGROUNDDOWN)

lemma page_of_offset:
  assumes "unat x mod 4096 = 0" "i < 4096"
  shows "page_of (x + of_nat i) = x"
proof -
  obtain k where k: "unat x = 4096 * k" using assms(1) by (rule page_numberE)
  have "unat (x + of_nat i) = unat x + i"
    using page_top [OF assms(1)] assms(2) by (intro unat_add_small) simp
  then have "unat (page_of (x + of_nat i)) = unat x"
    using k assms(2) by (simp add: page_of_def unat_PGROUNDDOWN)
  then show ?thesis by (simp add: word_unat_eq_iff)
qed

section \<open>The kernel's allocator meets the contract\<close>

definition kpoke :: "u32 \<Rightarrow> u8 \<Rightarrow> kmem \<Rightarrow> kmem" where
  "kpoke a b k = k\<lparr>kmem_mem := (kmem_mem k)(a := b)\<rparr>"

lemma kmem_inv_poke:
  assumes "kmem_inv kend k xs" "page_of a \<notin> set xs"
  shows "kmem_inv kend (kpoke a b k) xs"
proof -
  have "chain ((kmem_mem k)(a := b)) (freelist k) xs = chain (kmem_mem k) (freelist k) xs"
  proof (rule chain_frame)
    fix x i assume x: "x \<in> set xs" "i < (4 :: nat)"
    with assms have "page_of (x + of_nat i) = x"
      by (intro page_of_offset) (auto simp: kmem_inv_def page_ok_def)
    with x assms(2) show "((kmem_mem k)(a := b)) (x + of_nat i) = kmem_mem k (x + of_nat i)"
      by auto
  qed
  with assms(1) show ?thesis by (simp add: kmem_inv_def kpoke_def)
qed

interpretation kpages: page_allocator kalloc "kfree kend" kpoke "page_ok kend" "kmem_inv kend"
  for kend
proof unfold_locales
  fix k x xs assume "kmem_inv kend k (x # xs)"
  then show "\<exists>k'. kalloc k = (x, k') \<and> kmem_inv kend k' xs" using kmem_inv_alloc by blast
next
  fix k xs v assume "kmem_inv kend k xs" "page_ok kend v" "v \<notin> set xs"
  then show "\<exists>k'. kfree kend v k = Inr k' \<and> kmem_inv kend k' (v # xs)"
    using kmem_inv_free by blast
next
  fix k xs assume "kmem_inv kend k xs"
  then show "distinct xs \<and> (\<forall>x\<in>set xs. page_ok kend x \<and> x \<noteq> 0)"
    by (auto simp: kmem_inv_def dest: page_ok_nonzero)
qed (simp_all add: kmem_inv_alloc_none kmem_inv_poke)

text \<open>
  C2. Whatever sequence of allocations, frees and page writes a client of kalloc.c performs,
  the pages it holds and the pages on the free list stay disjoint and together are exactly
  the pages the free list started with: no page is handed out twice, none is lost, and
  client writes never corrupt the list threaded through the free pages.
\<close>

theorem kalloc_pages_conserved:
  assumes "kmem_inv kend k xs"
    and "fold (page_client kalloc (kfree kend) kpoke) ops (k, []) = (k', live)"
  shows "\<exists>ys. kmem_inv kend k' ys \<and> distinct (live @ ys) \<and> set (live @ ys) = set xs"
proof -
  have "kpages.owns kend (set xs) (k, [])"
    using assms(1) by (auto simp: kpages.owns_def kmem_inv_def)
  then have "kpages.owns kend (set xs) (k', live)"
    using kpages.client_run_owns [of kend "set xs" "(k, [])" ops] assms(2) by simp
  then show ?thesis by (auto simp: kpages.owns_def)
qed

theorem kalloc_pages_conserved_witness:
  "\<exists>ys. kmem_inv 0x80100000 \<lparr>kmem_mem = store32 (\<lambda>_. 0) 0x80101000 0x80102000, use_lock = True,
       freelist = 0x80102000\<rparr> ys \<and> distinct ([0x80101000] @ ys) \<and>
     set ([0x80101000] @ ys) = set [0x80101000, 0x80102000 :: u32]"
proof (rule kalloc_pages_conserved [where ops = "[Alloc]"])
  let ?k = "\<lparr>kmem_mem = store32 (\<lambda>_. 0) 0x80101000 0x80102000, use_lock = True,
    freelist = 0x80101000\<rparr>"
  have al: "aligned4 0x80101000" "aligned4 0x80102000" by (simp_all add: aligned4_def)
  have nx: "load32 (store32 (\<lambda>_. 0) 0x80101000 0x80102000) 0x80101000 = 0x80102000"
    using al by simp
  have "load32 (store32 (\<lambda>_. 0) 0x80101000 0x80102000) 0x80102000 = load32 (\<lambda>_. 0) 0x80102000"
    by (rule load32_store32_other) (use al in simp_all)
  then have "load32 (store32 (\<lambda>_. 0) 0x80101000 0x80102000) 0x80102000 = 0"
    by (simp add: load32_def)
  with nx show "kmem_inv 0x80100000 ?k [0x80101000, 0x80102000]"
    by (simp add: kmem_inv_def page_ok_def V2P_def page_consts)
  show "fold (page_client kalloc (kfree 0x80100000) kpoke) [Alloc] (?k, []) =
    (\<lparr>kmem_mem = store32 (\<lambda>_. 0) 0x80101000 0x80102000, use_lock = True,
       freelist = 0x80102000\<rparr>, [0x80101000])"
    using nx by (simp add: kalloc_def)
qed

section \<open>Initialisation\<close>

lemma freerange_loop_spec:
  assumes "kmem_inv kend k xs" "unat p mod 4096 = 0" "kend \<le> p" "KERNBASE \<le> p"
    "unat vend \<le> 0x8E000000" "unat p \<le> 0x8E000000" "\<And>x. x \<in> set xs \<Longrightarrow> x < p \<or> vend \<le> x"
  shows "\<exists>k' ys. freerange_loop kend p vend k = Inr k' \<and> kmem_inv kend k' (ys @ xs) \<and>
    set ys = {q. unat q mod 4096 = 0 \<and> p \<le> q \<and> unat q + 4096 \<le> unat vend}"
  using assms
proof (induction kend p vend k arbitrary: xs rule: freerange_loop.induct)
  case (1 kend p vend k)
  have add: "unat (p + PGSIZE) = unat p + 4096"
    using "1.prems"(6) unat_add_small [of p 4096] by (simp add: PGSIZE_def)
  show ?case
  proof (cases "p + PGSIZE \<le> vend")
    case False
    then have "\<not> unat p + 4096 \<le> unat vend" using add by (simp add: word_le_nat_alt)
    then have "{q. unat q mod 4096 = 0 \<and> p \<le> q \<and> unat q + 4096 \<le> unat vend} = {}"
      by (auto simp: word_le_nat_alt)
    with False "1.prems"(1) show ?thesis
      by (auto simp: freerange_loop.simps [of kend p vend k] intro!: exI [of _ "[]"])
  next
    case True
    then have le: "unat p + 4096 \<le> unat vend" using add by (simp add: word_le_nat_alt)
    have p: "0x80000000 \<le> unat p" "unat (V2P p) = unat p - 0x80000000"
      using "1.prems"(4) by (simp_all add: word_le_nat_alt KERNBASE_def V2P_def unat_sub)
    have "page_ok kend p"
      using "1.prems"(2,3,5) le p
      by (simp add: page_ok_def not_less) (simp add: word_le_nat_alt PHYSTOP_def)
    moreover have "p \<notin> set xs"
      using "1.prems"(7) [of p] le by (auto simp: word_le_nat_alt)
    ultimately obtain k' where k': "kfree kend p k = Inr k'" "kmem_inv kend k' (p # xs)"
      using kmem_inv_free "1.prems"(1) by blast
    have "\<exists>k'' ys. freerange_loop kend (p + PGSIZE) vend k' = Inr k'' \<and>
        kmem_inv kend k'' (ys @ p # xs) \<and>
        set ys = {q. unat q mod 4096 = 0 \<and> p + PGSIZE \<le> q \<and> unat q + 4096 \<le> unat vend}"
    proof (rule "1.IH" [OF True k'(1) k'(2)])
      show "unat (p + PGSIZE) mod 4096 = 0" using "1.prems"(2) add by simp
      show "kend \<le> p + PGSIZE" "KERNBASE \<le> p + PGSIZE"
        using "1.prems"(3,4) add by (simp_all add: word_le_nat_alt)
      show "x < p + PGSIZE \<or> vend \<le> x" if "x \<in> set (p # xs)" for x
        using that "1.prems"(7) [of x] add
        by (auto simp: word_le_nat_alt word_less_nat_alt)
    qed (use "1.prems"(5) le add in simp_all)
    then obtain k'' ys where r: "freerange_loop kend (p + PGSIZE) vend k' = Inr k''"
      "kmem_inv kend k'' (ys @ p # xs)"
      "set ys = {q. unat q mod 4096 = 0 \<and> p + PGSIZE \<le> q \<and> unat q + 4096 \<le> unat vend}"
      by blast
    have "p + PGSIZE \<le> q" if q: "unat q mod 4096 = 0" "p \<le> q" "q \<noteq> p" for q
    proof -
      obtain i where i: "unat q = 4096 * i" using q(1) by (rule page_numberE)
      obtain j where j: "unat p = 4096 * j" using "1.prems"(2) by (rule page_numberE)
      from q(2,3) have "unat p < unat q" by (metis order_le_neq_trans word_less_nat_alt)
      with i j have "j < i" by simp
      then show ?thesis using i j add by (simp add: word_le_nat_alt)
    qed
    moreover have "p \<le> p + PGSIZE" using add by (simp add: word_le_nat_alt)
    ultimately have "set (ys @ [p]) =
        {q. unat q mod 4096 = 0 \<and> p \<le> q \<and> unat q + 4096 \<le> unat vend}"
      using r(3) "1.prems"(2) le by (auto intro: order.trans)
    moreover have "freerange_loop kend p vend k = Inr k''"
      using True k'(1) r(1) by (simp add: freerange_loop.simps [of kend p vend k])
    moreover have "kmem_inv kend k'' ((ys @ [p]) @ xs)" using r(2) by simp
    ultimately show ?thesis by blast
  qed
qed

text \<open>
  kinit1 over an area of the kernel map succeeds and leaves on the free list exactly the
  page-aligned pages that lie wholly inside the area, each once.
\<close>

theorem kinit1_frees_range:
  assumes "freelist k = 0" "kend \<le> vstart" "KERNBASE \<le> vstart" "vstart \<le> vend"
    "unat vend \<le> 0x8E000000"
  shows "\<exists>k' ys. kinit1 kend vstart vend k = Inr k' \<and> kmem_inv kend k' ys \<and>
    set ys = {q. unat q mod 4096 = 0 \<and> vstart \<le> q \<and> unat q + 4096 \<le> unat vend}"
proof -
  let ?p = "PGROUNDUP vstart"
  have up: "unat ?p = (unat vstart + 4095) div 4096 * 4096"
    using assms(4,5) by (intro unat_PGROUNDUP) (simp add: word_le_nat_alt)
  then have ge: "unat vstart \<le> unat ?p"
    using round_up_le [of "unat vstart" "(unat vstart + 4095) div 4096"] by simp
  have top: "unat ?p \<le> 0x8E000000"
  proof -
    have "(unat vstart + 4095) div 4096 \<le> (0x8E000000 + 4095) div 4096"
      using assms(4,5) by (intro div_le_mono) (simp add: word_le_nat_alt)
    then show ?thesis using up by simp
  qed
  have "kmem_inv kend (k\<lparr>use_lock := False\<rparr>) []" using assms(1) by (simp add: kmem_inv_def)
  from freerange_loop_spec [OF this PGROUNDUP_aligned, of vstart vend] assms ge top
  obtain k' ys where r: "freerange_loop kend ?p vend (k\<lparr>use_lock := False\<rparr>) = Inr k'"
    "kmem_inv kend k' ys"
    "set ys = {q. unat q mod 4096 = 0 \<and> ?p \<le> q \<and> unat q + 4096 \<le> unat vend}"
    by (auto simp: word_le_nat_alt)
  have "?p \<le> q \<longleftrightarrow> vstart \<le> q" if "unat q mod 4096 = 0" for q
  proof -
    obtain i where "unat q = 4096 * i" using \<open>unat q mod 4096 = 0\<close> by (rule page_numberE)
    then show ?thesis using up round_up_le [of "unat vstart" i] by (simp add: word_le_nat_alt)
  qed
  then have "set ys = {q. unat q mod 4096 = 0 \<and> vstart \<le> q \<and> unat q + 4096 \<le> unat vend}"
    using r(3) by auto
  with r(1,2) show ?thesis by (auto simp: kinit1_def freerange_def)
qed

theorem kinit1_frees_range_witness:
  "\<exists>k' ys. kinit1 0x80100000 0x80100001 0x80104000
      \<lparr>kmem_mem = (\<lambda>_. 0), use_lock = True, freelist = 0\<rparr> = Inr k' \<and>
    kmem_inv 0x80100000 k' ys \<and> set ys =
      {q. unat q mod 4096 = 0 \<and> 0x80100001 \<le> q \<and> unat q + 4096 \<le> unat (0x80104000 :: u32)}"
  by (rule kinit1_frees_range) (simp_all add: KERNBASE_def)

end
