(* ===== verification/Ring.thy ===== *)
theory Ring
  imports Memory
begin

text \<open>
  Ring buffers indexed by free-running 32-bit counters: the pipe buffer (pipe.c) and the
  console input buffer (console.c) both store byte k at index k modulo the buffer size and
  let the counters wrap.  The locale holds what makes that work (the size divides 2^32) and
  the queue laws that follow; the two buffers are its interpretations.
\<close>

definition ring_contents :: "nat \<Rightarrow> 'a list \<Rightarrow> u32 \<Rightarrow> u32 \<Rightarrow> 'a list" where
  "ring_contents N d r w = map (\<lambda>i. d ! ((unat r + i) mod N)) [0..<unat (w - r)]"

definition ring_ok :: "nat \<Rightarrow> 'a list \<Rightarrow> u32 \<Rightarrow> u32 \<Rightarrow> bool" where
  "ring_ok N d r w \<longleftrightarrow> length d = N \<and> unat (w - r) \<le> N"

lemma length_ring_contents [simp]: "length (ring_contents N d r w) = unat (w - r)"
  by (simp add: ring_contents_def)

lemma ring_contents_empty [simp]: "ring_contents N d r r = []"
  by (simp add: ring_contents_def)

lemma unat_plus_one: "unat (x :: u32) < 2 ^ 32 - 1 \<Longrightarrow> unat (x + 1) = unat x + 1"
  using unat_add_small [of x 1] by simp

lemma unat_minus_one_nz: "(x :: u32) \<noteq> 0 \<Longrightarrow> unat (x - 1) = unat x - 1"
  by (rule unat_minus_one)

lemma unat_nonzero: "(x :: u32) \<noteq> 0 \<Longrightarrow> 0 < unat x"
  using unat_eq_0 [of x] by blast

locale ring_size =
  fixes N :: nat
  assumes N_pos: "0 < N" and N_dvd: "N dvd 2 ^ 32" and N_small: "N < 2 ^ 32"
begin

lemma index_wrap: "unat (r + of_nat i :: u32) mod N = (unat r + i) mod N"
proof -
  have "unat (r + of_nat i) = (unat r + i mod 2 ^ 32) mod 2 ^ 32"
    by (simp add: unat_word_ariths)
  also have "\<dots> = (unat r + i) mod 2 ^ 32" by (rule mod_add_right_eq)
  finally show ?thesis using N_dvd by (simp add: mod_mod_cancel)
qed

lemma index_last: "unat (w :: u32) mod N = (unat r + unat (w - r)) mod N"
  using index_wrap [of r "unat (w - r)"] by simp

lemma ring_put:
  assumes "ring_ok N d r w" "unat (w - r) < N"
  shows "ring_contents N (d[unat w mod N := x]) r (w + 1) = ring_contents N d r w @ [x]"
    and "ring_ok N (d[unat w mod N := x]) r (w + 1)"
proof -
  let ?n = "unat (w - r)"
  have n: "unat (w + 1 - r) = ?n + 1"
    using assms(2) N_small unat_plus_one [of "w - r"] by (simp add: diff_add_eq)
  have w: "unat w mod N = (unat r + ?n) mod N" by (rule index_last)
  have "(unat r + ?n) mod N \<noteq> (unat r + i) mod N" if "i < ?n" for i
  proof
    assume "(unat r + ?n) mod N = (unat r + i) mod N"
    then have "N dvd (unat r + ?n) - (unat r + i)"
      using that by (metis mod_eq_dvd_iff_nat add_le_cancel_left less_imp_le)
    then have "N dvd ?n - i" by simp
    then have "N \<le> ?n - i" using that by (intro dvd_imp_le) auto
    with assms(2) show False by simp
  qed
  then show "ring_contents N (d[unat w mod N := x]) r (w + 1) = ring_contents N d r w @ [x]"
    using assms N_pos n w by (auto simp: ring_contents_def ring_ok_def intro!: nth_equalityI)
  show "ring_ok N (d[unat w mod N := x]) r (w + 1)"
    using assms n by (simp add: ring_ok_def)
qed

lemma ring_split:
  assumes "unat (w - r :: u32) \<le> unat (e - r)"
  shows "unat (e - w) = unat (e - r) - unat (w - r)"
    and "ring_contents N d r e = ring_contents N d r w @ ring_contents N d w e"
proof -
  have "e - w = (e - r) - (w - r)" by simp
  then show n: "unat (e - w) = unat (e - r) - unat (w - r)"
    using assms by (metis unat_sub word_le_nat_alt)
  have "d ! ((unat w + i) mod N) = d ! ((unat r + (unat (w - r) + i)) mod N)" for i
    using index_last [of w r] by (metis add.assoc mod_add_left_eq)
  then show "ring_contents N d r e = ring_contents N d r w @ ring_contents N d w e"
    using n assms by (intro nth_equalityI) (auto simp: ring_contents_def nth_append)
qed

lemma ring_get:
  assumes "ring_ok N d r w" "r \<noteq> w"
  shows "ring_contents N d r w = d ! (unat r mod N) # ring_contents N d (r + 1) w"
    and "ring_ok N d (r + 1) w"
proof -
  have ne: "w - r \<noteq> 0" using assms(2) by simp
  have n: "unat (w - (r + 1)) = unat (w - r) - 1" "unat (w - r) = Suc (unat (w - r) - 1)"
    using unat_minus_one_nz [OF ne] unat_nonzero [OF ne] by (simp_all add: diff_diff_eq)
  have idx: "(unat (r + 1) + i) mod N = (unat r + Suc i) mod N" for i
    using index_wrap [of r 1] by (metis add.assoc mod_add_left_eq of_nat_1 plus_1_eq_Suc)
  have "[0..<unat (w - r)] = 0 # map Suc [0..<unat (w - (r + 1))]"
    using n by (metis map_Suc_upt upt_conv_Cons zero_less_Suc)
  then show "ring_contents N d r w = d ! (unat r mod N) # ring_contents N d (r + 1) w"
    by (simp add: ring_contents_def idx)
  show "ring_ok N d (r + 1) w" using assms n by (simp add: ring_ok_def)
qed

lemma ring_unput:
  assumes "ring_ok N d r w" "r \<noteq> w"
  shows "ring_contents N d r (w - 1) = butlast (ring_contents N d r w)"
    and "ring_ok N d r (w - 1)"
    and "last (ring_contents N d r w) = d ! (unat (w - 1) mod N)"
proof -
  have ne: "w - r \<noteq> 0" using assms(2) by simp
  have n: "unat (w - 1 - r) = unat (w - r) - 1" "unat (w - r) = Suc (unat (w - r) - 1)"
    using unat_minus_one_nz [OF ne] unat_nonzero [OF ne] by (simp_all add: diff_right_commute)
  then have up: "[0..<unat (w - r)] = [0..<unat (w - 1 - r)] @ [unat (w - 1 - r)]"
    by (metis upt_Suc_append zero_le)
  then show "ring_contents N d r (w - 1) = butlast (ring_contents N d r w)"
    by (simp add: ring_contents_def)
  show "ring_ok N d r (w - 1)" using assms n by (simp add: ring_ok_def)
  show "last (ring_contents N d r w) = d ! (unat (w - 1) mod N)"
    using up index_last [of "w - 1" r] by (simp add: ring_contents_def del: upt_Suc)
qed

end

end
