(* ===== verification/Pipe.thy ===== *)
theory Pipe
  imports Ring
begin

text \<open>
  Pipes (pipe.c).  Each routine runs under the pipe's spin lock until it returns or goes to
  sleep, so its body is a function from the pipe to the new pipe, the way it stopped and the
  channels it woke; processes reading and writing concurrently are a step relation over
  these bodies.
\<close>

definition PIPESIZE :: nat where "PIPESIZE = 512"

record pipe =
  data :: "u8 list"
  nread :: u32
  nwrite :: u32
  readopen :: bool
  writeopen :: bool

datatype pchan = Chan_nread | Chan_nwrite

definition pipe_new :: "u8 list \<Rightarrow> pipe" where
  "pipe_new d = \<lparr>data = d, nread = 0, nwrite = 0, readopen = True, writeopen = True\<rparr>"

definition pipeclose :: "pipe \<Rightarrow> bool \<Rightarrow> pipe \<times> pchan \<times> bool" where
  "pipeclose p writable =
     (let (p1, ch) = (if writable then (p\<lparr>writeopen := False\<rparr>, Chan_nread)
                      else (p\<lparr>readopen := False\<rparr>, Chan_nwrite))
      in (p1, ch, \<not> readopen p1 \<and> \<not> writeopen p1))"

text \<open>
  pipewrite: the loop over the bytes, entered at index i (again after a sleep).  It stops by
  returning a value, or asleep on nwrite with the index it had reached; woken lists the
  channels passed to wakeup on the way.
\<close>

datatype stop = Ret int | Sleep

function pipewrite_loop :: "bool \<Rightarrow> (nat \<Rightarrow> u8) \<Rightarrow> int \<Rightarrow> nat \<Rightarrow> pipe \<Rightarrow> pipe \<times> nat \<times> stop \<times> pchan list" where
  "pipewrite_loop killed addr n i p =
     (if int i < n
      then if nwrite p = nread p + of_nat PIPESIZE
           then if \<not> readopen p \<or> killed then (p, i, Ret (-1), [])
                else (p, i, Sleep, [Chan_nread])
           else pipewrite_loop killed addr n (Suc i)
                  (p\<lparr>data := (data p)[unat (nwrite p) mod PIPESIZE := addr i],
                     nwrite := nwrite p + 1\<rparr>)
      else (p, i, Ret n, [Chan_nread]))"
  by pat_completeness auto
termination
  by (relation "measure (\<lambda>(killed, addr, n, i, p). nat n - i)") auto

declare pipewrite_loop.simps [simp del]

definition pipewrite :: "bool \<Rightarrow> (nat \<Rightarrow> u8) \<Rightarrow> int \<Rightarrow> pipe \<Rightarrow> pipe \<times> nat \<times> stop \<times> pchan list" where
  "pipewrite killed addr n p = pipewrite_loop killed addr n 0 p"

text \<open>piperead: the wait at the head, then the copy loop; out is what it stored at addr.\<close>

function piperead_loop :: "int \<Rightarrow> nat \<Rightarrow> pipe \<Rightarrow> pipe \<times> u8 list" where
  "piperead_loop n i p =
     (if int i < n \<and> nread p \<noteq> nwrite p
      then let c = data p ! (unat (nread p) mod PIPESIZE);
               (p', out) = piperead_loop n (Suc i) (p\<lparr>nread := nread p + 1\<rparr>)
           in (p', c # out)
      else (p, []))"
  by pat_completeness auto
termination
  by (relation "measure (\<lambda>(n, i, p). nat n - i)") auto

declare piperead_loop.simps [simp del]

definition piperead :: "bool \<Rightarrow> int \<Rightarrow> pipe \<Rightarrow> pipe \<times> u8 list \<times> stop \<times> pchan list" where
  "piperead killed n p =
     (if nread p = nwrite p \<and> writeopen p
      then if killed then (p, [], Ret (-1), []) else (p, [], Sleep, [])
      else let (p', out) = piperead_loop n 0 p
           in (p', out, Ret (int (length out)), [Chan_nwrite]))"

section \<open>The buffer as a queue\<close>

lemma PIPESIZE_pos: "0 < PIPESIZE"
  by (simp add: PIPESIZE_def)

interpretation pring: ring_size PIPESIZE
  by unfold_locales (simp_all add: PIPESIZE_def)

definition pipe_inv :: "pipe \<Rightarrow> bool" where
  "pipe_inv p \<longleftrightarrow> ring_ok PIPESIZE (data p) (nread p) (nwrite p)"

definition contents :: "pipe \<Rightarrow> u8 list" where
  "contents p = ring_contents PIPESIZE (data p) (nread p) (nwrite p)"

lemma pipe_new_inv: "length d = 512 \<Longrightarrow> pipe_inv (pipe_new d) \<and> contents (pipe_new d) = []"
  by (simp add: pipe_inv_def contents_def pipe_new_def ring_ok_def PIPESIZE_def)

lemma pipe_full_iff:
  "pipe_inv p \<Longrightarrow> nwrite p = nread p + of_nat PIPESIZE \<longleftrightarrow> length (contents p) = PIPESIZE"
proof -
  have "nwrite p = nread p + of_nat PIPESIZE \<longleftrightarrow> nwrite p - nread p = of_nat PIPESIZE"
    by (auto simp: diff_eq_eq add.commute)
  also have "\<dots> \<longleftrightarrow> unat (nwrite p - nread p) = PIPESIZE"
    by (simp add: word_unat_eq_iff PIPESIZE_def)
  finally show ?thesis by (simp add: contents_def)
qed

lemma pipe_empty_iff: "nread p = nwrite p \<longleftrightarrow> contents p = []"
proof -
  have "contents p = [] \<longleftrightarrow> length (contents p) = 0" by simp
  also have "\<dots> \<longleftrightarrow> nwrite p - nread p = 0" by (simp add: contents_def unat_eq_0)
  finally show ?thesis by auto
qed

lemma pipe_len: "pipe_inv p \<Longrightarrow> length (contents p) \<le> PIPESIZE"
  by (simp add: pipe_inv_def contents_def ring_ok_def)

lemma pipewrite_loop_spec:
  assumes "pipe_inv p" "pipewrite_loop killed addr n i p = (p', j, st, wk)"
  shows "pipe_inv p' \<and> i \<le> j \<and> contents p' = contents p @ map addr [i..<j] \<and>
    readopen p' = readopen p \<and> writeopen p' = writeopen p \<and> nread p' = nread p \<and>
    (case st of Ret r \<Rightarrow> (r = n \<and> n \<le> int j \<and> wk = [Chan_nread] \<or>
                          r = -1 \<and> length (contents p') = PIPESIZE \<and> (\<not> readopen p \<or> killed) \<and> wk = [])
     | Sleep \<Rightarrow> int j < n \<and> length (contents p') = PIPESIZE \<and> readopen p \<and> \<not> killed \<and> wk = [Chan_nread])"
  using assms
proof (induction killed addr n i p rule: pipewrite_loop.induct)
  case (1 killed addr n i p)
  note eq = pipewrite_loop.simps [of killed addr n i p]
  show ?case
  proof (cases "int i < n \<and> nwrite p \<noteq> nread p + of_nat PIPESIZE")
    case False
    with "1.prems" show ?thesis by (auto simp: eq pipe_full_iff split: if_splits)
  next
    case True
    let ?p = "p\<lparr>data := (data p)[unat (nwrite p) mod PIPESIZE := addr i], nwrite := nwrite p + 1\<rparr>"
    have "unat (nwrite p - nread p) < PIPESIZE"
      using True "1.prems"(1) pipe_full_iff [of p] pipe_len [of p] by (simp add: contents_def)
    with "1.prems"(1) have p: "pipe_inv ?p" "contents ?p = contents p @ [addr i]"
      by (simp_all add: pipe_inv_def contents_def pring.ring_put)
    have "pipewrite_loop killed addr n (Suc i) ?p = (p', j, st, wk)"
      using "1.prems"(2) True by (simp add: eq)
    from "1.IH" [OF _ _ p(1) this] True p(2) show ?thesis
      by (auto simp: upt_conv_Cons split: stop.splits)
  qed
qed

lemma piperead_loop_spec:
  assumes "pipe_inv p" "piperead_loop n i p = (p', out)"
  shows "pipe_inv p' \<and> contents p = out @ contents p' \<and>
    min (nat n - i) (length (contents p)) = length out \<and>
    readopen p' = readopen p \<and> writeopen p' = writeopen p \<and> nwrite p' = nwrite p"
  using assms
proof (induction n i p arbitrary: out rule: piperead_loop.induct)
  case (1 n i p)
  note eq = piperead_loop.simps [of n i p]
  show ?case
  proof (cases "int i < n \<and> nread p \<noteq> nwrite p")
    case False
    with "1.prems" show ?thesis by (auto simp: eq pipe_empty_iff)
  next
    case True
    let ?p = "p\<lparr>nread := nread p + 1\<rparr>"
    have p: "pipe_inv ?p" "contents p = data p ! (unat (nread p) mod PIPESIZE) # contents ?p"
      using True "1.prems"(1) by (simp_all add: pipe_inv_def contents_def pring.ring_get)
    obtain p1 o1 where l: "piperead_loop n (Suc i) ?p = (p1, o1)" by (cases "piperead_loop n (Suc i) ?p")
    have "piperead_loop n i p = (p1, data p ! (unat (nread p) mod PIPESIZE) # o1)"
      by (subst eq) (simp only: True l Let_def split if_True simp_thms)
    from this [unfolded "1.prems"(2)]
    have o': "p1 = p'" "out = data p ! (unat (nread p) mod PIPESIZE) # o1" by simp_all
    have "nat n - i = Suc (nat n - Suc i)" using True by linarith
    with "1.IH" [OF True refl p(1) l [unfolded o'(1)]] o'(2) p(2) show ?thesis by auto
  qed
qed

section \<open>Concurrent readers and writers\<close>

text \<open>
  A process using the pipe is outside it, ready to run its loop from an index, or asleep on
  one of the two channels.  written and readout record the bytes stored in and taken from
  the buffer.  A process inside pipewrite or piperead holds a reference to the file of its
  end (fileclose closes an end at its last reference), so an end is closed only when no
  process is using it, and calls find their own end open.  The flag of the step relation says whether processes may be killed: kill makes
  a sleeping process runnable, and its next pass sees the killed flag.
\<close>

datatype pact =
  Outside
  | WReady "u8 list" nat
  | WAsleep "u8 list" nat
  | RReady int
  | RAsleep int

record psys =
  pp :: pipe
  pact :: "nat \<Rightarrow> pact"
  freed :: bool
  written :: "u8 list"
  readout :: "u8 list"

fun wake1 :: "pchan list \<Rightarrow> pact \<Rightarrow> pact" where
  "wake1 ch (WAsleep buf i) = (if Chan_nwrite \<in> set ch then WReady buf i else WAsleep buf i)"
| "wake1 ch (RAsleep n) = (if Chan_nread \<in> set ch then RReady n else RAsleep n)"
| "wake1 ch a = a"

definition pwake :: "pchan list \<Rightarrow> (nat \<Rightarrow> pact) \<Rightarrow> nat \<Rightarrow> pact" where
  "pwake ch a = (\<lambda>t. wake1 ch (a t))"

fun using_end :: "bool \<Rightarrow> pact \<Rightarrow> bool" where
  "using_end wr Outside = False"
| "using_end wr (WReady _ _) = wr"
| "using_end wr (WAsleep _ _) = wr"
| "using_end wr (RReady _) = (\<not> wr)"
| "using_end wr (RAsleep _) = (\<not> wr)"

inductive pipe_step :: "bool \<Rightarrow> psys \<Rightarrow> psys \<Rightarrow> bool" for k :: bool where
  write_call: "\<lbrakk>\<not> freed s; writeopen (pp s); pact s t = Outside\<rbrakk> \<Longrightarrow> pipe_step k s (s\<lparr>pact := (pact s)(t := WReady buf 0)\<rparr>)"
| read_call: "\<lbrakk>\<not> freed s; readopen (pp s); pact s t = Outside\<rbrakk> \<Longrightarrow> pipe_step k s (s\<lparr>pact := (pact s)(t := RReady n)\<rparr>)"
| write_run: "\<lbrakk>\<not> freed s; pact s t = WReady buf i; killed \<longrightarrow> k;
     pipewrite_loop killed (\<lambda>j. buf ! j) (int (length buf)) i (pp s) = (p', j, st, wk)\<rbrakk> \<Longrightarrow>
   pipe_step k s (s\<lparr>pp := p', written := written s @ map (\<lambda>j. buf ! j) [i..<j],
     pact := (pwake wk (pact s))(t := (if st = Sleep then WAsleep buf j else Outside))\<rparr>)"
| read_run: "\<lbrakk>\<not> freed s; pact s t = RReady n; killed \<longrightarrow> k; piperead killed n (pp s) = (p', out, st, wk)\<rbrakk> \<Longrightarrow>
   pipe_step k s (s\<lparr>pp := p', readout := readout s @ out,
     pact := (pwake wk (pact s))(t := (if st = Sleep then RAsleep n else Outside))\<rparr>)"
| close_end: "\<lbrakk>\<not> freed s; \<forall>t. \<not> using_end wr (pact s t); pipeclose (pp s) wr = (p', ch, fr)\<rbrakk> \<Longrightarrow>
   pipe_step k s (s\<lparr>pp := p', freed := fr, pact := pwake [ch] (pact s)\<rparr>)"
| kill_wakes: "\<lbrakk>k; pact s t = WAsleep buf i\<rbrakk> \<Longrightarrow> pipe_step k s (s\<lparr>pact := (pact s)(t := WReady buf i)\<rparr>)"
| kill_wakes_reader: "\<lbrakk>k; pact s t = RAsleep n\<rbrakk> \<Longrightarrow> pipe_step k s (s\<lparr>pact := (pact s)(t := RReady n)\<rparr>)"

definition psys_init :: "u8 list \<Rightarrow> psys" where
  "psys_init d = \<lparr>pp = pipe_new d, pact = (\<lambda>_. Outside), freed = False, written = [], readout = []\<rparr>"

definition pipe_reach :: "bool \<Rightarrow> psys \<Rightarrow> bool" where
  "pipe_reach k s \<longleftrightarrow> (\<exists>d. length d = PIPESIZE \<and> (pipe_step k)\<^sup>*\<^sup>* (psys_init d) s)"

definition fifo_inv :: "psys \<Rightarrow> bool" where
  "fifo_inv s \<longleftrightarrow> pipe_inv (pp s) \<and> written s = readout s @ contents (pp s)"

definition wake_inv :: "psys \<Rightarrow> bool" where
  "wake_inv s \<longleftrightarrow>
     (\<forall>t. using_end False (pact s t) \<longrightarrow> readopen (pp s)) \<and>
     (\<forall>t n. pact s t = RAsleep n \<longrightarrow> contents (pp s) = [] \<and> writeopen (pp s)) \<and>
     (\<forall>t buf i. pact s t = WAsleep buf i \<longrightarrow> length (contents (pp s)) = PIPESIZE \<and> readopen (pp s))"

lemma piperead_spec:
  assumes "pipe_inv p" "piperead killed n p = (p', out, st, wk)"
  shows "pipe_inv p' \<and> contents p = out @ contents p' \<and>
    readopen p' = readopen p \<and> writeopen p' = writeopen p \<and>
    (wk = [Chan_nwrite] \<and> st \<noteq> Sleep \<or>
     wk = [] \<and> p' = p \<and> contents p = [] \<and> writeopen p \<and> (st = Sleep \<or> killed))"
  using assms piperead_loop_spec [of p n 0]
  by (auto simp: piperead_def pipe_empty_iff split: if_splits prod.splits)

lemma pipeclose_spec:
  assumes "pipeclose p wr = (p', ch, fr)"
  shows "contents p' = contents p \<and> pipe_inv p' = pipe_inv p \<and>
    (ch = Chan_nread \<and> readopen p' = readopen p \<or>
     \<not> wr \<and> ch = Chan_nwrite \<and> writeopen p' = writeopen p)"
  using assms by (auto simp: pipeclose_def contents_def pipe_inv_def split: if_splits)

lemma using_wake1 [simp]: "using_end wr (wake1 ch a) = using_end wr a"
  by (cases a) auto

lemma wake1_asleep [simp]:
  "wake1 ch a = RAsleep n \<longleftrightarrow> a = RAsleep n \<and> Chan_nread \<notin> set ch"
  "wake1 ch a = WAsleep buf i \<longleftrightarrow> a = WAsleep buf i \<and> Chan_nwrite \<notin> set ch"
  by (cases a; auto)+

lemma pwake_Nil [simp]: "pwake [] a = a"
proof
  show "pwake [] a t = a t" for t by (cases "a t") (simp_all add: pwake_def)
qed

lemma fifo_step: "pipe_step k s s' \<Longrightarrow> fifo_inv s \<Longrightarrow> fifo_inv s'"
proof (induction rule: pipe_step.induct)
  case (write_run s t buf i killed p' j st wk)
  then show ?case using pipewrite_loop_spec [of "pp s"] by (simp add: fifo_inv_def)
next
  case (read_run s t n killed p' out st wk)
  then show ?case using piperead_spec [of "pp s"] by (simp add: fifo_inv_def)
next
  case (close_end s wr p' ch fr)
  then show ?case using pipeclose_spec by (simp add: fifo_inv_def)
qed (simp_all add: fifo_inv_def)

lemma wake_step: "pipe_step False s s' \<Longrightarrow> fifo_inv s \<and> wake_inv s \<Longrightarrow> wake_inv s'"
proof (induction rule: pipe_step.induct)
  case (write_run s t buf i killed p' j st wk)
  then have inv: "pipe_inv (pp s)" "wake_inv s" by (auto simp: fifo_inv_def)
  note spec = pipewrite_loop_spec [OF inv(1) write_run(4)]
  have full: "length (contents p') = PIPESIZE" if "length (contents (pp s)) = PIPESIZE"
    using spec pipe_len [of p'] that by auto
  have rd: "contents p' = [] \<and> writeopen p'" if "Chan_nread \<notin> set wk" "pact s t' = RAsleep n" for t' n
  proof -
    have "using_end False (pact s t')" using that(2) by simp
    then have "readopen (pp s)" using inv(2) by (auto simp: wake_inv_def)
    with spec that(1) write_run(3) show ?thesis by (auto split: stop.splits)
  qed
  show ?case using inv(2) spec full rd
    by (auto simp: wake_inv_def pwake_def split: stop.splits)
next
  case (read_run s t n killed p' out st wk)
  then have "using_end False (pact s t)" by simp
  moreover have "wake_inv s" using read_run by simp
  ultimately have "readopen (pp s)" unfolding wake_inv_def by blast
  with read_run show ?case using piperead_spec [of "pp s", OF _ read_run(4)]
    by (auto simp: fifo_inv_def wake_inv_def pwake_def)
next
  case (close_end s wr p' ch fr)
  then show ?case using pipeclose_spec [OF close_end(3)]
    by (auto simp: wake_inv_def pwake_def)
qed (auto simp: wake_inv_def)

lemma fifo_reach: "pipe_reach k s \<Longrightarrow> fifo_inv s"
proof -
  assume "pipe_reach k s"
  then obtain d where d: "length d = PIPESIZE" and r: "(pipe_step k)\<^sup>*\<^sup>* (psys_init d) s"
    by (auto simp: pipe_reach_def)
  from r show "fifo_inv s"
  proof (induction rule: rtranclp_induct)
    case base
    show ?case using pipe_new_inv [of d] d by (simp add: fifo_inv_def psys_init_def PIPESIZE_def)
  qed (rule fifo_step)
qed

lemma pipe_reach_step: "pipe_reach k s \<Longrightarrow> pipe_step k s s' \<Longrightarrow> pipe_reach k s'"
  unfolding pipe_reach_def by (meson rtranclp.rtrancl_into_rtrancl)

lemma wake_reach: "pipe_reach False s \<Longrightarrow> wake_inv s"
proof -
  assume "pipe_reach False s"
  then obtain d where d: "length d = PIPESIZE" and r: "(pipe_step False)\<^sup>*\<^sup>* (psys_init d) s"
    by (auto simp: pipe_reach_def)
  from r show "wake_inv s"
  proof (induction rule: rtranclp_induct)
    case base
    show ?case by (simp add: wake_inv_def psys_init_def)
  next
    case (step y z)
    then have "fifo_inv y" using d by (intro fifo_reach [of False]) (auto simp: pipe_reach_def)
    with step show ?case by (blast intro: wake_step)
  qed
qed

text \<open>
  C4.  A pipe is a bounded first-in first-out channel: however writers, readers, closers and
  killed processes interleave, and however often the 32-bit counters wrap, the bytes stored so
  far are exactly the bytes read so far, in order, followed by the buffered ones, of which
  there are at most PIPESIZE.
\<close>

theorem pipe_fifo:
  assumes "pipe_reach k s"
  shows "written s = readout s @ contents (pp s) \<and> length (contents (pp s)) \<le> PIPESIZE"
  using fifo_reach [OF assms] pipe_len by (auto simp: fifo_inv_def)

text \<open>
  C20.  No wakeup is lost while no process is killed: a reader asleep in piperead faces an empty
  buffer with the write end open, and a writer asleep in pipewrite faces a full buffer with the
  read end open, so a process only ever sleeps when it has nothing to do.
\<close>

theorem pipe_no_lost_wakeup:
  assumes "pipe_reach False s"
  shows "(pact s t = RAsleep n \<longrightarrow> contents (pp s) = [] \<and> writeopen (pp s)) \<and>
         (pact s t = WAsleep buf i \<longrightarrow> length (contents (pp s)) = PIPESIZE \<and> readopen (pp s))"
  using wake_reach [OF assms] by (auto simp: wake_inv_def)

section \<open>Runs\<close>

lemma pipe_reach_init: "length d = PIPESIZE \<Longrightarrow> pipe_reach k (psys_init d)"
  by (auto simp: pipe_reach_def)

text \<open>A reader (process 0) that found the pipe empty and went to sleep.\<close>

definition psys_reader_asleep :: psys where
  "psys_reader_asleep = (psys_init (replicate PIPESIZE 0))\<lparr>pact := (\<lambda>_. Outside)(0 := RAsleep 1)\<rparr>"

lemma reader_asleep_reach: "pipe_reach k psys_reader_asleep"
proof -
  let ?i = "psys_init (replicate PIPESIZE 0)"
  let ?r = "?i\<lparr>pact := (\<lambda>_. Outside)(0 := RReady 1)\<rparr>"
  have "pact ?i = (\<lambda>_. Outside)" by (simp add: psys_init_def)
  then have "pipe_step k ?i ?r"
    using read_call [of ?i 0 k 1] by (simp add: psys_init_def pipe_new_def)
  with pipe_reach_init [of "replicate PIPESIZE 0"] have "pipe_reach k ?r"
    by (auto intro: pipe_reach_step)
  moreover have "pipe_step k ?r psys_reader_asleep"
    using read_run [of ?r 0 1 False k "pp ?r" "[]" Sleep "[]"]
    by (simp add: psys_init_def pipe_new_def piperead_def psys_reader_asleep_def)
  ultimately show ?thesis by (rule pipe_reach_step)
qed

theorem pipe_fifo_witness:
  "written psys_reader_asleep = readout psys_reader_asleep @ contents (pp psys_reader_asleep) \<and>
   pact psys_reader_asleep 0 = RAsleep 1"
  using pipe_fifo [OF reader_asleep_reach [of True]] by (simp add: psys_reader_asleep_def)

theorem pipe_no_lost_wakeup_witness:
  "pact psys_reader_asleep 0 = RAsleep 1 \<and> contents (pp psys_reader_asleep) = []"
  using pipe_no_lost_wakeup [OF reader_asleep_reach, of 0 1] by (simp add: psys_reader_asleep_def)

text \<open>
  A killed writer that fills the buffer returns -1 without passing through the wakeup of the
  readers (pipe.c, lines 81-84), so a reader that was asleep stays asleep on a full buffer.
\<close>

lemma killed_write_full:
  assumes "pipe_inv p" "contents p = []"
  obtains p' j where "pipewrite_loop True (\<lambda>j. replicate 600 0 ! j) (int (length (replicate 600 (0 :: u8)))) 0 p
      = (p', j, Ret (-1), [])" "length (contents p') = PIPESIZE"
proof -
  obtain p' j st wk where w: "pipewrite_loop True (\<lambda>j. replicate 600 0 ! j)
      (int (length (replicate 600 (0 :: u8)))) 0 p = (p', j, st, wk)"
    by (metis prod_cases4)
  note spec = pipewrite_loop_spec [OF assms(1) w]
  have "length (contents p') \<le> PIPESIZE" using spec pipe_len by blast
  then have "j \<le> 512" using spec assms(2) by (auto simp: PIPESIZE_def)
  then have "st = Ret (-1) \<and> wk = [] \<and> length (contents p') = PIPESIZE"
    using spec by (auto split: stop.splits)
  then show ?thesis using w that by blast
qed

text \<open>
  With killed processes a wakeup can be lost: there is a reachable state in which a reader
  is asleep on nread although the buffer is full of unread data and no process is inside
  pipewrite to wake it.
\<close>

theorem pipe_killed_writer_strands_reader:
  "\<exists>s n. pipe_reach True s \<and> pact s = (\<lambda>_. Outside)(0 := RAsleep n) \<and>
     length (contents (pp s)) = PIPESIZE"
proof -
  let ?s = psys_reader_asleep and ?b = "replicate 600 0 :: u8 list"
  let ?w = "?s\<lparr>pact := (pact ?s)(1 := WReady ?b 0)\<rparr>"
  have "pipe_inv (pp ?s)" "contents (pp ?s) = []"
    using pipe_new_inv [of "replicate PIPESIZE 0"]
    by (simp_all add: psys_reader_asleep_def psys_init_def PIPESIZE_def)
  then obtain p' j where
    w: "pipewrite_loop True (\<lambda>j. ?b ! j) (int (length ?b)) 0 (pp ?s) = (p', j, Ret (-1), [])"
      "length (contents p') = PIPESIZE"
    by (rule killed_write_full)
  have "pipe_step True ?s ?w"
    by (rule write_call) (simp_all add: psys_reader_asleep_def psys_init_def pipe_new_def)
  then have r: "pipe_reach True ?w" using reader_asleep_reach pipe_reach_step by blast
  let ?e = "?w\<lparr>pp := p', written := written ?w @ map (\<lambda>j. ?b ! j) [0..<j],
      pact := (pwake [] (pact ?w))(1 := (if Ret (-1) = Sleep then WAsleep ?b j else Outside))\<rparr>"
  have "pipe_step True ?w ?e"
    using w(1) by (intro write_run [where killed = True])
      (simp_all add: psys_reader_asleep_def psys_init_def)
  then have "pipe_reach True ?e" by (rule pipe_reach_step [OF r])
  moreover have "pact ?e = (\<lambda>_. Outside)(0 := RAsleep 1)"
    by (simp add: psys_reader_asleep_def fun_eq_iff)
  moreover have "length (contents (pp ?e)) = PIPESIZE" using w(2) by simp
  ultimately show ?thesis by blast
qed

end
