(* ===== verification/Bytes.thy ===== *)
theory Bytes
  imports Prelude
begin

text \<open>
  Structures laid out in byte arrays, as the kernel overlays them on disk blocks: 16- and
  32-bit little-endian fields read from and written to a list of bytes at an offset.
\<close>

definition get16 :: "u8 list \<Rightarrow> nat \<Rightarrow> u16" where
  "get16 d k = ucast (d ! k) OR push_bit 8 (ucast (d ! (k + 1)))"

definition put16 :: "u8 list \<Rightarrow> nat \<Rightarrow> u16 \<Rightarrow> u8 list" where
  "put16 d k v = d[k := ucast v, k + 1 := ucast (drop_bit 8 v)]"

definition get32 :: "u8 list \<Rightarrow> nat \<Rightarrow> u32" where
  "get32 d k = ucast (d ! k) OR push_bit 8 (ucast (d ! (k + 1)))
     OR push_bit 16 (ucast (d ! (k + 2))) OR push_bit 24 (ucast (d ! (k + 3)))"

definition put32 :: "u8 list \<Rightarrow> nat \<Rightarrow> u32 \<Rightarrow> u8 list" where
  "put32 d k v = d[k := ucast v, k + 1 := ucast (drop_bit 8 v),
     k + 2 := ucast (drop_bit 16 v), k + 3 := ucast (drop_bit 24 v)]"

text \<open>The bytes of the region [k, k + length xs) replaced by xs (memmove into a block).\<close>

definition splice :: "'a list \<Rightarrow> nat \<Rightarrow> 'a list \<Rightarrow> 'a list" where
  "splice d k xs = take k d @ xs @ drop (k + length xs) d"

lemma length_put16 [simp]: "length (put16 d k v) = length d"
  by (simp add: put16_def)

lemma length_put32 [simp]: "length (put32 d k v) = length d"
  by (simp add: put32_def)

lemma length_splice [simp]: "k + length xs \<le> length d \<Longrightarrow> length (splice d k xs) = length d"
  by (simp add: splice_def)

lemma get16_put16_same [simp]: "k + 2 \<le> length d \<Longrightarrow> get16 (put16 d k v) k = v"
  by (simp add: get16_def put16_def join16)

lemma get32_put32_same [simp]: "k + 4 \<le> length d \<Longrightarrow> get32 (put32 d k v) k = v"
  by (simp add: get32_def put32_def join32)

lemma get32_put32_other [simp]: "j + 4 \<le> k \<or> k + 4 \<le> j \<Longrightarrow> get32 (put32 d k v) j = get32 d j"
  by (auto simp: get32_def put32_def)

lemma get32_put16_other [simp]: "j + 4 \<le> k \<or> k + 2 \<le> j \<Longrightarrow> get32 (put16 d k v) j = get32 d j"
  by (auto simp: get32_def put16_def)

lemma get16_put32_other [simp]: "j + 2 \<le> k \<or> k + 4 \<le> j \<Longrightarrow> get16 (put32 d k v) j = get16 d j"
  by (auto simp: get16_def put32_def)

lemma get16_put16_other [simp]: "j + 2 \<le> k \<or> k + 2 \<le> j \<Longrightarrow> get16 (put16 d k v) j = get16 d j"
  by (auto simp: get16_def put16_def)

lemma nth_put32: "i < k \<or> k + 4 \<le> i \<Longrightarrow> put32 d k v ! i = d ! i"
  by (auto simp: put32_def)

lemma nth_put16: "i < k \<or> k + 2 \<le> i \<Longrightarrow> put16 d k v ! i = d ! i"
  by (auto simp: put16_def)

lemma nth_splice:
  "k + length xs \<le> length d \<Longrightarrow> i < length d \<Longrightarrow>
    splice d k xs ! i = (if k \<le> i \<and> i < k + length xs then xs ! (i - k) else d ! i)"
  by (auto simp: splice_def nth_append min_def)

lemma get16_cong: "(\<And>i. k \<le> i \<Longrightarrow> i < k + 2 \<Longrightarrow> d ! i = d' ! i) \<Longrightarrow> get16 d k = get16 d' k"
  by (simp add: get16_def)

lemma get32_cong: "(\<And>i. k \<le> i \<Longrightarrow> i < k + 4 \<Longrightarrow> d ! i = d' ! i) \<Longrightarrow> get32 d k = get32 d' k"
  by (simp add: get32_def)

text \<open>An array of 32-bit fields.\<close>

definition get32s :: "u8 list \<Rightarrow> nat \<Rightarrow> nat \<Rightarrow> u32 list" where
  "get32s d k n = map (\<lambda>i. get32 d (k + 4 * i)) [0..<n]"

fun put32s :: "u8 list \<Rightarrow> nat \<Rightarrow> u32 list \<Rightarrow> u8 list" where
  "put32s d k [] = d"
| "put32s d k (v # vs) = put32s (put32 d k v) (k + 4) vs"

lemma length_put32s [simp]: "length (put32s d k vs) = length d"
  by (induction vs arbitrary: d k) auto

lemma get32_put32s_before: "j + 4 \<le> k \<Longrightarrow> get32 (put32s d k vs) j = get32 d j"
  by (induction vs arbitrary: d k) auto

lemma get32s_put32s [simp]:
  "k + 4 * length vs \<le> length d \<Longrightarrow> get32s (put32s d k vs) k (length vs) = vs"
proof (induction vs arbitrary: d k)
  case Nil
  then show ?case by (simp add: get32s_def)
next
  case (Cons v vs)
  have "get32s (put32s d k (v # vs)) k (length (v # vs)) =
      get32 (put32s (put32 d k v) (k + 4) vs) k # get32s (put32s (put32 d k v) (k + 4) vs) (k + 4) (length vs)"
    by (simp add: get32s_def upt_conv_Cons map_Suc_upt [symmetric] add.assoc del: upt_Suc map_Suc_upt)
  also have "\<dots> = v # vs" using Cons by (simp add: get32_put32s_before)
  finally show ?case .
qed

end
