(* ===== verification/Sleeplock.thy ===== *)
theory Sleeplock
  imports Prelude
begin

text \<open>
  Sleep locks (sleeplock.c).  The body between acquire and release of the inner spin lock is
  one function; acquiresleep either takes the lock or, finding it held, goes to sleep on the
  lock's address.
\<close>

record sleeplock =
  sl_locked :: bool
  sl_pid :: int

definition initsleeplock :: sleeplock where
  "initsleeplock = \<lparr>sl_locked = False, sl_pid = 0\<rparr>"

definition acquiresleep :: "int \<Rightarrow> sleeplock \<Rightarrow> sleeplock res" where
  "acquiresleep pid lk = (if sl_locked lk then Inl Blocked else Inr (lk\<lparr>sl_locked := True, sl_pid := pid\<rparr>))"

text \<open>releasesleep also wakes every process asleep on the lock.\<close>

definition releasesleep :: "sleeplock \<Rightarrow> sleeplock" where
  "releasesleep lk = lk\<lparr>sl_locked := False, sl_pid := 0\<rparr>"

definition holdingsleep :: "sleeplock \<Rightarrow> bool" where
  "holdingsleep lk = sl_locked lk"

lemma acquiresleep_free [simp]: "\<not> sl_locked lk \<Longrightarrow> acquiresleep pid lk = Inr \<lparr>sl_locked = True, sl_pid = pid\<rparr>"
  by (cases lk) (simp add: acquiresleep_def)

section \<open>Processes contending for one sleep lock\<close>

datatype sl_act = SOut | SReady | SAsleep | SHold

record sl_sys =
  slk :: sleeplock
  sact :: "int \<Rightarrow> sl_act"

definition sl_wake :: "(int \<Rightarrow> sl_act) \<Rightarrow> int \<Rightarrow> sl_act" where
  "sl_wake a = (\<lambda>t. if a t = SAsleep then SReady else a t)"

inductive sl_step :: "sl_sys \<Rightarrow> sl_sys \<Rightarrow> bool" where
  sl_call: "sact s t = SOut \<Longrightarrow> sl_step s (s\<lparr>sact := (sact s)(t := SReady)\<rparr>)"
| sl_take: "sact s t = SReady \<Longrightarrow> acquiresleep t (slk s) = Inr lk' \<Longrightarrow>
    sl_step s (s\<lparr>slk := lk', sact := (sact s)(t := SHold)\<rparr>)"
| sl_wait: "sact s t = SReady \<Longrightarrow> acquiresleep t (slk s) = Inl Blocked \<Longrightarrow>
    sl_step s (s\<lparr>sact := (sact s)(t := SAsleep)\<rparr>)"
| sl_spurious: "sact s t = SAsleep \<Longrightarrow> sl_step s (s\<lparr>sact := (sact s)(t := SReady)\<rparr>)"
| sl_drop: "sact s t = SHold \<Longrightarrow>
    sl_step s (s\<lparr>slk := releasesleep (slk s), sact := sl_wake ((sact s)(t := SOut))\<rparr>)"

definition sl_init :: sl_sys where
  "sl_init = \<lparr>slk = initsleeplock, sact = (\<lambda>_. SOut)\<rparr>"

definition sl_inv :: "sl_sys \<Rightarrow> bool" where
  "sl_inv s \<longleftrightarrow>
     (\<forall>t. sact s t = SHold \<longleftrightarrow> sl_locked (slk s) \<and> sl_pid (slk s) = t) \<and>
     (\<forall>t. sact s t = SAsleep \<longrightarrow> sl_locked (slk s))"

lemma sl_inv_step: "sl_step s s' \<Longrightarrow> sl_inv s \<Longrightarrow> sl_inv s'"
  by (induction rule: sl_step.induct)
    (auto simp: sl_inv_def acquiresleep_def releasesleep_def sl_wake_def split: if_splits;
     metis sl_act.distinct)+

lemma sl_inv_reach: "sl_step\<^sup>*\<^sup>* sl_init s \<Longrightarrow> sl_inv s"
proof (induction rule: rtranclp_induct)
  case base
  show ?case by (simp add: sl_inv_def sl_init_def initsleeplock_def)
qed (rule sl_inv_step)

text \<open>
  C29.  A sleep lock excludes and never strands a waiter: in every reachable state two
  processes do not hold it together, the recorded pid is the holder's, and a process is asleep
  on it only while some process holds it (whose releasesleep will wake it).
\<close>

theorem sleeplock_mutex:
  assumes "sl_step\<^sup>*\<^sup>* sl_init s"
  shows "(sact s t = SHold \<and> sact s t' = SHold \<longrightarrow> t = t' \<and> sl_pid (slk s) = t) \<and>
         (sact s t = SAsleep \<longrightarrow> sact s (sl_pid (slk s)) = SHold)"
  using sl_inv_reach [OF assms] by (auto simp: sl_inv_def)

text \<open>Process 7 holds the lock while process 9 sleeps on it.\<close>

definition sl_example :: sl_sys where
  "sl_example = \<lparr>slk = \<lparr>sl_locked = True, sl_pid = 7\<rparr>, sact = (\<lambda>_. SOut)(7 := SHold, 9 := SAsleep)\<rparr>"

lemma sl_example_reach: "sl_step\<^sup>*\<^sup>* sl_init sl_example"
proof -
  let ?s = "\<lambda>lk p a b. \<lparr>slk = \<lparr>sl_locked = lk, sl_pid = p\<rparr>, sact = (\<lambda>_. SOut)(7 := a, 9 := b)\<rparr>"
  have tw: "((\<lambda>_. SOut)(7 := a, 9 := b))(7 := c) = (\<lambda>_ :: int. SOut)(7 := c, 9 := b)" for a b c by auto
  have "sl_step sl_init (?s False 0 SReady SOut)"
    using sl_call [of sl_init 7] by (simp add: sl_init_def initsleeplock_def fun_upd_idem)
  moreover have "sl_step (?s False 0 SReady SOut) (?s True 7 SHold SOut)"
    using sl_take [of "?s False 0 SReady SOut" 7] by (simp add: acquiresleep_def tw)
  moreover have "sl_step (?s True 7 SHold SOut) (?s True 7 SHold SReady)"
    using sl_call [of "?s True 7 SHold SOut" 9] by simp
  moreover have "sl_step (?s True 7 SHold SReady) (?s True 7 SHold SAsleep)"
    using sl_wait [of "?s True 7 SHold SReady" 9] by (simp add: acquiresleep_def)
  ultimately show ?thesis
    unfolding sl_example_def by (meson converse_rtranclp_into_rtranclp rtranclp.rtrancl_refl)
qed

theorem sleeplock_mutex_witness:
  "sact sl_example 9 = SAsleep \<and> sact sl_example (sl_pid (slk sl_example)) = SHold"
  using sleeplock_mutex [OF sl_example_reach, of 9 9] by (simp add: sl_example_def)

end
