(* ===== verification/Bio.thy ===== *)
theory Bio
  imports Bytes Sleeplock
begin

text \<open>
  The buffer cache (bio.c) over the disk driver (iderw of memide.c).  The buffers lie in one
  array whose last element is bcache.head, and the LRU list runs through their prev and next
  fields as indices into it.  The disk keeps the history of the block writes it received, so
  that a crash can be taken after any of them.
\<close>

definition NBUF :: nat where "NBUF = 30"
definition BSIZE :: nat where "BSIZE = 1024"
definition ROOTDEV :: u32 where "ROOTDEV = 1"

type_synonym block = "u8 list"

text \<open>The flags word of struct buf holds the two bits B_VALID and B_DIRTY.\<close>

record buf =
  b_valid :: bool
  b_dirty :: bool
  b_dev :: u32
  blockno :: u32
  b_lock :: sleeplock
  refcnt :: u32
  b_prev :: nat
  b_next :: nat
  b_data :: block

record bio =
  bufs :: "buf list"
  disk :: "u32 \<Rightarrow> block"
  disksize :: u32
  hist :: "(u32 \<times> block) list"

abbreviation head :: nat where "head \<equiv> NBUF"

definition set_next :: "nat \<Rightarrow> nat \<Rightarrow> buf list \<Rightarrow> buf list" where
  "set_next i v bs = bs[i := (bs ! i)\<lparr>b_next := v\<rparr>]"

definition set_prev :: "nat \<Rightarrow> nat \<Rightarrow> buf list \<Rightarrow> buf list" where
  "set_prev i v bs = bs[i := (bs ! i)\<lparr>b_prev := v\<rparr>]"

definition nxt :: "buf list \<Rightarrow> nat \<Rightarrow> nat" where "nxt bs i = b_next (bs ! i)"
definition prv :: "buf list \<Rightarrow> nat \<Rightarrow> nat" where "prv bs i = b_prev (bs ! i)"

definition binit_step :: "nat \<Rightarrow> buf list \<Rightarrow> buf list" where
  "binit_step b bs =
     (let bs = set_next b (nxt bs head) bs;
          bs = set_prev b head bs;
          bs = bs[b := (bs ! b)\<lparr>b_lock := initsleeplock\<rparr>];
          bs = set_prev (nxt bs head) b bs
      in set_next head b bs)"

definition binit :: "bio \<Rightarrow> bio" where
  "binit s = s\<lparr>bufs := fold binit_step [0..<NBUF] (set_next head head (set_prev head head (bufs s)))\<rparr>"

text \<open>
  The two loops of bget, following next from the front and prev from the back.  A loop over a
  corrupted list need not end, which is the value None.
\<close>

partial_function (option) scan_links :: "(nat \<Rightarrow> nat) \<Rightarrow> (nat \<Rightarrow> bool) \<Rightarrow> nat \<Rightarrow> nat option option" where
  "scan_links step P b =
     (if b = head then Some None else if P b then Some (Some b) else scan_links step P (step b))"

declare scan_links.simps [code]

definition is_block :: "u32 \<Rightarrow> u32 \<Rightarrow> buf list \<Rightarrow> nat \<Rightarrow> bool" where
  "is_block dev bn bs i \<longleftrightarrow> b_dev (bs ! i) = dev \<and> blockno (bs ! i) = bn"

definition is_free :: "buf list \<Rightarrow> nat \<Rightarrow> bool" where
  "is_free bs i \<longleftrightarrow> refcnt (bs ! i) = 0 \<and> \<not> b_dirty (bs ! i)"

definition lock_buf :: "int \<Rightarrow> nat \<Rightarrow> bio \<Rightarrow> (nat \<times> bio) res" where
  "lock_buf pid i s =
     bindr (acquiresleep pid (b_lock (bufs s ! i)))
       (\<lambda>lk. Inr (i, s\<lparr>bufs := (bufs s)[i := (bufs s ! i)\<lparr>b_lock := lk\<rparr>]\<rparr>))"

definition bget :: "int \<Rightarrow> u32 \<Rightarrow> u32 \<Rightarrow> bio \<Rightarrow> (nat \<times> bio) res" where
  "bget pid dev bn s =
     (let bs = bufs s in
      case scan_links (nxt bs) (is_block dev bn bs) (nxt bs head) of
        None \<Rightarrow> Inl (Undefined ''bget: list does not end'')
      | Some (Some i) \<Rightarrow>
          lock_buf pid i (s\<lparr>bufs := bs[i := (bs ! i)\<lparr>refcnt := refcnt (bs ! i) + 1\<rparr>]\<rparr>)
      | Some None \<Rightarrow>
          (case scan_links (prv bs) (is_free bs) (prv bs head) of
             None \<Rightarrow> Inl (Undefined ''bget: list does not end'')
           | Some (Some i) \<Rightarrow>
               lock_buf pid i (s\<lparr>bufs := bs[i := (bs ! i)\<lparr>b_dev := dev, blockno := bn,
                 b_valid := False, b_dirty := False, refcnt := 1\<rparr>]\<rparr>)
           | Some None \<Rightarrow> Inl (Panic ''bget: no buffers'')))"

definition iderw :: "nat \<Rightarrow> bio \<Rightarrow> bio res" where
  "iderw i s =
     (let b = bufs s ! i in
      if \<not> holdingsleep (b_lock b) then Inl (Panic ''iderw: buf not locked'')
      else if b_valid b \<and> \<not> b_dirty b then Inl (Panic ''iderw: nothing to do'')
      else if b_dev b \<noteq> 1 then Inl (Panic ''iderw: request not for disk 1'')
      else if blockno b \<ge> disksize s then Inl (Panic ''iderw: block out of range'')
      else if b_dirty b
      then Inr (s\<lparr>disk := (disk s)(blockno b := b_data b), hist := hist s @ [(blockno b, b_data b)],
                  bufs := (bufs s)[i := b\<lparr>b_dirty := False, b_valid := True\<rparr>]\<rparr>)
      else Inr (s\<lparr>bufs := (bufs s)[i := b\<lparr>b_data := disk s (blockno b), b_valid := True\<rparr>]\<rparr>))"

definition bread :: "int \<Rightarrow> u32 \<Rightarrow> u32 \<Rightarrow> bio \<Rightarrow> (nat \<times> bio) res" where
  "bread pid dev bn s =
     bindr (bget pid dev bn s) (\<lambda>(i, s).
       if \<not> b_valid (bufs s ! i) then bindr (iderw i s) (\<lambda>s. Inr (i, s)) else Inr (i, s))"

definition bwrite :: "nat \<Rightarrow> bio \<Rightarrow> bio res" where
  "bwrite i s =
     (if \<not> holdingsleep (b_lock (bufs s ! i)) then Inl (Panic ''bwrite'')
      else iderw i (s\<lparr>bufs := (bufs s)[i := (bufs s ! i)\<lparr>b_dirty := True\<rparr>]\<rparr>))"

definition mru_front :: "nat \<Rightarrow> buf list \<Rightarrow> buf list" where
  "mru_front b bs =
     (let bs = set_prev (nxt bs b) (prv bs b) bs;
          bs = set_next (prv bs b) (nxt bs b) bs;
          bs = set_next b (nxt bs head) bs;
          bs = set_prev b head bs;
          bs = set_prev (nxt bs head) b bs
      in set_next head b bs)"

definition brelse :: "nat \<Rightarrow> bio \<Rightarrow> bio res" where
  "brelse i s =
     (let b = bufs s ! i in
      if \<not> holdingsleep (b_lock b) then Inl (Panic ''brelse'')
      else let b1 = b\<lparr>b_lock := releasesleep (b_lock b), refcnt := refcnt b - 1\<rparr>;
               bs = (bufs s)[i := b1]
           in Inr (s\<lparr>bufs := (if refcnt b1 = 0 then mru_front i bs else bs)\<rparr>))"

text \<open>A user of a locked buffer writes into its data.\<close>

definition set_data :: "nat \<Rightarrow> block \<Rightarrow> bio \<Rightarrow> bio" where
  "set_data i d s = s\<lparr>bufs := (bufs s)[i := (bufs s ! i)\<lparr>b_data := d\<rparr>]\<rparr>"

section \<open>The LRU list\<close>

text \<open>The links of the array run through the buffers xs, most recently used first.\<close>

definition lru_list :: "buf list \<Rightarrow> nat list \<Rightarrow> bool" where
  "lru_list bs xs \<longleftrightarrow> distinct (head # xs) \<and> map (nxt bs) (head # xs) = xs @ [head] \<and>
     map (prv bs) (xs @ [head]) = head # xs"

lemma nxt_set_next: "i < length bs \<Longrightarrow> nxt (set_next i v bs) = (nxt bs)(i := v)"
  by (auto simp: nxt_def set_next_def nth_list_update)

lemma prv_set_prev: "i < length bs \<Longrightarrow> prv (set_prev i v bs) = (prv bs)(i := v)"
  by (auto simp: prv_def set_prev_def nth_list_update)

lemma nxt_set_prev [simp]: "nxt (set_prev i v bs) = nxt bs"
  by (auto simp: nxt_def set_prev_def nth_upd)

lemma prv_set_next [simp]: "prv (set_next i v bs) = prv bs"
  by (auto simp: prv_def set_next_def nth_upd)

lemma length_set_links [simp]: "length (set_next i v bs) = length bs" "length (set_prev i v bs) = length bs"
  by (simp_all add: set_next_def set_prev_def)

lemma links_upd [simp]:
  assumes "b_next b = nxt bs i" "b_prev b = prv bs i"
  shows "nxt (bs[i := b]) = nxt bs" "prv (bs[i := b]) = prv bs"
  using assms by (auto simp: nxt_def prv_def nth_upd)

lemma scan_links_find:
  assumes "head \<notin> set ys" "map step ys = tl (ys @ [head])"
  shows "scan_links step P (hd (ys @ [head])) = Some (find P ys)"
  using assms
proof (induction ys)
  case Nil
  show ?case by (subst scan_links.simps) simp
next
  case (Cons y ys)
  then have y: "step y = hd (ys @ [head])" "map step ys = tl (ys @ [head])"
    by (cases ys; simp)+
  show ?case
    by (subst scan_links.simps) (use Cons y in auto)
qed

lemma scan_next_find: "lru_list bs xs \<Longrightarrow> scan_links (nxt bs) P (nxt bs head) = Some (find P xs)"
  using scan_links_find [of xs "nxt bs" P] by (cases xs) (auto simp: lru_list_def)

lemma scan_prev_find: "lru_list bs xs \<Longrightarrow> scan_links (prv bs) P (prv bs head) = Some (find P (rev xs))"
proof -
  assume l: "lru_list bs xs"
  then have m: "map (prv bs) (head # rev xs) = rev xs @ [head]"
    by (simp add: lru_list_def) (metis append_Cons rev.simps(2) rev_append rev_map rev_rev_ident rev_singleton_conv append_Nil)
  then have "map (prv bs) (rev xs) = tl (rev xs @ [head])" "prv bs head = hd (rev xs @ [head])"
    by (cases "rev xs"; simp)+
  with l scan_links_find [of "rev xs" "prv bs" P] show ?thesis by (simp add: lru_list_def)
qed

text \<open>Inserting a buffer behind the head, and taking one out of the middle.\<close>

lemma lru_listD:
  assumes "lru_list bs xs"
  shows "distinct xs" "head \<notin> set xs" "nxt bs head # map (nxt bs) xs = xs @ [head]"
    "map (prv bs) xs @ [prv bs head] = head # xs"
  using assms by (simp_all add: lru_list_def)

lemma lru_insert:
  assumes l: "lru_list bs xs" and b: "b \<notin> set xs" "b \<noteq> head"
    and n: "nxt bs' = (nxt bs)(b := nxt bs head, head := b)"
    and p: "prv bs' = (prv bs)(b := head, nxt bs head := b)"
  shows "lru_list bs' (b # xs)"
proof -
  note d = lru_listD [OF l]
  have "map (nxt bs') (head # b # xs) = b # nxt bs head # map (nxt bs) xs"
    using b d(2) by (simp add: n)
  also have "\<dots> = (b # xs) @ [head]" using d(3) by simp
  finally have 1: "map (nxt bs') (head # b # xs) = (b # xs) @ [head]" .
  have 2: "map (prv bs') ((b # xs) @ [head]) = head # b # xs"
  proof (cases xs)
    case Nil
    then have "nxt bs head = head" using d(3) by simp
    with Nil b show ?thesis by (simp add: p)
  next
    case (Cons x zs)
    then have x: "nxt bs head = x" using d(3) by simp
    have "map (prv bs') ((b # xs) @ [head]) = head # b # map (prv bs) (zs @ [head])"
      using Cons b d(1,2) by (simp add: p x)
    also have "map (prv bs) (zs @ [head]) = xs" using d(4) Cons by simp
    finally show ?thesis .
  qed
  from 1 2 b d(1,2) show ?thesis by (simp add: lru_list_def)
qed

lemma lru_remove:
  assumes l: "lru_list bs (ys @ b # zs)"
    and n: "nxt bs' = (nxt bs)(prv bs b := nxt bs b)"
    and p: "prv bs' = (prv bs)(nxt bs b := prv bs b)"
  shows "lru_list bs' (ys @ zs)"
proof -
  note d = lru_listD [OF l]
  have nb: "nxt bs head # map (nxt bs) ys = ys @ [b]" "nxt bs b # map (nxt bs) zs = zs @ [head]"
    using d(3) append_eq_append_conv [of "nxt bs head # map (nxt bs) ys" "ys @ [b]"
        "nxt bs b # map (nxt bs) zs" "zs @ [head]"] by simp_all
  have pb: "map (prv bs) ys @ [prv bs b] = head # ys" "map (prv bs) zs @ [prv bs head] = b # zs"
    using d(4) append_eq_append_conv [of "map (prv bs) ys @ [prv bs b]" "head # ys"
        "map (prv bs) zs @ [prv bs head]" "b # zs"] by simp_all
  have 1: "map (nxt bs') (head # ys @ zs) = (ys @ zs) @ [head]"
  proof (cases ys rule: rev_cases)
    case Nil
    then have "prv bs b = head" using pb by simp
    with Nil nb d(2) show ?thesis by (simp add: n)
  next
    case (snoc ys' y)
    then have y: "prv bs b = y" using pb(1) by (metis last.simps last_snoc snoc_eq_iff_butlast)
    have "map (nxt bs') (head # ys @ zs) = butlast (nxt bs head # map (nxt bs) ys) @ nxt bs b # map (nxt bs) zs"
      using snoc d(1,2) by (auto simp: n y butlast_append)
    then show ?thesis unfolding nb by simp
  qed
  have 2: "map (prv bs') ((ys @ zs) @ [head]) = head # ys @ zs"
  proof (cases zs)
    case Nil
    then have "nxt bs b = head" using nb by simp
    with Nil pb d(2) show ?thesis by (simp add: p)
  next
    case (Cons z zs')
    then have z: "nxt bs b = z" using nb by simp
    have "map (prv bs') ((ys @ zs) @ [head]) = map (prv bs) ys @ prv bs b # map (prv bs) (zs' @ [head])"
      using Cons d(1,2) by (auto simp: p z)
    also have "map (prv bs) (zs' @ [head]) = zs" using pb(2) Cons by simp
    finally show ?thesis using pb(1) by (metis append.assoc append_Cons append_Nil)
  qed
  from 1 2 d(1,2) show ?thesis by (simp add: lru_list_def)
qed

lemma lru_neighbours:
  assumes "lru_list bs (ys @ b # zs)"
  shows "nxt bs b = hd (zs @ [head])" "prv bs b = last (head # ys)"
proof -
  note d = lru_listD [OF assms]
  show "nxt bs b = hd (zs @ [head])"
    using d(3) append_eq_append_conv [of "nxt bs head # map (nxt bs) ys" "ys @ [b]"
        "nxt bs b # map (nxt bs) zs" "zs @ [head]"] by (metis Cons_eq_appendI append_Cons append_assoc hd_append length_Cons
        length_append_singleton length_map list.sel(1) list.simps(9) map_append self_append_conv2 append_Nil)
  show "prv bs b = last (head # ys)"
    using d(4) append_eq_append_conv [of "map (prv bs) ys @ [prv bs b]" "head # ys"
        "map (prv bs) zs @ [prv bs head]" "b # zs"] by (simp, metis last_snoc last.simps)
qed

text \<open>A buffer without its links.\<close>

definition core :: "buf \<Rightarrow> buf" where
  "core b = b\<lparr>b_prev := 0, b_next := 0\<rparr>"

lemma core_eq_iff: "core b = core b' \<longleftrightarrow> b_valid b = b_valid b' \<and> b_dirty b = b_dirty b' \<and> b_dev b = b_dev b' \<and>
   blockno b = blockno b' \<and> b_lock b = b_lock b' \<and> refcnt b = refcnt b' \<and> b_data b = b_data b'"
  by (cases b; cases b') (auto simp: core_def)

lemma core_set_links [simp]:
  "core (set_next i v bs ! j) = core (bs ! j)" "core (set_prev i v bs ! j) = core (bs ! j)"
  by (auto simp: set_next_def set_prev_def nth_upd core_def)

lemma core_mru_front [simp]: "core (mru_front i bs ! j) = core (bs ! j)"
  by (simp add: mru_front_def Let_def)

lemma length_mru_front [simp]: "length (mru_front i bs) = length bs"
  by (simp add: mru_front_def Let_def)

lemma mru_front_lru:
  assumes l: "lru_list bs (ys @ i # zs)" and sub: "set (ys @ i # zs) \<subseteq> {..<NBUF}" and len: "length bs = Suc NBUF"
  shows "lru_list (mru_front i bs) (i # ys @ zs)"
proof -
  note d = lru_listD [OF l] and nb = lru_neighbours [OF l]
  have n: "nxt bs i < Suc NBUF" "nxt bs i \<noteq> i"
    using sub d(1,2) unfolding nb by (cases zs; auto)+
  have p: "prv bs i < Suc NBUF" using sub unfolding nb by (cases ys rule: rev_cases) auto
  have i: "i < Suc NBUF" "i \<noteq> head" using sub by auto
  define bs2 where "bs2 = set_next (prv (set_prev (nxt bs i) (prv bs i) bs) i) (nxt bs i) (set_prev (nxt bs i) (prv bs i) bs)"
  have pi: "prv (set_prev (nxt bs i) (prv bs i) bs) i = prv bs i"
    using n len by (simp add: prv_set_prev)
  have l2: "lru_list bs2 (ys @ zs)"
    by (rule lru_remove [OF l]) (use n p len in \<open>simp_all add: bs2_def pi nxt_set_next prv_set_prev\<close>)
  have len2: "length bs2 = Suc NBUF" by (simp add: bs2_def len)
  have "nxt bs2 head \<in> set ((ys @ zs) @ [head])"
    using lru_listD(3) [OF l2] by (metis list.set_intros(1))
  then have h: "nxt bs2 head < Suc NBUF" using sub by auto
  have eq: "mru_front i bs = set_next head i (set_prev (nxt bs2 head) i (set_prev i head (set_next i (nxt bs2 head) bs2)))"
    using i len2 by (simp add: mru_front_def Let_def bs2_def nxt_set_next)
  show ?thesis
    by (rule lru_insert [OF l2])
      (use d i h len2 in \<open>auto simp: eq nxt_set_next prv_set_prev\<close>)
qed

lemma binit_step_lru:
  assumes l: "lru_list bs xs" and b: "b \<notin> set xs" "b < NBUF" and sub: "set xs \<subseteq> {..<NBUF}"
    and len: "length bs = Suc NBUF"
  shows "lru_list (binit_step b bs) (b # xs)"
proof -
  have h: "nxt bs head < Suc NBUF" using lru_listD(3) [OF l] sub by (cases xs) auto
  have u: "nxt (bs[b := (bs ! b)\<lparr>b_lock := initsleeplock\<rparr>]) = nxt bs" "prv (bs[b := (bs ! b)\<lparr>b_lock := initsleeplock\<rparr>]) = prv bs"
    for bs by (simp_all add: nxt_def prv_def)
  show ?thesis
    by (rule lru_insert [OF l])
      (use b h len in \<open>auto simp: binit_step_def Let_def u nxt_set_next prv_set_prev\<close>)
qed

lemma length_binit_step [simp]: "length (binit_step b bs) = length bs"
  by (simp add: binit_step_def Let_def)

lemma binit_lru:
  assumes "length (bufs s) = Suc NBUF"
  shows "lru_list (bufs (binit s)) (rev [0..<NBUF]) \<and> length (bufs (binit s)) = Suc NBUF"
proof -
  let ?b = "set_next head head (set_prev head head (bufs s))"
  have "lru_list ?b []" using assms by (simp add: lru_list_def nxt_set_next prv_set_prev)
  moreover have "k \<le> NBUF \<Longrightarrow> lru_list ?b [] \<Longrightarrow>
      lru_list (fold binit_step [0..<k] ?b) (rev [0..<k]) \<and> length (fold binit_step [0..<k] ?b) = Suc NBUF" for k
  proof (induction k)
    case 0
    then show ?case using assms by simp
  next
    case (Suc k)
    then show ?case by (auto intro!: binit_step_lru)
  qed
  ultimately show ?thesis by (simp add: binit_def)
qed

section \<open>Cache coherence\<close>

text \<open>
  What a buffer must satisfy: whole blocks, dirty only when it caches a block of the disk,
  unlocked when unreferenced, and equal to the disk when clean and not in somebody's hands.
\<close>

definition buf_ok :: "bio \<Rightarrow> buf \<Rightarrow> bool" where
  "buf_ok s b \<longleftrightarrow> length (b_data b) = BSIZE \<and>
     (b_dirty b \<longrightarrow> b_valid b \<and> b_dev b = ROOTDEV \<and> blockno b < disksize s) \<and>
     (refcnt b = 0 \<longrightarrow> \<not> sl_locked (b_lock b)) \<and>
     (b_dev b = ROOTDEV \<and> b_valid b \<and> \<not> b_dirty b \<and> \<not> sl_locked (b_lock b) \<longrightarrow>
        b_data b = disk s (blockno b))"

definition bio_inv :: "bio \<Rightarrow> bool" where
  "bio_inv s \<longleftrightarrow> length (bufs s) = Suc NBUF \<and>
     (\<exists>xs. lru_list (bufs s) xs \<and> set xs = {..<NBUF}) \<and>
     (\<forall>i<NBUF. buf_ok s (bufs s ! i)) \<and>
     (\<forall>i<NBUF. \<forall>j<NBUF. b_dev (bufs s ! i) = ROOTDEV \<and> is_block ROOTDEV (blockno (bufs s ! i)) (bufs s) j \<longrightarrow> i = j) \<and>
     (\<forall>bn. length (disk s bn) = BSIZE)"

text \<open>The block as every reader of the cache sees it.\<close>

definition view :: "bio \<Rightarrow> u32 \<Rightarrow> block" where
  "view s bn = (case find (is_block ROOTDEV bn (bufs s)) [0..<NBUF] of
       None \<Rightarrow> disk s bn
     | Some i \<Rightarrow> if b_valid (bufs s ! i) then b_data (bufs s ! i) else disk s bn)"

lemma bio_inv_unique:
  "bio_inv s \<Longrightarrow> i < NBUF \<Longrightarrow> j < NBUF \<Longrightarrow> is_block ROOTDEV bn (bufs s) i \<Longrightarrow> is_block ROOTDEV bn (bufs s) j \<Longrightarrow> i = j"
  unfolding bio_inv_def is_block_def by metis

lemma find_unique:
  assumes "\<And>j. j \<in> set xs \<Longrightarrow> P j \<longleftrightarrow> j = i" "i \<in> set xs"
  shows "find P xs = Some i"
  using assms by (induction xs) auto

lemma view_cached:
  assumes "bio_inv s" "i < NBUF" "is_block ROOTDEV bn (bufs s) i"
  shows "view s bn = (if b_valid (bufs s ! i) then b_data (bufs s ! i) else disk s bn)"
proof -
  have "find (is_block ROOTDEV bn (bufs s)) [0..<NBUF] = Some i"
    by (rule find_unique) (use assms bio_inv_unique in auto)
  then show ?thesis by (simp add: view_def)
qed

lemma view_uncached: "\<forall>i<NBUF. \<not> is_block ROOTDEV bn (bufs s) i \<Longrightarrow> view s bn = disk s bn"
  by (auto simp: view_def find_None_iff split: option.splits) (metis atLeast0LessThan find_Some_iff lessThan_iff nth_mem set_upt)

lemma buf_ok_core: "core b = core b' \<Longrightarrow> buf_ok s b = buf_ok s b'"
  by (simp add: core_eq_iff buf_ok_def)

lemma bio_inv_upd:
  assumes "bio_inv s" "i < NBUF" "b_next b = b_next (bufs s ! i)" "b_prev b = b_prev (bufs s ! i)"
    "buf_ok s b" "b_dev b = ROOTDEV \<Longrightarrow> \<forall>j<NBUF. j \<noteq> i \<longrightarrow> \<not> is_block ROOTDEV (blockno b) (bufs s) j"
  shows "bio_inv (s\<lparr>bufs := (bufs s)[i := b]\<rparr>)"
proof -
  have len: "i < length (bufs s)" using assms by (simp add: bio_inv_def)
  have l: "lru_list ((bufs s)[i := b]) xs = lru_list (bufs s) xs" for xs
    using assms(3,4) by (simp add: lru_list_def nxt_def prv_def)
  have ok: "buf_ok (s\<lparr>bufs := bs\<rparr>) b' = buf_ok s b'" for bs b' by (simp add: buf_ok_def)
  show ?thesis
    using assms(1,2,5,6) len bio_inv_unique [OF assms(1)]
    by (auto simp: bio_inv_def l ok nth_list_update is_block_def)
qed

text \<open>The buffer bread returns for a block, built from the one it reuses.\<close>

definition grab :: "int \<Rightarrow> u32 \<Rightarrow> block \<Rightarrow> buf \<Rightarrow> buf" where
  "grab pid bn d b = b\<lparr>b_dev := ROOTDEV, blockno := bn, b_valid := True, b_lock := \<lparr>sl_locked = True, sl_pid = pid\<rparr>,
     refcnt := refcnt b + 1, b_data := d\<rparr>"

lemma grab_sel [simp]:
  "b_dev (grab pid bn d b) = ROOTDEV" "blockno (grab pid bn d b) = bn" "b_valid (grab pid bn d b)"
  "b_dirty (grab pid bn d b) = b_dirty b" "refcnt (grab pid bn d b) = refcnt b + 1" "b_data (grab pid bn d b) = d"
  "sl_locked (b_lock (grab pid bn d b))" "b_next (grab pid bn d b) = b_next b" "b_prev (grab pid bn d b) = b_prev b"
  by (simp_all add: grab_def)

lemma bread_hit:
  assumes inv: "bio_inv s" and i: "i < NBUF" "is_block ROOTDEV bn (bufs s) i" "\<not> sl_locked (b_lock (bufs s ! i))"
    and bn: "bn < disksize s"
  shows "bread pid ROOTDEV bn s = Inr (i, s\<lparr>bufs := (bufs s)[i := grab pid bn (view s bn) (bufs s ! i)]\<rparr>)"
proof -
  from inv obtain xs where xs: "lru_list (bufs s) xs" "set xs = {..<NBUF}" by (auto simp: bio_inv_def)
  have f: "find (is_block ROOTDEV bn (bufs s)) xs = Some i"
    by (rule find_unique) (use inv i xs bio_inv_unique in auto)
  have b: "i < length (bufs s)" "buf_ok s (bufs s ! i)" using inv i by (simp_all add: bio_inv_def)
  let ?b = "(bufs s ! i)\<lparr>refcnt := refcnt (bufs s ! i) + 1, b_lock := \<lparr>sl_locked = True, sl_pid = pid\<rparr>\<rparr>"
  have g: "bget pid ROOTDEV bn s = Inr (i, s\<lparr>bufs := (bufs s)[i := ?b]\<rparr>)"
    using b i by (simp add: bget_def scan_next_find [OF xs(1)] f lock_buf_def Let_def)
  have gr: "grab pid bn d (bufs s ! i) = ?b\<lparr>b_data := d, b_valid := True\<rparr>" for d
    using i(2) by (cases "bufs s ! i") (simp add: grab_def is_block_def)
  show ?thesis
  proof (cases "b_valid (bufs s ! i)")
    case True
    then have "grab pid bn (view s bn) (bufs s ! i) = ?b"
      unfolding gr view_cached [OF inv i(1,2)] by (cases "bufs s ! i") simp
    with True b show ?thesis by (simp add: bread_def g)
  next
    case False
    then show ?thesis using b i(2) bn
      unfolding bread_def g gr view_cached [OF inv i(1,2)]
      by (simp add: iderw_def Let_def not_le [symmetric] holdingsleep_def is_block_def ROOTDEV_def buf_ok_def)
  qed
qed

lemma bread_miss:
  assumes inv: "bio_inv s" and no: "\<forall>i<NBUF. \<not> is_block ROOTDEV bn (bufs s) i"
    and fr: "\<exists>i<NBUF. is_free (bufs s) i" and bn: "bn < disksize s"
  shows "\<exists>i<NBUF. is_free (bufs s) i \<and>
    bread pid ROOTDEV bn s = Inr (i, s\<lparr>bufs := (bufs s)[i := grab pid bn (view s bn) (bufs s ! i)]\<rparr>)"
proof -
  from inv obtain xs where xs: "lru_list (bufs s) xs" "set xs = {..<NBUF}" by (auto simp: bio_inv_def)
  have "find (is_free (bufs s)) (rev xs) \<noteq> None" using fr xs by (auto simp: find_None_iff)
  then obtain i where f: "find (is_free (bufs s)) (rev xs) = Some i" by auto
  then have i: "i < NBUF" "is_free (bufs s) i" using xs by (auto simp: find_Some_iff) (metis lessThan_iff nth_mem set_rev length_rev)
  have n: "find (is_block ROOTDEV bn (bufs s)) xs = None" using no xs by (auto simp: find_None_iff)
  have b: "i < length (bufs s)" "buf_ok s (bufs s ! i)" using inv i by (simp_all add: bio_inv_def)
  let ?b = "(bufs s ! i)\<lparr>b_dev := ROOTDEV, blockno := bn, b_valid := False, b_dirty := False, refcnt := 1,
    b_lock := \<lparr>sl_locked = True, sl_pid = pid\<rparr>\<rparr>"
  have g: "bget pid ROOTDEV bn s = Inr (i, s\<lparr>bufs := (bufs s)[i := ?b]\<rparr>)"
    using b i by (simp add: bget_def scan_next_find [OF xs(1)] scan_prev_find [OF xs(1)] f n lock_buf_def
        Let_def buf_ok_def is_free_def)
  have "bread pid ROOTDEV bn s = Inr (i, s\<lparr>bufs := (bufs s)[i := grab pid bn (view s bn) (bufs s ! i)]\<rparr>)"
    using i bn b view_uncached [OF no] unfolding bread_def g grab_def
    by (cases "bufs s ! i") (simp add: is_free_def iderw_def Let_def not_le [symmetric] holdingsleep_def ROOTDEV_def)
  with i show ?thesis by blast
qed

section \<open>One process using the cache\<close>

text \<open>
  The cache as it looks to a process that has the buffers of H in its hands while no other
  buffer is referenced: the setting of commit and of recovery.  dirtyb is the set of blocks
  pinned by the log.
\<close>

definition calm :: "nat set \<Rightarrow> bio \<Rightarrow> bool" where
  "calm H s \<longleftrightarrow> bio_inv s \<and> H \<subseteq> {..<NBUF} \<and>
     (\<forall>j<NBUF. if j \<in> H then sl_locked (b_lock (bufs s ! j)) \<and> refcnt (bufs s ! j) = 1 \<and>
                 b_valid (bufs s ! j) \<and> b_dev (bufs s ! j) = ROOTDEV \<and> blockno (bufs s ! j) < disksize s
               else refcnt (bufs s ! j) = 0)"

definition dirtyb :: "bio \<Rightarrow> u32 set" where
  "dirtyb s = {bn. \<exists>i<NBUF. is_block ROOTDEV bn (bufs s) i \<and> b_dirty (bufs s ! i)}"

lemma calmD: "calm H s \<Longrightarrow> bio_inv s" "calm H s \<Longrightarrow> length (bufs s) = Suc NBUF"
  by (simp_all add: calm_def bio_inv_def)

lemma calm_held:
  assumes "calm H s" "i \<in> H"
  shows "i < NBUF" "sl_locked (b_lock (bufs s ! i))" "refcnt (bufs s ! i) = 1" "b_valid (bufs s ! i)"
    "b_dev (bufs s ! i) = ROOTDEV" "blockno (bufs s ! i) < disksize s" "i < length (bufs s)"
    "length (b_data (bufs s ! i)) = BSIZE"
  using assms by (auto simp: calm_def bio_inv_def buf_ok_def)

lemma calm_view_held: "calm H s \<Longrightarrow> i \<in> H \<Longrightarrow> view s (blockno (bufs s ! i)) = b_data (bufs s ! i)"
  using view_cached [of s i "blockno (bufs s ! i)"] calm_held [of H s i] calmD(1) [of H s] by (simp add: is_block_def)

lemma calm_view_length: "calm H s \<Longrightarrow> length (view s bn) = BSIZE"
  by (auto simp: view_def calm_def bio_inv_def buf_ok_def find_Some_iff split: option.splits)

lemma view_update:
  assumes inv: "bio_inv s" "bio_inv (s\<lparr>bufs := (bufs s)[i := b]\<rparr>)" and i: "i < NBUF" and b: "b_dev b = ROOTDEV"
    and old: "is_block ROOTDEV (blockno b) (bufs s) i \<or>
      (b_dev (bufs s ! i) = ROOTDEV \<and> b_valid (bufs s ! i) \<longrightarrow> b_data (bufs s ! i) = disk s (blockno (bufs s ! i)))"
  shows "view (s\<lparr>bufs := (bufs s)[i := b]\<rparr>) =
    (view s)(blockno b := if b_valid b then b_data b else disk s (blockno b))" (is "view ?s' = _")
proof
  fix bn
  have len: "i < length (bufs s)" using inv(1) i by (simp add: bio_inv_def)
  show "view ?s' bn = ((view s)(blockno b := if b_valid b then b_data b else disk s (blockno b))) bn"
  proof (cases "bn = blockno b")
    case True
    with len b view_cached [OF inv(2) i, of bn] show ?thesis by (simp add: is_block_def)
  next
    case False
    show ?thesis
    proof (cases "\<exists>j<NBUF. is_block ROOTDEV bn (bufs s) j")
      case True
      then obtain j where j: "j < NBUF" "is_block ROOTDEV bn (bufs s) j" by blast
      show ?thesis
      proof (cases "j = i")
        case ji: True
        have "\<not> is_block ROOTDEV bn (bufs ?s') k" if k: "k < NBUF" for k
        proof
          assume a: "is_block ROOTDEV bn (bufs ?s') k"
          then have ki: "k \<noteq> i" using len False by (auto simp: is_block_def)
          then have "is_block ROOTDEV bn (bufs s) k" using a by (simp add: is_block_def)
          with ki ji j bio_inv_unique [OF inv(1) k j(1)] show False by simp
        qed
        with ji j old False view_uncached [of bn ?s'] view_cached [OF inv(1) j] show ?thesis
          by (auto simp: is_block_def)
      next
        case ne: False
        with j have j': "is_block ROOTDEV bn (bufs ?s') j" by (simp add: is_block_def)
        with ne False view_cached [OF inv(1) j] view_cached [OF inv(2) j(1) j'] show ?thesis by simp
      qed
    next
      case no: False
      with False len have "\<forall>k<NBUF. \<not> is_block ROOTDEV bn (bufs ?s') k"
        by (auto simp: is_block_def nth_list_update)
      with no False view_uncached [of bn ?s'] view_uncached [of bn s] show ?thesis by simp
    qed
  qed
qed

lemma dirtyb_update:
  assumes "bio_inv s" "i < NBUF" "b_dev b = ROOTDEV"
    "is_block ROOTDEV (blockno b) (bufs s) i \<or> \<not> b_dirty (bufs s ! i) \<and> (\<forall>j<NBUF. \<not> is_block ROOTDEV (blockno b) (bufs s) j)"
  shows "dirtyb (s\<lparr>bufs := (bufs s)[i := b]\<rparr>) =
    (if b_dirty b then insert (blockno b) (dirtyb s) else dirtyb s - {blockno b})"
proof -
  have len: "i < length (bufs s)" using assms by (simp add: bio_inv_def)
  have d: "bn \<in> dirtyb (s\<lparr>bufs := (bufs s)[i := b]\<rparr>) \<longleftrightarrow>
      (bn = blockno b \<and> b_dirty b) \<or> (\<exists>j<NBUF. j \<noteq> i \<and> is_block ROOTDEV bn (bufs s) j \<and> b_dirty (bufs s ! j))" for bn
    using assms(2,3) len by (auto simp: dirtyb_def is_block_def nth_list_update)
  have 1: "\<not> (\<exists>j<NBUF. j \<noteq> i \<and> is_block ROOTDEV (blockno b) (bufs s) j)"
    using assms(2,4) bio_inv_unique [OF assms(1)] by blast
  have 2: "bn \<in> dirtyb s \<longleftrightarrow> (\<exists>j<NBUF. j \<noteq> i \<and> is_block ROOTDEV bn (bufs s) j \<and> b_dirty (bufs s ! j))"
    if "bn \<noteq> blockno b" for bn
  proof -
    have "\<not> (is_block ROOTDEV bn (bufs s) i \<and> b_dirty (bufs s ! i))"
      using assms(4) that by (auto simp: is_block_def)
    then show ?thesis by (auto simp: dirtyb_def)
  qed
  show ?thesis
  proof (rule set_eqI)
    show "bn \<in> dirtyb (s\<lparr>bufs := (bufs s)[i := b]\<rparr>) \<longleftrightarrow>
        bn \<in> (if b_dirty b then insert (blockno b) (dirtyb s) else dirtyb s - {blockno b})" for bn
      using 1 2 [of bn] d [of bn] by (cases "bn = blockno b") auto
  qed
qed

lemma finite_dirtyb [simp]: "finite (dirtyb s)"
proof -
  have "dirtyb s \<subseteq> (\<lambda>i. blockno (bufs s ! i)) ` {..<NBUF}" by (auto simp: dirtyb_def is_block_def)
  then show ?thesis by (rule finite_subset) simp
qed

lemma card_dirty_bufs:
  assumes "bio_inv s"
  shows "card {j. j < NBUF \<and> b_dirty (bufs s ! j)} \<le> card (dirtyb s)"
proof (rule card_inj_on_le [where f = "\<lambda>i. blockno (bufs s ! i)"])
  have d: "b_dev (bufs s ! j) = ROOTDEV" if "j < NBUF" "b_dirty (bufs s ! j)" for j
    using assms that by (simp add: bio_inv_def buf_ok_def)
  show "inj_on (\<lambda>i. blockno (bufs s ! i)) {j. j < NBUF \<and> b_dirty (bufs s ! j)}"
  proof (rule inj_onI, clarsimp)
    fix i j assume "i < NBUF" "b_dirty (bufs s ! i)" "j < NBUF" "b_dirty (bufs s ! j)"
      "blockno (bufs s ! i) = blockno (bufs s ! j)"
    then show "i = j" using bio_inv_unique [OF assms, of i j "blockno (bufs s ! i)"] d by (simp add: is_block_def)
  qed
  show "(\<lambda>i. blockno (bufs s ! i)) ` {j. j < NBUF \<and> b_dirty (bufs s ! j)} \<subseteq> dirtyb s"
    using d by (auto simp: dirtyb_def is_block_def)
qed simp

lemma calm_free_exists:
  assumes c: "calm H s" and room: "card H + card (dirtyb s) < NBUF"
  shows "\<exists>i<NBUF. is_free (bufs s) i"
proof (rule ccontr)
  assume no: "\<not> (\<exists>i<NBUF. is_free (bufs s) i)"
  then have "{..<NBUF} \<subseteq> H \<union> {j. j < NBUF \<and> b_dirty (bufs s ! j)}"
    using c by (auto simp: calm_def is_free_def split: if_splits)
  then have "card {..<NBUF} \<le> card (H \<union> {j. j < NBUF \<and> b_dirty (bufs s ! j)})"
    using c by (intro card_mono) (auto simp: calm_def intro: finite_subset [of H])
  also have "\<dots> \<le> card H + card {j. j < NBUF \<and> b_dirty (bufs s ! j)}" by (rule card_Un_le)
  finally show False using card_dirty_bufs [of s] c room by (simp add: calm_def)
qed

definition took :: "nat set \<Rightarrow> bio \<Rightarrow> u32 \<Rightarrow> nat \<Rightarrow> bio \<Rightarrow> bool" where
  "took H s bn i s' \<longleftrightarrow> calm (insert i H) s' \<and> i \<notin> H \<and> i < NBUF \<and> blockno (bufs s' ! i) = bn \<and>
     b_data (bufs s' ! i) = view s bn \<and> (b_dirty (bufs s' ! i) \<longleftrightarrow> bn \<in> dirtyb s) \<and>
     (\<forall>j. j \<noteq> i \<longrightarrow> bufs s' ! j = bufs s ! j) \<and>
     view s' = view s \<and> disk s' = disk s \<and> hist s' = hist s \<and> disksize s' = disksize s \<and> dirtyb s' = dirtyb s"

lemma took_grab:
  assumes c: "calm H s" and i: "i < NBUF" "i \<notin> H" and bn: "bn < disksize s"
    and at: "is_block ROOTDEV bn (bufs s) i \<or> is_free (bufs s) i \<and> (\<forall>j<NBUF. \<not> is_block ROOTDEV bn (bufs s) j)"
  shows "took H s bn i (s\<lparr>bufs := (bufs s)[i := grab pid bn (view s bn) (bufs s ! i)]\<rparr>)" (is "took H s bn i ?s'")
proof -
  let ?b = "grab pid bn (view s bn) (bufs s ! i)"
  have inv: "bio_inv s" and len: "i < length (bufs s)" using c i by (auto simp: calm_def bio_inv_def)
  have old: "buf_ok s (bufs s ! i)" "refcnt (bufs s ! i) = 0" using c i by (auto simp: calm_def bio_inv_def)
  have ok: "buf_ok s ?b"
    using bn at old calm_view_length [OF c] by (auto simp: buf_ok_def is_free_def)
  have others: "\<forall>j<NBUF. j \<noteq> i \<longrightarrow> \<not> is_block ROOTDEV bn (bufs s) j"
    using at bio_inv_unique [OF inv _ i(1)] by blast
  have inv': "bio_inv ?s'"
    by (rule bio_inv_upd [OF inv i(1) _ _ ok]) (use others in simp_all)
  have "is_block ROOTDEV bn (bufs s) i \<or>
      (b_dev (bufs s ! i) = ROOTDEV \<and> b_valid (bufs s ! i) \<longrightarrow> b_data (bufs s ! i) = disk s (blockno (bufs s ! i)))"
    using at old by (auto simp: is_free_def buf_ok_def)
  then have v: "view ?s' = view s"
    using view_update [OF inv inv' i(1)] by simp
  have d: "dirtyb ?s' = (if b_dirty (bufs s ! i) then insert bn (dirtyb s) else dirtyb s - {bn})"
    using dirtyb_update [OF inv i(1), of ?b, unfolded grab_sel] at unfolding is_free_def by blast
  have bd: "b_dirty (bufs s ! i) \<longleftrightarrow> bn \<in> dirtyb s"
  proof
    assume "b_dirty (bufs s ! i)"
    with at i(1) show "bn \<in> dirtyb s" by (auto simp: dirtyb_def is_free_def)
  next
    assume "bn \<in> dirtyb s"
    then obtain j where "j < NBUF" "is_block ROOTDEV bn (bufs s) j" "b_dirty (bufs s ! j)" by (auto simp: dirtyb_def)
    with others show "b_dirty (bufs s ! i)" by blast
  qed
  then have "dirtyb ?s' = dirtyb s" unfolding d by auto
  moreover have "calm (insert i H) ?s'"
    using c inv' i bn len old by (auto simp: calm_def nth_list_update)
  ultimately show ?thesis using i len v bd by (auto simp: took_def)
qed

lemma calm_bread:
  assumes c: "calm H s" and bn: "bn < disksize s" and nh: "\<forall>j\<in>H. blockno (bufs s ! j) \<noteq> bn"
    and room: "bn \<in> dirtyb s \<or> card H + card (dirtyb s) < NBUF"
  shows "\<exists>i s'. bread pid ROOTDEV bn s = Inr (i, s') \<and> took H s bn i s'"
proof (cases "\<exists>i<NBUF. is_block ROOTDEV bn (bufs s) i")
  case True
  then obtain i where i: "i < NBUF" "is_block ROOTDEV bn (bufs s) i" by blast
  then have iH: "i \<notin> H" using nh by (auto simp: is_block_def)
  with c i have "\<not> sl_locked (b_lock (bufs s ! i))" by (auto simp: calm_def bio_inv_def buf_ok_def)
  with bread_hit [OF calmD(1) [OF c] i _ bn] took_grab [OF c i(1) iH bn] i show ?thesis by blast
next
  case False
  then have "bn \<notin> dirtyb s" by (auto simp: dirtyb_def)
  with room calm_free_exists [OF c] have "\<exists>i<NBUF. is_free (bufs s) i" by simp
  with bread_miss [OF calmD(1) [OF c] _ _ bn] False obtain i where
    i: "i < NBUF" "is_free (bufs s) i"
      "bread pid ROOTDEV bn s = Inr (i, s\<lparr>bufs := (bufs s)[i := grab pid bn (view s bn) (bufs s ! i)]\<rparr>)" by blast
  then have "i \<notin> H" using c by (auto simp: calm_def is_free_def)
  with took_grab [OF c i(1) _ bn] i False show ?thesis by blast
qed

lemma calm_touch:
  assumes c: "calm H s" and i: "i \<in> H" and b: "blockno b = blockno (bufs s ! i)" "b_dev b = ROOTDEV" "b_valid b"
      "refcnt b = 1" "sl_locked (b_lock b)" "length (b_data b) = BSIZE"
      "b_next b = b_next (bufs s ! i)" "b_prev b = b_prev (bufs s ! i)"
  shows "calm H (s\<lparr>bufs := (bufs s)[i := b]\<rparr>)"
    and "view (s\<lparr>bufs := (bufs s)[i := b]\<rparr>) = (view s)(blockno b := b_data b)"
    and "dirtyb (s\<lparr>bufs := (bufs s)[i := b]\<rparr>) = (if b_dirty b then insert (blockno b) (dirtyb s) else dirtyb s - {blockno b})"
proof -
  note h = calm_held [OF c i] and inv = calmD(1) [OF c]
  have at: "is_block ROOTDEV (blockno b) (bufs s) i" using h b by (simp add: is_block_def)
  have ok: "buf_ok s b" using b h by (simp add: buf_ok_def)
  have inv': "bio_inv (s\<lparr>bufs := (bufs s)[i := b]\<rparr>)"
    by (rule bio_inv_upd [OF inv h(1) b(7,8) ok]) (use bio_inv_unique [OF inv _ h(1) _ at] in blast)
  then show "calm H (s\<lparr>bufs := (bufs s)[i := b]\<rparr>)"
    using c i b h by (auto simp: calm_def nth_list_update)
  show "view (s\<lparr>bufs := (bufs s)[i := b]\<rparr>) = (view s)(blockno b := b_data b)"
    using view_update [OF inv inv' h(1) b(2)] at b(3) by simp
  show "dirtyb (s\<lparr>bufs := (bufs s)[i := b]\<rparr>) = (if b_dirty b then insert (blockno b) (dirtyb s) else dirtyb s - {blockno b})"
    using dirtyb_update [OF inv h(1) b(2)] at by blast
qed

lemma calm_set_data:
  assumes c: "calm H s" and i: "i \<in> H" and d: "length d = BSIZE"
  shows "calm H (set_data i d s)" "view (set_data i d s) = (view s)(blockno (bufs s ! i) := d)"
    "dirtyb (set_data i d s) = dirtyb s"
    "b_data (bufs (set_data i d s) ! i) = d" "blockno (bufs (set_data i d s) ! i) = blockno (bufs s ! i)"
    "b_dirty (bufs (set_data i d s) ! i) = b_dirty (bufs s ! i)"
    "\<And>j. j \<noteq> i \<Longrightarrow> bufs (set_data i d s) ! j = bufs s ! j"
    "disk (set_data i d s) = disk s" "hist (set_data i d s) = hist s" "disksize (set_data i d s) = disksize s"
proof -
  let ?b = "(bufs s ! i)\<lparr>b_data := d\<rparr>"
  note h = calm_held [OF c i] and t = calm_touch [OF c i, of ?b]
  show "calm H (set_data i d s)" "view (set_data i d s) = (view s)(blockno (bufs s ! i) := d)"
    unfolding set_data_def using t(1,2) h d by simp_all
  have "b_dirty (bufs s ! i) \<longleftrightarrow> blockno (bufs s ! i) \<in> dirtyb s"
  proof
    assume "b_dirty (bufs s ! i)"
    with h show "blockno (bufs s ! i) \<in> dirtyb s" by (auto simp: dirtyb_def is_block_def)
  next
    assume "blockno (bufs s ! i) \<in> dirtyb s"
    then obtain j where "j < NBUF" "is_block ROOTDEV (blockno (bufs s ! i)) (bufs s) j" "b_dirty (bufs s ! j)"
      by (auto simp: dirtyb_def)
    moreover have "is_block ROOTDEV (blockno (bufs s ! i)) (bufs s) i" using h by (simp add: is_block_def)
    ultimately show "b_dirty (bufs s ! i)" using bio_inv_unique [OF calmD(1) [OF c] _ h(1)] by blast
  qed
  then have "(if b_dirty ?b then insert (blockno ?b) (dirtyb s) else dirtyb s - {blockno ?b}) = dirtyb s" by auto
  then show "dirtyb (set_data i d s) = dirtyb s" unfolding set_data_def using t(3) h d by simp
qed (use calm_held(7) [OF c i] in \<open>simp_all add: set_data_def\<close>)

lemma calm_disk_write:
  assumes c: "calm H s" and i: "i \<in> H" and d: "length d = BSIZE"
  shows "calm H (s\<lparr>disk := (disk s)(blockno (bufs s ! i) := d), hist := w\<rparr>)"
    and "view (s\<lparr>disk := (disk s)(blockno (bufs s ! i) := d), hist := w\<rparr>) = view s"
    and "dirtyb (s\<lparr>disk := (disk s)(blockno (bufs s ! i) := d), hist := w\<rparr>) = dirtyb s"
proof -
  note h = calm_held [OF c i] and inv = calmD(1) [OF c]
  let ?s' = "s\<lparr>disk := (disk s)(blockno (bufs s ! i) := d), hist := w\<rparr>"
  have at: "is_block ROOTDEV (blockno (bufs s ! i)) (bufs s) i" using h by (simp add: is_block_def)
  have "buf_ok ?s' (bufs s ! j)" if j: "j < NBUF" for j
  proof (cases "j = i")
    case True
    then show ?thesis using h inv by (auto simp: buf_ok_def bio_inv_def)
  next
    case False
    then have "\<not> is_block ROOTDEV (blockno (bufs s ! i)) (bufs s) j" using bio_inv_unique [OF inv j h(1) _ at] by blast
    then show ?thesis using inv j by (auto simp: buf_ok_def bio_inv_def is_block_def)
  qed
  then have inv': "bio_inv ?s'" using inv d by (auto simp: bio_inv_def)
  then show "calm H ?s'" using c by (simp add: calm_def)
  show "view ?s' = view s"
  proof
    fix bn
    show "view ?s' bn = view s bn"
    proof (cases "bn = blockno (bufs s ! i)")
      case True
      then show ?thesis using view_cached [OF inv h(1) at] view_cached [OF inv' h(1)] at h(4) by simp
    next
      case False
      then show ?thesis by (simp add: view_def split: option.split)
    qed
  qed
  show "dirtyb ?s' = dirtyb s" by (simp add: dirtyb_def)
qed

lemma calm_bwrite:
  assumes c: "calm H s" and i: "i \<in> H"
  shows "\<exists>s'. bwrite i s = Inr s' \<and> calm H s' \<and> view s' = view s \<and> dirtyb s' = dirtyb s - {blockno (bufs s ! i)} \<and>
    disk s' = (disk s)(blockno (bufs s ! i) := b_data (bufs s ! i)) \<and>
    hist s' = hist s @ [(blockno (bufs s ! i), b_data (bufs s ! i))] \<and> disksize s' = disksize s \<and>
    (\<forall>j. j \<noteq> i \<longrightarrow> bufs s' ! j = bufs s ! j) \<and> \<not> b_dirty (bufs s' ! i) \<and>
    b_data (bufs s' ! i) = b_data (bufs s ! i) \<and> blockno (bufs s' ! i) = blockno (bufs s ! i)"
proof -
  note h = calm_held [OF c i]
  let ?b = "(bufs s ! i)\<lparr>b_dirty := False, b_valid := True\<rparr>"
  let ?s1 = "s\<lparr>bufs := (bufs s)[i := ?b]\<rparr>"
  let ?s' = "?s1\<lparr>disk := (disk ?s1)(blockno (bufs ?s1 ! i) := b_data (bufs s ! i)),
    hist := hist s @ [(blockno (bufs s ! i), b_data (bufs s ! i))]\<rparr>"
  have t: "calm H ?s1" "view ?s1 = view s" "dirtyb ?s1 = dirtyb s - {blockno (bufs s ! i)}"
    using calm_touch [OF c i, of ?b] h calm_view_held [OF c i] by (simp_all add: fun_upd_idem)
  note w = calm_disk_write [OF t(1) i h(8), of "hist s @ [(blockno (bufs s ! i), b_data (bufs s ! i))]"]
  have e: "bwrite i s = Inr ?s'"
    using h by (simp add: bwrite_def iderw_def Let_def holdingsleep_def ROOTDEV_def not_le [symmetric])
  show ?thesis by (rule exI [of _ ?s'], intro conjI, rule e, rule w(1)) (use w t h in simp_all)
qed

lemma view_cong:
  assumes b: "\<And>j. b_dev (bufs s' ! j) = b_dev (bufs s ! j)" "\<And>j. blockno (bufs s' ! j) = blockno (bufs s ! j)"
    "\<And>j. b_valid (bufs s' ! j) = b_valid (bufs s ! j)" "\<And>j. b_data (bufs s' ! j) = b_data (bufs s ! j)"
    "\<And>j. b_dirty (bufs s' ! j) = b_dirty (bufs s ! j)" and d: "disk s' = disk s"
  shows "view s' = view s" "dirtyb s' = dirtyb s"
proof -
  have i: "is_block dev bn (bufs s') = is_block dev bn (bufs s)" for dev bn by (auto simp: is_block_def b)
  show "view s' = view s" by (rule ext) (simp add: view_def i b d split: option.split)
  show "dirtyb s' = dirtyb s" by (simp add: dirtyb_def i b)
qed

lemma view_core:
  assumes "\<And>j. core (bufs s' ! j) = core (bufs s ! j)" "disk s' = disk s"
  shows "view s' = view s" "dirtyb s' = dirtyb s"
  using view_cong [of s' s] assms by (simp_all add: core_eq_iff)

lemma bio_inv_core:
  assumes "bio_inv s" "\<And>j. core (bufs s' ! j) = core (bufs s ! j)" "length (bufs s') = length (bufs s)"
    "lru_list (bufs s') xs" "set xs = {..<NBUF}" "disk s' = disk s" "disksize s' = disksize s"
  shows "bio_inv s'"
proof -
  have b: "is_block dev bn (bufs s') j = is_block dev bn (bufs s) j" "buf_ok s' (bufs s' ! j) = buf_ok s (bufs s ! j)"
    "b_dev (bufs s' ! j) = b_dev (bufs s ! j)" "blockno (bufs s' ! j) = blockno (bufs s ! j)" for dev bn j
    using assms(2) [of j] assms(6,7) by (simp_all add: core_eq_iff is_block_def buf_ok_def)
  show ?thesis using assms(1,3-7) unfolding bio_inv_def b by auto
qed

text \<open>Releasing the last reference moves the buffer to the front of the LRU list and changes nothing else.\<close>

lemma brelse_last:
  assumes inv: "bio_inv (s\<lparr>bufs := (bufs s)[i := b1]\<rparr>)" and i: "i < NBUF"
    and h: "sl_locked (b_lock (bufs s ! i))" and r: "refcnt (bufs s ! i) = 1"
    and b1: "b1 = (bufs s ! i)\<lparr>b_lock := releasesleep (b_lock (bufs s ! i)), refcnt := 0\<rparr>"
  shows "\<exists>s'. brelse i s = Inr s' \<and> bio_inv s' \<and> length (bufs s') = length (bufs s) \<and>
    (\<forall>j. core (bufs s' ! j) = core ((bufs s)[i := b1] ! j)) \<and> disk s' = disk s \<and> hist s' = hist s \<and> disksize s' = disksize s"
proof -
  let ?s1 = "s\<lparr>bufs := (bufs s)[i := b1]\<rparr>"
  from inv obtain xs where xs: "lru_list ((bufs s)[i := b1]) xs" "set xs = {..<NBUF}" by (auto simp: bio_inv_def)
  then obtain ys zs where sp: "xs = ys @ i # zs" using i by (metis lessThan_iff split_list)
  let ?s' = "s\<lparr>bufs := mru_front i ((bufs s)[i := b1])\<rparr>"
  have len: "length (bufs s) = Suc NBUF" using inv by (simp add: bio_inv_def)
  have "lru_list (bufs ?s') (i # ys @ zs)"
    using mru_front_lru [of "(bufs s)[i := b1]" ys i zs] xs sp len by (metis bio.select_convs(1) bio.surjective bio.update_convs(1) length_list_update order_refl)
  then have "bio_inv ?s'"
    by (rule bio_inv_core [OF inv, rotated 2]) (use xs sp in auto)
  moreover have "brelse i s = Inr ?s'" using h r i len by (simp add: brelse_def Let_def holdingsleep_def b1)
  ultimately show ?thesis by (intro exI [of _ ?s']) simp
qed

lemma calm_brelse:
  assumes c: "calm H s" and i: "i \<in> H" and co: "b_dirty (bufs s ! i) \<or> b_data (bufs s ! i) = disk s (blockno (bufs s ! i))"
  shows "\<exists>s'. brelse i s = Inr s' \<and> calm (H - {i}) s' \<and> view s' = view s \<and> dirtyb s' = dirtyb s \<and>
    disk s' = disk s \<and> hist s' = hist s \<and> disksize s' = disksize s \<and>
    (\<forall>j. j \<noteq> i \<longrightarrow> core (bufs s' ! j) = core (bufs s ! j))"
proof -
  note h = calm_held [OF c i] and inv = calmD(1) [OF c]
  define b1 where "b1 = (bufs s ! i)\<lparr>b_lock := releasesleep (b_lock (bufs s ! i)), refcnt := 0\<rparr>"
  let ?s1 = "s\<lparr>bufs := (bufs s)[i := b1]\<rparr>"
  have at: "is_block ROOTDEV (blockno b1) (bufs s) i" using h by (simp add: is_block_def b1_def)
  have ok: "buf_ok s b1" using co h inv by (auto simp: buf_ok_def b1_def releasesleep_def bio_inv_def)
  have inv1: "bio_inv ?s1"
    by (rule bio_inv_upd [OF inv h(1) _ _ ok]) (use bio_inv_unique [OF inv _ h(1) _ at] in \<open>auto simp: b1_def\<close>)
  have v1: "view ?s1 = view s" "dirtyb ?s1 = dirtyb s"
    by (rule view_cong; auto simp: nth_upd b1_def)+
  from brelse_last [OF inv1 h(1,2,3) b1_def] obtain s' where
    s': "brelse i s = Inr s'" "bio_inv s'" "\<forall>j. core (bufs s' ! j) = core (bufs ?s1 ! j)"
      "disk s' = disk s" "hist s' = hist s" "disksize s' = disksize s" by auto
  have "calm (H - {i}) s'" unfolding calm_def
  proof (intro conjI allI impI)
    show "bio_inv s'" by (rule s'(2))
    show "H - {i} \<subseteq> {..<NBUF}" using c by (auto simp: calm_def)
    fix j assume j: "j < NBUF"
    have cj: "core (bufs s' ! j) = core (bufs ?s1 ! j)" using s'(3) by blast
    show "if j \<in> H - {i} then sl_locked (b_lock (bufs s' ! j)) \<and> refcnt (bufs s' ! j) = 1 \<and>
                 b_valid (bufs s' ! j) \<and> b_dev (bufs s' ! j) = ROOTDEV \<and> blockno (bufs s' ! j) < disksize s'
               else refcnt (bufs s' ! j) = 0"
      using c cj j h(7) s'(6) by (cases "j = i") (auto simp: calm_def core_eq_iff b1_def)
  qed
  moreover have "view s' = view s" "dirtyb s' = dirtyb s"
    using view_core [of s' ?s1] s' v1 by simp_all
  moreover have "core (bufs s' ! j) = core (bufs s ! j)" if "j \<noteq> i" for j using s'(3) that by simp
  ultimately show ?thesis using s' by blast
qed

section \<open>The cache after boot\<close>

text \<open>The bcache of a machine that has just started: the zeroed static array, and the disk it finds.\<close>

definition zero_buf :: buf where
  "zero_buf = \<lparr>b_valid = False, b_dirty = False, b_dev = 0, blockno = 0, b_lock = initsleeplock, refcnt = 0,
     b_prev = 0, b_next = 0, b_data = replicate BSIZE 0\<rparr>"

definition boot_bio :: "(u32 \<Rightarrow> block) \<Rightarrow> u32 \<Rightarrow> bio" where
  "boot_bio d n = binit \<lparr>bufs = replicate (Suc NBUF) zero_buf, disk = d, disksize = n, hist = []\<rparr>"

lemma b_lock_set_links [simp]:
  "b_lock (set_next i v bs ! j) = b_lock (bs ! j)" "b_lock (set_prev i v bs ! j) = b_lock (bs ! j)"
  by (simp_all add: set_next_def set_prev_def nth_upd)

lemma core_relock:
  "b_lock (bs ! b) = initsleeplock \<Longrightarrow> core (bs[b := (bs ! b)\<lparr>b_lock := initsleeplock\<rparr>] ! j) = core (bs ! j)"
  by (auto simp: nth_upd core_eq_iff)

lemma core_binit_step:
  "b_lock (bs ! b) = initsleeplock \<Longrightarrow> core (binit_step b bs ! j) = core (bs ! j)"
  by (simp add: binit_step_def Let_def core_relock)

lemma core_zero_buf [simp]: "core zero_buf = zero_buf"
  by (simp add: core_def zero_buf_def)

lemma boot_core: "j < Suc NBUF \<Longrightarrow> core (bufs (boot_bio d n) ! j) = zero_buf"
proof -
  assume j: "j < Suc NBUF"
  have "k \<le> NBUF \<Longrightarrow> \<forall>j<Suc NBUF. core (bs ! j) = zero_buf \<Longrightarrow> \<forall>j<Suc NBUF. core (fold binit_step [0..<k] bs ! j) = zero_buf"
    for k bs
  proof (induction k)
    case 0
    then show ?case by simp
  next
    case (Suc k)
    then have ih: "\<forall>j<Suc NBUF. core (fold binit_step [0..<k] bs ! j) = zero_buf" by simp
    then have "core (fold binit_step [0..<k] bs ! k) = core zero_buf"
      using Suc.prems(1) by simp
    then have "b_lock (fold binit_step [0..<k] bs ! k) = initsleeplock"
      by (simp only: core_eq_iff) (simp add: zero_buf_def)
    with ih show ?case by (simp add: core_binit_step)
  qed
  moreover have "\<forall>j<Suc NBUF. core (set_next head head (set_prev head head (replicate (Suc NBUF) zero_buf)) ! j) = zero_buf"
    by (simp add: core_zero_buf del: replicate_Suc)
  ultimately show ?thesis using j by (simp add: boot_bio_def binit_def del: replicate_Suc)
qed

lemma boot_fields:
  assumes "j < Suc NBUF"
  shows "b_dev (bufs (boot_bio d n) ! j) = 0" "refcnt (bufs (boot_bio d n) ! j) = 0"
    "\<not> b_dirty (bufs (boot_bio d n) ! j)" "b_data (bufs (boot_bio d n) ! j) = replicate BSIZE 0"
    "\<not> sl_locked (b_lock (bufs (boot_bio d n) ! j))"
proof -
  have "core (bufs (boot_bio d n) ! j) = core zero_buf" using boot_core [OF assms] by simp
  then show "b_dev (bufs (boot_bio d n) ! j) = 0" "refcnt (bufs (boot_bio d n) ! j) = 0"
    "\<not> b_dirty (bufs (boot_bio d n) ! j)" "b_data (bufs (boot_bio d n) ! j) = replicate BSIZE 0"
    "\<not> sl_locked (b_lock (bufs (boot_bio d n) ! j))"
    unfolding core_eq_iff by (simp_all add: zero_buf_def initsleeplock_def)
qed

lemma boot_calm:
  assumes "\<And>bn. length (d bn) = BSIZE"
  shows "calm {} (boot_bio d n)" "view (boot_bio d n) = d" "dirtyb (boot_bio d n) = {}"
    "disk (boot_bio d n) = d" "disksize (boot_bio d n) = n" "hist (boot_bio d n) = []"
proof -
  let ?s = "boot_bio d n"
  show d: "disk ?s = d" "disksize ?s = n" "hist ?s = []" by (simp_all add: boot_bio_def binit_def)
  note c = boot_fields [of _ d n]
  have l: "lru_list (bufs ?s) (rev [0..<NBUF])" "length (bufs ?s) = Suc NBUF"
    using binit_lru by (simp_all add: boot_bio_def)
  have "bio_inv ?s"
    unfolding bio_inv_def using c l assms d
    by (auto simp: buf_ok_def is_block_def ROOTDEV_def intro!: exI [of _ "rev [0..<NBUF]"])
  then show "calm {} ?s" using c by (simp add: calm_def)
  show "view ?s = d" using c by (intro ext) (simp add: view_uncached is_block_def ROOTDEV_def d)
  show "dirtyb ?s = {}" using c by (auto simp: dirtyb_def)
qed

section \<open>What the cache promises\<close>

text \<open>
  bread is coherent for every process: in any state of the cache satisfying its invariant
  (whatever buffers other processes hold), a bread that returns has locked a buffer for the
  caller whose data is the block's current contents: the cached copy when a cache entry exists, the
  disk block otherwise.  The contents every process would see are unchanged, and at most one
  buffer was touched.
\<close>

theorem bread_returns_block:
  assumes inv: "bio_inv s" and bn: "bn < disksize s" and r: "bread pid ROOTDEV bn s = Inr (i, s')"
  shows "i < NBUF \<and> is_block ROOTDEV bn (bufs s') i \<and> b_data (bufs s' ! i) = view s bn \<and>
    b_lock (bufs s' ! i) = \<lparr>sl_locked = True, sl_pid = pid\<rparr> \<and> \<not> sl_locked (b_lock (bufs s ! i)) \<and>
    (\<forall>j. j \<noteq> i \<longrightarrow> bufs s' ! j = bufs s ! j) \<and> disk s' = disk s"
proof -
  from inv obtain xs where xs: "lru_list (bufs s) xs" "set xs = {..<NBUF}" by (auto simp: bio_inv_def)
  have len: "length (bufs s) = Suc NBUF" using inv by (simp add: bio_inv_def)
  have "\<exists>k<NBUF. \<not> sl_locked (b_lock (bufs s ! k)) \<and>
      bread pid ROOTDEV bn s = Inr (k, s\<lparr>bufs := (bufs s)[k := grab pid bn (view s bn) (bufs s ! k)]\<rparr>)"
  proof (cases "\<exists>k<NBUF. is_block ROOTDEV bn (bufs s) k")
    case True
    then obtain k where k: "k < NBUF" "is_block ROOTDEV bn (bufs s) k" by blast
    have "find (is_block ROOTDEV bn (bufs s)) xs = Some k"
      by (rule find_unique) (use inv k xs bio_inv_unique in auto)
    then have "\<not> sl_locked (b_lock (bufs s ! k))"
      using r k len by (auto simp: bread_def bget_def scan_next_find [OF xs(1)] lock_buf_def acquiresleep_def
          bindr_eq_Inr Let_def split: if_splits)
    with bread_hit [OF inv k _ bn] k show ?thesis by blast
  next
    case False
    then have n: "find (is_block ROOTDEV bn (bufs s)) xs = None" using xs by (auto simp: find_None_iff)
    have "\<exists>k<NBUF. is_free (bufs s) k"
    proof (rule ccontr)
      assume "\<not> ?thesis"
      then have "find (is_free (bufs s)) (rev xs) = None" using xs by (auto simp: find_None_iff)
      with n r show False by (simp add: bread_def bget_def scan_next_find [OF xs(1)] scan_prev_find [OF xs(1)] Let_def)
    qed
    with bread_miss [OF inv _ _ bn] False obtain k where k: "k < NBUF" "is_free (bufs s) k"
      "bread pid ROOTDEV bn s = Inr (k, s\<lparr>bufs := (bufs s)[k := grab pid bn (view s bn) (bufs s ! k)]\<rparr>)" by blast
    moreover have "\<not> sl_locked (b_lock (bufs s ! k))"
      using inv k by (auto simp: bio_inv_def buf_ok_def is_free_def)
    ultimately show ?thesis by blast
  qed
  then show ?thesis using r len by (auto simp: is_block_def grab_def)
qed

theorem bread_returns_block_witness:
  "\<exists>i s'. bread 3 ROOTDEV 5 (boot_bio (\<lambda>_. replicate BSIZE 7) 1000) = Inr (i, s') \<and>
     b_data (bufs s' ! i) = replicate BSIZE 7"
proof -
  let ?d = "\<lambda>_. replicate BSIZE 7"
  have c: "calm {} (boot_bio ?d 1000)" "view (boot_bio ?d 1000) = ?d" "dirtyb (boot_bio ?d 1000) = {}"
    "disksize (boot_bio ?d 1000) = 1000" by (simp_all add: boot_calm)
  then obtain i s' where "bread 3 ROOTDEV 5 (boot_bio ?d 1000) = Inr (i, s')"
    using calm_bread [OF c(1), of 5 3] by (auto simp: NBUF_def)
  moreover from this have "b_data (bufs s' ! i) = replicate BSIZE 7"
    using bread_returns_block [of "boot_bio ?d 1000" 5 3] c calmD(1) [OF c(1)] by simp
  ultimately show ?thesis by blast
qed

text \<open>
  C28.  The linked list implements least-recently-used replacement: brelse of the last reference
  relinks the buffer to the front of the list, with the order of the others unchanged, and bget
  of an uncached block recycles the free buffer that no other free buffer lies behind.
\<close>

theorem bcache_lru:
  assumes l: "lru_list (bufs s) xs" "set xs = {..<NBUF}" "length (bufs s) = Suc NBUF"
  shows "(i < NBUF \<and> sl_locked (b_lock (bufs s ! i)) \<and> refcnt (bufs s ! i) = 1 \<longrightarrow>
      (\<exists>s'. brelse i s = Inr s' \<and> lru_list (bufs s') (i # remove1 i xs))) \<and>
    (bget pid dev bn s = Inr (k, s') \<and> (\<forall>j<NBUF. \<not> is_block dev bn (bufs s) j) \<longrightarrow>
      (\<exists>ys zs. xs = ys @ k # zs \<and> is_free (bufs s) k \<and> (\<forall>z\<in>set zs. \<not> is_free (bufs s) z)))"
proof (intro conjI impI; elim conjE)
  assume i: "i < NBUF" "sl_locked (b_lock (bufs s ! i))" "refcnt (bufs s ! i) = 1"
  let ?b = "(bufs s ! i)\<lparr>b_lock := releasesleep (b_lock (bufs s ! i)), refcnt := 0\<rparr>"
  from i l obtain ys zs where sp: "xs = ys @ i # zs" by (metis lessThan_iff split_list)
  have "lru_list ((bufs s)[i := ?b]) (ys @ i # zs)" using l(1) sp by (simp add: lru_list_def nxt_def prv_def)
  then have "lru_list (mru_front i ((bufs s)[i := ?b])) (i # ys @ zs)"
    using l sp by (intro mru_front_lru) auto
  moreover have "brelse i s = Inr (s\<lparr>bufs := mru_front i ((bufs s)[i := ?b])\<rparr>)"
    using i l(3) by (simp add: brelse_def Let_def holdingsleep_def)
  moreover have "remove1 i xs = ys @ zs" using sp l(1) by (simp add: lru_list_def remove1_append)
  ultimately show "\<exists>s'. brelse i s = Inr s' \<and> lru_list (bufs s') (i # remove1 i xs)" by simp
next
  assume b: "bget pid dev bn s = Inr (k, s')" "\<forall>j<NBUF. \<not> is_block dev bn (bufs s) j"
  have n: "find (is_block dev bn (bufs s)) xs = None" using b(2) l(2) by (auto simp: find_None_iff)
  have f: "find (is_free (bufs s)) (rev xs) = Some k"
    using b(1) by (auto simp: bget_def Let_def scan_next_find [OF l(1)] scan_prev_find [OF l(1)] n lock_buf_def
        bindr_eq_Inr split: option.splits)
  then obtain m where m: "m < length xs" "is_free (bufs s) k" "k = rev xs ! m" "\<forall>j<m. \<not> is_free (bufs s) (rev xs ! j)"
    by (auto simp: find_Some_iff)
  have "rev xs = take m (rev xs) @ k # drop (Suc m) (rev xs)" using m by (simp add: id_take_nth_drop)
  then have "xs = rev (drop (Suc m) (rev xs)) @ k # rev (take m (rev xs))"
    by (metis append.assoc append_Cons append_Nil rev.simps(2) rev_append rev_rev_ident)
  moreover have "\<forall>z\<in>set (rev (take m (rev xs))). \<not> is_free (bufs s) z"
    using m by (auto simp: in_set_conv_nth)
  ultimately show "\<exists>ys zs. xs = ys @ k # zs \<and> is_free (bufs s) k \<and> (\<forall>z\<in>set zs. \<not> is_free (bufs s) z)"
    using m(2) by blast
qed

theorem bcache_lru_witness:
  "\<exists>i s1 s2. bread 3 ROOTDEV 5 (boot_bio (\<lambda>_. replicate BSIZE 7) 1000) = Inr (i, s1) \<and>
     brelse i s1 = Inr s2 \<and> lru_list (bufs s2) (i # remove1 i (rev [0..<NBUF]))"
proof -
  let ?d = "\<lambda>_. replicate BSIZE 7"
  let ?s = "boot_bio ?d 1000"
  have l: "lru_list (bufs ?s) (rev [0..<NBUF])" "length (bufs ?s) = Suc NBUF"
    using binit_lru by (simp_all add: boot_bio_def)
  have c: "calm {} ?s" "disksize ?s = 1000" by (simp_all add: boot_calm)
  have f: "b_dev (bufs ?s ! j) = 0" "refcnt (bufs ?s ! j) = 0" "\<not> b_dirty (bufs ?s ! j)" if "j < NBUF" for j
    using boot_fields [of j ?d 1000] that by simp_all
  have "\<forall>j<NBUF. \<not> is_block ROOTDEV 5 (bufs ?s) j" using f(1) by (simp add: is_block_def ROOTDEV_def)
  moreover have "\<exists>j<NBUF. is_free (bufs ?s) j" using f by (intro exI [of _ 0]) (simp add: is_free_def NBUF_def)
  ultimately obtain i where i: "i < NBUF" "bread 3 ROOTDEV 5 ?s = Inr (i, ?s\<lparr>bufs := (bufs ?s)[i := grab 3 5 (view ?s 5) (bufs ?s ! i)]\<rparr>)"
    using bread_miss [OF calmD(1) [OF c(1)], of 5 3] c(2) by auto
  let ?s1 = "?s\<lparr>bufs := (bufs ?s)[i := grab 3 5 (view ?s 5) (bufs ?s ! i)]\<rparr>"
  have "lru_list (bufs ?s1) (rev [0..<NBUF])" using l(1) by (simp add: lru_list_def nxt_def prv_def)
  moreover have "sl_locked (b_lock (bufs ?s1 ! i))" "refcnt (bufs ?s1 ! i) = 1" using i(1) l(2) f(2) by simp_all
  ultimately have "\<exists>s2. brelse i ?s1 = Inr s2 \<and> lru_list (bufs s2) (i # remove1 i (rev [0..<NBUF]))"
    using bcache_lru [of ?s1 "rev [0..<NBUF]" i 0 0 0 0 ?s1] i(1) l(2) by (auto simp: atLeast0LessThan)
  with i(2) show ?thesis by blast
qed

end
