(* ===== verification/Log.thy ===== *)
theory Log
  imports Bio
begin

text \<open>
  The write-ahead log (log.c): the in-memory header, the four loops between log area and home
  blocks, commit, recovery, and the reservation of log space by begin_op and end_op.  Every
  block transfer goes through the buffer cache, so the order of the disk writes is the one
  the cache's history records.
\<close>

definition LOGSIZE :: nat where "LOGSIZE = 30"
definition MAXOPBLOCKS :: nat where "MAXOPBLOCKS = 10"

record log =
  log_start :: u32
  log_size :: int
  outstanding :: int
  committing :: bool
  log_dev :: u32
  lh_n :: int
  lh_block :: "u32 list"

definition logged :: "log \<Rightarrow> u32 list" where
  "logged l = take (nat (lh_n l)) (lh_block l)"

definition logblk :: "log \<Rightarrow> nat \<Rightarrow> u32" where
  "logblk l tail = log_start l + of_nat tail + 1"

text \<open>The tail the two copy loops share: copy src to dst, write dst, release both.\<close>

definition copy_release :: "nat \<Rightarrow> nat \<Rightarrow> bio \<Rightarrow> bio res" where
  "copy_release src dst s =
     bindr (bwrite dst (set_data dst (b_data (bufs s ! src)) s)) (\<lambda>s.
     bindr (brelse src s) (\<lambda>s.
     brelse dst s))"

definition install_trans :: "int \<Rightarrow> log \<Rightarrow> bio \<Rightarrow> bio res" where
  "install_trans pid l = forM [0..<nat (lh_n l)] (\<lambda>tail s.
     bindr (bread pid (log_dev l) (logblk l tail) s) (\<lambda>(lbuf, s).
     bindr (bread pid (log_dev l) (lh_block l ! tail) s) (\<lambda>(dbuf, s).
     copy_release lbuf dbuf s)))"

definition write_log :: "int \<Rightarrow> log \<Rightarrow> bio \<Rightarrow> bio res" where
  "write_log pid l = forM [0..<nat (lh_n l)] (\<lambda>tail s.
     bindr (bread pid (log_dev l) (logblk l tail) s) (\<lambda>(to, s).
     bindr (bread pid (log_dev l) (lh_block l ! tail) s) (\<lambda>(from, s).
     copy_release from to s)))"

text \<open>
  The on-disk header: n at offset 0, block[i] at offset 4 + 4 i.  A header read from disk
  whose n exceeds LOGSIZE would be copied beyond log.lh.block.
\<close>

definition read_head :: "int \<Rightarrow> log \<times> bio \<Rightarrow> (log \<times> bio) res" where
  "read_head pid = (\<lambda>(l, s).
     bindr (bread pid (log_dev l) (log_start l) s) (\<lambda>(b, s).
     let d = b_data (bufs s ! b);
         n = sint (get32 d 0)
     in if n > int LOGSIZE then Inl (Undefined ''read_head: block[] overrun'')
        else let l = l\<lparr>lh_n := n,
                       lh_block := fold (\<lambda>i bl. bl[i := get32 d (4 + 4 * i)]) [0..<nat n] (lh_block l)\<rparr>
             in bindr (brelse b s) (\<lambda>s. Inr (l, s))))"

definition head_block :: "log \<Rightarrow> block \<Rightarrow> block" where
  "head_block l d = fold (\<lambda>i d. put32 d (4 + 4 * i) (lh_block l ! i)) [0..<nat (lh_n l)]
     (put32 d 0 (word_of_int (lh_n l)))"

definition write_head :: "int \<Rightarrow> log \<Rightarrow> bio \<Rightarrow> bio res" where
  "write_head pid l s =
     bindr (bread pid (log_dev l) (log_start l) s) (\<lambda>(b, s).
     bindr (bwrite b (set_data b (head_block l (b_data (bufs s ! b))) s)) (\<lambda>s.
     brelse b s))"

definition recover_from_log :: "int \<Rightarrow> log \<times> bio \<Rightarrow> (log \<times> bio) res" where
  "recover_from_log pid ls =
     bindr (read_head pid ls) (\<lambda>(l, s).
     bindr (install_trans pid l s) (\<lambda>s.
     let l = l\<lparr>lh_n := 0\<rparr> in
     bindr (write_head pid l s) (\<lambda>s. Inr (l, s))))"

definition commit :: "int \<Rightarrow> log \<times> bio \<Rightarrow> (log \<times> bio) res" where
  "commit pid = (\<lambda>(l, s).
     if lh_n l > 0 then
       bindr (write_log pid l s) (\<lambda>s.
       bindr (write_head pid l s) (\<lambda>s.
       bindr (install_trans pid l s) (\<lambda>s.
       let l = l\<lparr>lh_n := 0\<rparr> in
       bindr (write_head pid l s) (\<lambda>s. Inr (l, s)))))
     else Inr (l, s))"

definition begin_op :: "log \<Rightarrow> log res" where
  "begin_op l =
     (if committing l then Inl Blocked
      else if lh_n l + (outstanding l + 1) * int MAXOPBLOCKS > int LOGSIZE then Inl Blocked
      else Inr (l\<lparr>outstanding := outstanding l + 1\<rparr>))"

text \<open>end_op: the part under log.lock, which decides do_commit, then the commit.\<close>

definition end_op_enter :: "log \<Rightarrow> (bool \<times> log) res" where
  "end_op_enter l =
     (let l = l\<lparr>outstanding := outstanding l - 1\<rparr> in
      if committing l then Inl (Panic ''log.committing'')
      else if outstanding l = 0 then Inr (True, l\<lparr>committing := True\<rparr>)
      else Inr (False, l))"

definition end_op :: "int \<Rightarrow> log \<times> bio \<Rightarrow> (log \<times> bio) res" where
  "end_op pid = (\<lambda>(l, s).
     bindr (end_op_enter l) (\<lambda>(do_commit, l).
     if do_commit
     then bindr (commit pid (l, s)) (\<lambda>(l, s). Inr (l\<lparr>committing := False\<rparr>, s))
     else Inr (l, s)))"

text \<open>log_write: the slot the loop stops at, then the header and the buffer's B_DIRTY flag.\<close>

definition log_slot :: "log \<Rightarrow> u32 \<Rightarrow> nat" where
  "log_slot l bn = (case scan (\<lambda>b. b = bn) (logged l) of Some i \<Rightarrow> i | None \<Rightarrow> nat (lh_n l))"

definition log_write_head :: "u32 \<Rightarrow> log \<Rightarrow> log res" where
  "log_write_head bn l =
     (if lh_n l \<ge> int LOGSIZE \<or> lh_n l \<ge> log_size l - 1 then Inl (Panic ''too big a transaction'')
      else if outstanding l < 1 then Inl (Panic ''log_write outside of trans'')
      else let i = log_slot l bn
           in Inr (l\<lparr>lh_block := (lh_block l)[i := bn],
                     lh_n := (if int i = lh_n l then lh_n l + 1 else lh_n l)\<rparr>))"

definition log_write :: "nat \<Rightarrow> log \<times> bio \<Rightarrow> (log \<times> bio) res" where
  "log_write b = (\<lambda>(l, s).
     bindr (log_write_head (blockno (bufs s ! b)) l) (\<lambda>l.
     Inr (l, s\<lparr>bufs := (bufs s)[b := (bufs s ! b)\<lparr>b_dirty := True\<rparr>]\<rparr>)))"

section \<open>Sequences of block writes\<close>

definition apply_writes :: "(u32 \<times> block) list \<Rightarrow> (u32 \<Rightarrow> block) \<Rightarrow> u32 \<Rightarrow> block" where
  "apply_writes ws d = fold (\<lambda>(b, x) d. d(b := x)) ws d"

lemma apply_writes_simps [simp]:
  "apply_writes [] d = d"
  "apply_writes (w # ws) d = apply_writes ws (d(fst w := snd w))"
  "apply_writes (ws @ ws') d = apply_writes ws' (apply_writes ws d)"
  by (simp_all add: apply_writes_def case_prod_unfold)

lemma apply_writes_other: "b \<notin> fst ` set ws \<Longrightarrow> apply_writes ws d b = d b"
  by (induction ws arbitrary: d) auto

lemma apply_writes_at:
  "distinct (map fst ws) \<Longrightarrow> (b, x) \<in> set ws \<Longrightarrow> apply_writes ws d b = x"
proof (induction ws arbitrary: d)
  case (Cons w ws)
  show ?case
  proof (cases "w = (b, x)")
    case True
    with Cons.prems(1) have "b \<notin> fst ` set ws" by simp
    with True show ?thesis by (simp add: apply_writes_other)
  next
    case False
    then have "(b, x) \<in> set ws" "distinct (map fst ws)" using Cons.prems by simp_all
    with Cons.IH show ?thesis by (simp only: apply_writes_simps)
  qed
qed simp

lemma apply_writes_cong: "d b = d' b \<Longrightarrow> apply_writes ws d b = apply_writes ws d' b"
proof (induction ws arbitrary: d d')
  case (Cons w ws)
  show ?case unfolding apply_writes_simps by (rule Cons.IH) (simp add: Cons.prems)
qed simp

text \<open>
  From a quiet state the code ran to a quiet state and wrote the blocks ws, in that order:
  the disk, and what readers see, changed by exactly these writes.
\<close>

definition writes :: "(u32 \<times> block) list \<Rightarrow> bio \<Rightarrow> bio \<Rightarrow> bool" where
  "writes ws s s' \<longleftrightarrow> calm {} s' \<and> hist s' = hist s @ ws \<and> disk s' = apply_writes ws (disk s) \<and>
     view s' = apply_writes ws (view s) \<and> dirtyb s' = dirtyb s - fst ` set ws \<and> disksize s' = disksize s"

lemma writes_nil: "calm {} s \<Longrightarrow> writes [] s s"
  by (simp add: writes_def)

lemma writes_append: "writes ws s s1 \<Longrightarrow> writes ws' s1 s2 \<Longrightarrow> writes (ws @ ws') s s2"
  by (auto simp: writes_def)

lemma calm_clean_view: "calm {} s \<Longrightarrow> bn \<notin> dirtyb s \<Longrightarrow> view s bn = disk s bn"
proof (cases "\<exists>i<NBUF. is_block ROOTDEV bn (bufs s) i")
  case True
  assume c: "calm {} s" "bn \<notin> dirtyb s"
  from True obtain i where i: "i < NBUF" "is_block ROOTDEV bn (bufs s) i" by blast
  with c have "\<not> b_dirty (bufs s ! i)" "\<not> sl_locked (b_lock (bufs s ! i))" "buf_ok s (bufs s ! i)"
    by (auto simp: dirtyb_def calm_def bio_inv_def buf_ok_def)
  with i view_cached [OF calmD(1) [OF c(1)] i] show ?thesis by (auto simp: buf_ok_def is_block_def)
next
  case False
  then show ?thesis by (simp add: view_uncached)
qed

section \<open>Copying one block\<close>

lemma writesI:
  assumes "calm {} s'" "hist s' = hist s @ [(b, x)]" "disk s' = (disk s)(b := x)" "view s' = (view s)(b := x)"
    "dirtyb s' = dirtyb s - {b}" "disksize s' = disksize s"
  shows "writes [(b, x)] s s'"
  using assms by (simp add: writes_def)

lemma copy_release_spec:
  assumes c0: "calm {} s" and c: "calm {i, j} s2" and ij: "i \<noteq> j" and ne: "src \<noteq> dst"
    and i: "blockno (bufs s2 ! i) = src" "b_data (bufs s2 ! i) = view s src" "b_dirty (bufs s2 ! i) \<longleftrightarrow> src \<in> dirtyb s"
    and j: "blockno (bufs s2 ! j) = dst"
    and same: "view s2 = view s" "disk s2 = disk s" "hist s2 = hist s" "disksize s2 = disksize s" "dirtyb s2 = dirtyb s"
  shows "\<exists>s'. copy_release i j s2 = Inr s' \<and> writes [(dst, view s src)] s s'"
proof -
  have len: "length (view s src) = BSIZE" by (rule calm_view_length [OF c0])
  define s3 where "s3 = set_data j (view s src) s2"
  note s3 = calm_set_data [OF c insertI2 [OF singletonI] len, folded s3_def]
  obtain s4 where s4: "bwrite j s3 = Inr s4" "calm {i, j} s4" "view s4 = view s3" "dirtyb s4 = dirtyb s3 - {dst}"
    "disk s4 = (disk s3)(dst := view s src)" "hist s4 = hist s3 @ [(dst, view s src)]" "disksize s4 = disksize s3"
    "bufs s4 ! i = bufs s3 ! i" "\<not> b_dirty (bufs s4 ! j)" "b_data (bufs s4 ! j) = view s src" "blockno (bufs s4 ! j) = dst"
    using calm_bwrite [OF s3(1), of j] s3(4,5) j ij by auto
  have bi: "bufs s4 ! i = bufs s2 ! i" using s4(8) s3(7) ij by simp
  have "b_dirty (bufs s4 ! i) \<or> b_data (bufs s4 ! i) = disk s4 (blockno (bufs s4 ! i))"
    using i ne s4(5) s3(8) same(2) calm_clean_view [OF c0, of src] by (auto simp: bi)
  then obtain s5 where s5: "brelse i s4 = Inr s5" "calm ({i, j} - {i}) s5" "view s5 = view s4" "dirtyb s5 = dirtyb s4"
    "disk s5 = disk s4" "hist s5 = hist s4" "disksize s5 = disksize s4" "core (bufs s5 ! j) = core (bufs s4 ! j)"
    using calm_brelse [OF s4(2), of i] ij by auto
  have "b_dirty (bufs s5 ! j) \<or> b_data (bufs s5 ! j) = disk s5 (blockno (bufs s5 ! j))"
    using s5(5,8) s4(5,10,11) by (simp add: core_eq_iff)
  then obtain s6 where s6: "brelse j s5 = Inr s6" "calm ({i, j} - {i} - {j}) s6" "view s6 = view s5" "dirtyb s6 = dirtyb s5"
    "disk s6 = disk s5" "hist s6 = hist s5" "disksize s6 = disksize s5"
    using calm_brelse [OF s5(2), of j] ij by auto
  have "copy_release i j s2 = Inr s6"
    using s4(1) s5(1) s6(1) by (simp add: copy_release_def i(2) s3_def)
  moreover have "{i, j} - {i} - {j} = {}" by auto
  then have "calm {} s6" using s6(2) by (simp only:)
  then have "writes [(dst, view s src)] s s6"
    using s3 s4 s5 s6 same j by (intro writesI) simp_all
  ultimately show ?thesis by blast
qed

text \<open>Both loop bodies: the source and the destination are read in one order or the other.\<close>

lemma two_breads:
  assumes c: "calm {} s" and a: "a < disksize s" "b < disksize s" "a \<noteq> b"
    and room: "card (dirtyb s) < NBUF" "b \<in> dirtyb s \<or> Suc (card (dirtyb s)) < NBUF"
  shows "\<exists>i s1 j s2. bread pid ROOTDEV a s = Inr (i, s1) \<and> bread pid ROOTDEV b s1 = Inr (j, s2) \<and> i \<noteq> j \<and>
    calm {i, j} s2 \<and> blockno (bufs s2 ! i) = a \<and> b_data (bufs s2 ! i) = view s a \<and> (b_dirty (bufs s2 ! i) \<longleftrightarrow> a \<in> dirtyb s) \<and>
    blockno (bufs s2 ! j) = b \<and> b_data (bufs s2 ! j) = view s b \<and> (b_dirty (bufs s2 ! j) \<longleftrightarrow> b \<in> dirtyb s) \<and>
    view s2 = view s \<and> disk s2 = disk s \<and> hist s2 = hist s \<and> disksize s2 = disksize s \<and> dirtyb s2 = dirtyb s"
proof -
  obtain i s1 where 1: "bread pid ROOTDEV a s = Inr (i, s1)" "took {} s a i s1"
    using calm_bread [OF c a(1), of pid] room(1) by auto
  note t1 = 1(2)[unfolded took_def]
  have "\<exists>j s2. bread pid ROOTDEV b s1 = Inr (j, s2) \<and> took {i} s1 b j s2"
    by (rule calm_bread) (use t1 a room in auto)
  then obtain j s2 where 2: "bread pid ROOTDEV b s1 = Inr (j, s2)" "took {i} s1 b j s2" by blast
  note t2 = 2(2)[unfolded took_def]
  have ij: "i \<noteq> j" and c2: "calm {i, j} s2" using t2 by (auto simp: insert_commute)
  have bi: "bufs s2 ! i = bufs s1 ! i" using t2 ij by blast
  show ?thesis
    by (rule exI [of _ i], rule exI [of _ s1], rule exI [of _ j], rule exI [of _ s2])
      (use 1(1) 2(1) t1 t2 ij c2 in \<open>simp add: bi\<close>)
qed

lemma install_body:
  assumes c: "calm {} s" and a: "a < disksize s" "b < disksize s" "a \<noteq> b"
    and room: "card (dirtyb s) < NBUF" "b \<in> dirtyb s \<or> Suc (card (dirtyb s)) < NBUF"
  shows "\<exists>s'. bindr (bread pid ROOTDEV a s) (\<lambda>(lbuf, s). bindr (bread pid ROOTDEV b s) (\<lambda>(dbuf, s).
      copy_release lbuf dbuf s)) = Inr s' \<and> writes [(b, view s a)] s s'"
proof -
  from two_breads [OF assms, of pid] obtain i s1 j s2 where
    t: "bread pid ROOTDEV a s = Inr (i, s1)" "bread pid ROOTDEV b s1 = Inr (j, s2)" "i \<noteq> j" "calm {i, j} s2"
      "blockno (bufs s2 ! i) = a" "b_data (bufs s2 ! i) = view s a" "b_dirty (bufs s2 ! i) \<longleftrightarrow> a \<in> dirtyb s"
      "blockno (bufs s2 ! j) = b" "view s2 = view s" "disk s2 = disk s" "hist s2 = hist s"
      "disksize s2 = disksize s" "dirtyb s2 = dirtyb s" by blast
  from copy_release_spec [OF c t(4,3) a(3) t(5-13)] t(1,2) show ?thesis by simp
qed

lemma write_log_body:
  assumes c: "calm {} s" and a: "a < disksize s" "b < disksize s" "a \<noteq> b"
    and room: "card (dirtyb s) < NBUF" "b \<in> dirtyb s"
  shows "\<exists>s'. bindr (bread pid ROOTDEV a s) (\<lambda>(to, s). bindr (bread pid ROOTDEV b s) (\<lambda>(from, s).
      copy_release from to s)) = Inr s' \<and> writes [(a, view s b)] s s'"
proof -
  from two_breads [OF c a room(1) disjI1 [OF room(2)], of pid] obtain i s1 j s2 where
    t: "bread pid ROOTDEV a s = Inr (i, s1)" "bread pid ROOTDEV b s1 = Inr (j, s2)" "i \<noteq> j" "calm {i, j} s2"
      "blockno (bufs s2 ! i) = a" "blockno (bufs s2 ! j) = b" "b_data (bufs s2 ! j) = view s b"
      "b_dirty (bufs s2 ! j) \<longleftrightarrow> b \<in> dirtyb s" "view s2 = view s" "disk s2 = disk s" "hist s2 = hist s"
      "disksize s2 = disksize s" "dirtyb s2 = dirtyb s" by blast
  have "calm {j, i} s2" using t(4) by (simp add: insert_commute)
  from copy_release_spec [OF c this t(3)[symmetric] a(3)[symmetric] t(6-8) t(5) t(9-13)] t(1,2) show ?thesis by simp
qed

text \<open>Reading, changing and writing one block, as write_head does.\<close>

lemma rewrite_block:
  assumes c: "calm {} s" and a: "a < disksize s" and room: "card (dirtyb s) < NBUF"
    and f: "\<And>d. length d = BSIZE \<Longrightarrow> length (f d) = BSIZE"
  shows "\<exists>s'. bindr (bread pid ROOTDEV a s) (\<lambda>(b, s). bindr (bwrite b (set_data b (f (b_data (bufs s ! b))) s))
      (\<lambda>s. brelse b s)) = Inr s' \<and> writes [(a, f (view s a))] s s'"
proof -
  obtain i s1 where 1: "bread pid ROOTDEV a s = Inr (i, s1)" "took {} s a i s1"
    using calm_bread [OF c a, of pid] room by auto
  note t = 1(2)[unfolded took_def]
  have len: "length (f (view s a)) = BSIZE" by (rule f [OF calm_view_length [OF c]])
  define s3 where "s3 = set_data i (f (view s a)) s1"
  have ci: "calm {i} s1" using t by simp
  note s3 = calm_set_data [OF ci singletonI len, folded s3_def]
  obtain s4 where s4: "bwrite i s3 = Inr s4" "calm {i} s4" "view s4 = view s3" "dirtyb s4 = dirtyb s3 - {a}"
    "disk s4 = (disk s3)(a := f (view s a))" "hist s4 = hist s3 @ [(a, f (view s a))]" "disksize s4 = disksize s3"
    "b_data (bufs s4 ! i) = f (view s a)" "blockno (bufs s4 ! i) = a"
    using calm_bwrite [OF s3(1), of i] s3(4,5) t by auto
  then obtain s6 where s6: "brelse i s4 = Inr s6" "calm ({i} - {i}) s6" "view s6 = view s4" "dirtyb s6 = dirtyb s4"
    "disk s6 = disk s4" "hist s6 = hist s4" "disksize s6 = disksize s4"
    using calm_brelse [OF s4(2), of i] by auto
  have "writes [(a, f (view s a))] s s6"
    using s3 s4 s6 t by (intro writesI) simp_all
  moreover have "b_data (bufs s1 ! i) = view s a" using t by simp
  ultimately show ?thesis using 1(1) s4(1) s6(1) by (simp add: s3_def)
qed

section \<open>The header block\<close>

lemma head_block_fold:
  assumes "length d = BSIZE" "k \<le> LOGSIZE"
  shows "length (fold (\<lambda>i d. put32 d (4 + 4 * i) (f i)) [0..<k] d) = BSIZE \<and>
    get32 (fold (\<lambda>i d. put32 d (4 + 4 * i) (f i)) [0..<k] d) 0 = get32 d 0 \<and>
    (\<forall>i<k. get32 (fold (\<lambda>i d. put32 d (4 + 4 * i) (f i)) [0..<k] d) (4 + 4 * i) = f i)"
  using assms(2)
proof (induction k)
  case 0
  then show ?case using assms(1) by simp
next
  case (Suc k)
  define e where "e = fold (\<lambda>i d. put32 d (4 + 4 * i) (f i)) [0..<k] d"
  have e: "length e = BSIZE" "get32 e 0 = get32 d 0" "\<forall>i<k. get32 e (4 + 4 * i) = f i"
    using Suc by (simp_all add: e_def)
  have "get32 (put32 e (4 + 4 * k) (f k)) (4 + 4 * i) = f i" if "i < Suc k" for i
    using that e Suc.prems by (cases "i = k") (auto simp: BSIZE_def LOGSIZE_def)
  with e show ?case by (simp add: e_def [symmetric])
qed

lemma head_block_decode:
  assumes "length d = BSIZE" "0 \<le> lh_n l" "lh_n l \<le> int LOGSIZE"
  shows "length (head_block l d) = BSIZE" "sint (get32 (head_block l d) 0) = lh_n l"
    "i < nat (lh_n l) \<Longrightarrow> get32 (head_block l d) (4 + 4 * i) = lh_block l ! i"
proof -
  have p: "length (put32 d 0 (word_of_int (lh_n l))) = BSIZE"
    "get32 (put32 d 0 (word_of_int (lh_n l))) 0 = word_of_int (lh_n l)"
    using assms(1) by (simp_all add: BSIZE_def)
  have n: "nat (lh_n l) \<le> LOGSIZE" using assms(3) by simp
  note h = head_block_fold [OF p(1) n, of "\<lambda>i. lh_block l ! i", folded head_block_def]
  show "length (head_block l d) = BSIZE" using h by blast
  have "sint (word_of_int (lh_n l) :: u32) = lh_n l"
    using assms by (simp add: signed_of_int signed_take_bit_int_eq_self LOGSIZE_def)
  then show "sint (get32 (head_block l d) 0) = lh_n l" using h p(2) by simp
  show "i < nat (lh_n l) \<Longrightarrow> get32 (head_block l d) (4 + 4 * i) = lh_block l ! i" using h by blast
qed

lemma fold_update_take:
  "n \<le> length bl \<Longrightarrow> take n (fold (\<lambda>i bl. bl[i := f i]) [0..<n] bl) = map f [0..<n] \<and>
     length (fold (\<lambda>i bl. bl[i := f i]) [0..<n] bl) = length bl"
proof (induction n)
  case (Suc n)
  then show ?case by (simp add: take_Suc_conv_app_nth)
qed simp

section \<open>The log area\<close>

definition in_log :: "log \<Rightarrow> u32 \<Rightarrow> bool" where
  "in_log l b \<longleftrightarrow> unat (log_start l) \<le> unat b \<and> unat b < unat (log_start l) + nat (log_size l)"

text \<open>A header that fits its area, on a disk of sz blocks, and logs distinct blocks outside it.\<close>

definition log_geom :: "log \<Rightarrow> u32 \<Rightarrow> bool" where
  "log_geom l sz \<longleftrightarrow> log_dev l = ROOTDEV \<and> length (lh_block l) = LOGSIZE \<and> 0 \<le> lh_n l \<and> lh_n l \<le> int LOGSIZE \<and>
     nat (lh_n l) < NBUF \<and> lh_n l < log_size l \<and> unat (log_start l) + nat (log_size l) \<le> unat sz \<and>
     distinct (logged l) \<and> (\<forall>b\<in>set (logged l). b < sz \<and> \<not> in_log l b)"

lemma logblk_unat:
  assumes "log_geom l sz" "k < nat (lh_n l)"
  shows "unat (logblk l k) = unat (log_start l) + k + 1"
proof -
  have "nat (lh_n l) < nat (log_size l)" "unat (log_start l) + nat (log_size l) \<le> unat sz"
    using assms(1) by (auto simp: log_geom_def)
  with assms(2) unat_lt_u32 [of sz] have "unat (log_start l) + Suc k < 4294967296" by linarith
  then have "unat (log_start l) + Suc k < 2 ^ 32" by simp
  from unat_add_small [OF this] show ?thesis by (simp add: logblk_def add_ac)
qed

lemma logblk_facts:
  assumes g: "log_geom l sz" and k: "k < nat (lh_n l)"
  shows "in_log l (logblk l k)" "logblk l k < sz" "logblk l k \<noteq> log_start l"
proof -
  have a: "nat (lh_n l) < nat (log_size l)" "unat (log_start l) + nat (log_size l) \<le> unat sz"
    using g by (auto simp: log_geom_def)
  show "in_log l (logblk l k)" "logblk l k < sz"
    unfolding in_log_def word_less_nat_alt logblk_unat [OF g k] using a k by linarith+
  show "logblk l k \<noteq> log_start l" using logblk_unat [OF g k] by (metis add_cancel_right_right add.assoc add_is_0 one_neq_zero)
qed

lemma logblk_inj: "log_geom l sz \<Longrightarrow> j < nat (lh_n l) \<Longrightarrow> k < nat (lh_n l) \<Longrightarrow> logblk l j = logblk l k \<longleftrightarrow> j = k"
  by (metis logblk_unat add_left_cancel add_right_cancel)

lemma log_start_facts: "log_geom l sz \<Longrightarrow> in_log l (log_start l) \<and> log_start l < sz"
  by (auto simp: in_log_def log_geom_def word_less_nat_alt)

lemma logged_nth:
  assumes g: "log_geom l sz" and k: "k < nat (lh_n l)"
  shows "lh_block l ! k \<in> set (logged l)" "lh_block l ! k < sz" "\<not> in_log l (lh_block l ! k)"
    "j < nat (lh_n l) \<Longrightarrow> lh_block l ! j = lh_block l ! k \<longleftrightarrow> j = k"
proof -
  have n: "length (logged l) = nat (lh_n l)" "logged l ! k = lh_block l ! k"
    using g k by (auto simp: log_geom_def logged_def)
  then show 1: "lh_block l ! k \<in> set (logged l)" using k by (metis nth_mem)
  then show "lh_block l ! k < sz" "\<not> in_log l (lh_block l ! k)" using g by (auto simp: log_geom_def)
  show "j < nat (lh_n l) \<Longrightarrow> lh_block l ! j = lh_block l ! k \<longleftrightarrow> j = k"
    using g k n nth_eq_iff_index_eq [of "logged l" j k] by (auto simp: log_geom_def logged_def)
qed

lemma logged_map: "log_geom l sz \<Longrightarrow> logged l = map (\<lambda>k. lh_block l ! k) [0..<nat (lh_n l)]"
  by (rule nth_equalityI) (auto simp: log_geom_def logged_def)

lemma card_logged: "log_geom l sz \<Longrightarrow> card (set (logged l)) = nat (lh_n l)"
proof -
  assume g: "log_geom l sz"
  have "length (logged l) = nat (lh_n l)" by (subst logged_map [OF g]) simp
  with g distinct_card [of "logged l"] show ?thesis unfolding log_geom_def by simp
qed

section \<open>The loops\<close>

definition log_ws :: "log \<Rightarrow> (u32 \<Rightarrow> block) \<Rightarrow> (u32 \<times> block) list" where
  "log_ws l v = map (\<lambda>k. (logblk l k, v (lh_block l ! k))) [0..<nat (lh_n l)]"

definition home_ws :: "log \<Rightarrow> (u32 \<Rightarrow> block) \<Rightarrow> (u32 \<times> block) list" where
  "home_ws l v = map (\<lambda>k. (lh_block l ! k, v (logblk l k))) [0..<nat (lh_n l)]"

lemma write_log_spec:
  assumes g: "log_geom l (disksize s)" and c: "calm {} s" and d: "dirtyb s = set (logged l)"
  shows "\<exists>s'. write_log pid l s = Inr s' \<and> writes (log_ws l (view s)) s s'"
  unfolding write_log_def log_ws_def
proof (rule forM_upt [where I = "\<lambda>k s'. writes (map (\<lambda>k. (logblk l k, view s (lh_block l ! k))) [0..<k]) s s'"])
  fix k s' assume k: "k < nat (lh_n l)" and w: "writes (map (\<lambda>k. (logblk l k, view s (lh_block l ! k))) [0..<k]) s s'"
  note f = logblk_facts [OF g] and h = logged_nth [OF g]
  let ?ws = "map (\<lambda>k. (logblk l k, view s (lh_block l ! k))) [0..<k]"
  have fst: "fst ` set ?ws = logblk l ` {..<k}" by (simp add: image_image atLeast0LessThan)
  have notin: "lh_block l ! k \<notin> logblk l ` {..<k}" using f(1) h(3) k by fastforce
  then have v: "view s' (lh_block l ! k) = view s (lh_block l ! k)"
    using w fst by (simp add: writes_def apply_writes_other)
  have "set (logged l) \<inter> logblk l ` {..<k} = {}"
    using f(1) g k by (fastforce simp: log_geom_def)
  then have d': "dirtyb s' = set (logged l)" using w fst d by (auto simp: writes_def)
  have "logblk l k \<noteq> lh_block l ! k" using f(1) [OF k] h(3) [OF k] by metis
  then have "\<exists>s''. bindr (bread pid ROOTDEV (logblk l k) s') (\<lambda>(to, s). bindr (bread pid ROOTDEV (lh_block l ! k) s) (\<lambda>(from, s).
      copy_release from to s)) = Inr s'' \<and> writes [(logblk l k, view s' (lh_block l ! k))] s' s''"
    using w f(2) [OF k] h [OF k] d' card_logged [OF g] g
    by (intro write_log_body) (auto simp: writes_def log_geom_def)
  then show "\<exists>s''. bindr (bread pid (log_dev l) (logblk l k) s') (\<lambda>(to, s). bindr (bread pid (log_dev l) (lh_block l ! k) s)
      (\<lambda>(from, s). copy_release from to s)) = Inr s'' \<and>
      writes (map (\<lambda>k. (logblk l k, view s (lh_block l ! k))) [0..<Suc k]) s s''"
    using writes_append [OF w] v g by (auto simp: log_geom_def)
qed (use writes_nil [OF c] in auto)

lemma install_trans_spec:
  assumes g: "log_geom l (disksize s)" and c: "calm {} s" and d: "dirtyb s = set (logged l) \<or> dirtyb s = {}"
  shows "\<exists>s'. install_trans pid l s = Inr s' \<and> writes (home_ws l (view s)) s s'"
  unfolding install_trans_def home_ws_def
proof (rule forM_upt [where I = "\<lambda>k s'. writes (map (\<lambda>k. (lh_block l ! k, view s (logblk l k))) [0..<k]) s s'"])
  fix k s' assume k: "k < nat (lh_n l)" and w: "writes (map (\<lambda>k. (lh_block l ! k, view s (logblk l k))) [0..<k]) s s'"
  note f = logblk_facts [OF g] and h = logged_nth [OF g]
  let ?ws = "map (\<lambda>k. (lh_block l ! k, view s (logblk l k))) [0..<k]"
  have fst: "fst ` set ?ws = (\<lambda>j. lh_block l ! j) ` {..<k}" by (simp add: image_image atLeast0LessThan)
  have notin: "logblk l k \<notin> (\<lambda>j. lh_block l ! j) ` {..<k}"
  proof
    assume "logblk l k \<in> (\<lambda>j. lh_block l ! j) ` {..<k}"
    then obtain j where "j < k" "logblk l k = lh_block l ! j" by auto
    with f(1) [OF k] h(3) [of j] k show False by simp
  qed
  then have v: "view s' (logblk l k) = view s (logblk l k)"
    using w fst by (simp add: writes_def apply_writes_other)
  have d': "dirtyb s' = dirtyb s - (\<lambda>j. lh_block l ! j) ` {..<k}" using w fst by (auto simp: writes_def)
  have "card (dirtyb s') \<le> card (set (logged l))" using d d' by (auto intro: card_mono)
  then have room1: "card (dirtyb s') < NBUF" using card_logged [OF g] g by (simp add: log_geom_def)
  have room2: "lh_block l ! k \<in> dirtyb s' \<or> Suc (card (dirtyb s')) < NBUF"
  proof (cases "dirtyb s = {}")
    case True
    then show ?thesis using d' by (simp add: NBUF_def)
  next
    case False
    have "lh_block l ! k \<notin> (\<lambda>j. lh_block l ! j) ` {..<k}"
    proof
      assume "lh_block l ! k \<in> (\<lambda>j. lh_block l ! j) ` {..<k}"
      then obtain j where "j < k" "lh_block l ! j = lh_block l ! k" by auto
      with h(4) [OF k, of j] k show False by simp
    qed
    with False d d' h(1) [OF k] show ?thesis by auto
  qed
  have "logblk l k \<noteq> lh_block l ! k" using f(1) [OF k] h(3) [OF k] by metis
  then have "\<exists>s''. bindr (bread pid ROOTDEV (logblk l k) s') (\<lambda>(lbuf, s). bindr (bread pid ROOTDEV (lh_block l ! k) s) (\<lambda>(dbuf, s).
      copy_release lbuf dbuf s)) = Inr s'' \<and> writes [(lh_block l ! k, view s' (logblk l k))] s' s''"
    using w f(2) [OF k] h(2) [OF k] room1 room2 by (intro install_body) (auto simp: writes_def)
  then show "\<exists>s''. bindr (bread pid (log_dev l) (logblk l k) s') (\<lambda>(lbuf, s). bindr (bread pid (log_dev l) (lh_block l ! k) s)
      (\<lambda>(dbuf, s). copy_release lbuf dbuf s)) = Inr s'' \<and>
      writes (map (\<lambda>k. (lh_block l ! k, view s (logblk l k))) [0..<Suc k]) s s''"
    using writes_append [OF w] v g by (auto simp: log_geom_def)
qed (use writes_nil [OF c] in auto)

lemma write_head_spec:
  assumes g: "log_geom l (disksize s)" and c: "calm {} s" and room: "card (dirtyb s) < NBUF"
  shows "\<exists>s'. write_head pid l s = Inr s' \<and> writes [(log_start l, head_block l (view s (log_start l)))] s s'"
proof -
  have "log_dev l = ROOTDEV" "0 \<le> lh_n l" "lh_n l \<le> int LOGSIZE" using g by (simp_all add: log_geom_def)
  with rewrite_block [OF c conjunct2 [OF log_start_facts [OF g]] room, of "head_block l" pid] head_block_decode(1)
  show ?thesis by (simp add: write_head_def)
qed

lemma head_erase: "log_geom l sz \<Longrightarrow> log_geom (l\<lparr>lh_n := 0\<rparr>) sz"
  by (auto simp: log_geom_def logged_def)

text \<open>The disk writes of a commit: the log blocks, the header, the home blocks, the empty header.\<close>

definition commit_ws :: "log \<Rightarrow> (u32 \<Rightarrow> block) \<Rightarrow> (u32 \<times> block) list" where
  "commit_ws l v =
     (let h = head_block l (v (log_start l)) in
      log_ws l v @ [(log_start l, h)] @ map (\<lambda>b. (b, v b)) (logged l) @ [(log_start l, head_block (l\<lparr>lh_n := 0\<rparr>) h)])"

lemma log_ws_fst: "log_geom l sz \<Longrightarrow> b \<in> fst ` set (log_ws l v) \<Longrightarrow> in_log l b \<and> b \<noteq> log_start l"
  using logblk_facts [of l sz] by (auto simp: log_ws_def)

lemma log_ws_at:
  assumes g: "log_geom l sz" and k: "k < nat (lh_n l)"
  shows "apply_writes (log_ws l v) d (logblk l k) = v (lh_block l ! k)"
proof (rule apply_writes_at)
  have "map fst (log_ws l v) = map (logblk l) [0..<nat (lh_n l)]" by (simp add: log_ws_def)
  then show "distinct (map fst (log_ws l v))"
    using logblk_inj [OF g] by (simp add: distinct_map inj_on_def)
  show "(logblk l k, v (lh_block l ! k)) \<in> set (log_ws l v)" using k by (auto simp: log_ws_def)
qed

lemma home_ws_map:
  assumes g: "log_geom l sz" and v: "\<And>k. k < nat (lh_n l) \<Longrightarrow> v' (logblk l k) = v (lh_block l ! k)"
  shows "home_ws l v' = map (\<lambda>b. (b, v b)) (logged l)"
  using v by (simp add: home_ws_def logged_map [OF g])

lemma commit_spec:
  assumes g: "log_geom l (disksize s)" and c: "calm {} s" and d: "dirtyb s = set (logged l)" and n: "0 < lh_n l"
  shows "\<exists>s'. commit pid (l, s) = Inr (l\<lparr>lh_n := 0\<rparr>, s') \<and> writes (commit_ws l (view s)) s s'"
proof -
  let ?v = "view s" and ?st = "log_start l"
  let ?h = "head_block l (?v ?st)"
  note st = log_start_facts [OF g]
  have st_log: "?st \<notin> fst ` set (log_ws l ?v)" using log_ws_fst [OF g] by blast
  have log_in: "in_log l b" if "b \<in> fst ` set (log_ws l ?v)" for b using log_ws_fst [OF g that] by blast
  have out: "\<not> in_log l b" if "b \<in> set (logged l)" for b using g that by (auto simp: log_geom_def)
  obtain s1 where s1: "write_log pid l s = Inr s1" "writes (log_ws l ?v) s s1"
    using write_log_spec [OF g c d] by blast
  have d1: "dirtyb s1 = set (logged l)" using s1(2) d log_in out by (auto simp: writes_def)
  have c1: "calm {} s1" "disksize s1 = disksize s" "view s1 ?st = ?v ?st"
    using s1(2) st_log by (simp_all add: writes_def apply_writes_other)
  obtain s2 where s2: "write_head pid l s1 = Inr s2" "writes [(?st, ?h)] s1 s2"
    using write_head_spec [of l s1 pid] g c1 d1 card_logged [OF g] by (auto simp: log_geom_def)
  have d2: "dirtyb s2 = set (logged l)" using s2(2) d1 st out by (auto simp: writes_def)
  have c2: "calm {} s2" "disksize s2 = disksize s" using s2(2) c1 by (simp_all add: writes_def)
  have "view s2 (logblk l k) = ?v (lh_block l ! k)" if "k < nat (lh_n l)" for k
    using s1(2) s2(2) log_ws_at [OF g that] logblk_facts(3) [OF g that] by (simp add: writes_def)
  then have ws: "home_ws l (view s2) = map (\<lambda>b. (b, ?v b)) (logged l)" by (rule home_ws_map [OF g])
  obtain s3 where s3: "install_trans pid l s2 = Inr s3" "writes (map (\<lambda>b. (b, ?v b)) (logged l)) s2 s3"
    using install_trans_spec [of l s2 pid] g c2 d2 ws by auto
  have st_home: "?st \<notin> fst ` set (map (\<lambda>b. (b, ?v b)) (logged l))" using st out by auto
  have c3: "calm {} s3" "disksize s3 = disksize s" "view s3 ?st = ?h" "dirtyb s3 = {}"
    using s3(2) c2 s2(2) d2 st_home by (simp_all add: writes_def apply_writes_other image_image)
  obtain s4 where s4: "write_head pid (l\<lparr>lh_n := 0\<rparr>) s3 = Inr s4" "writes [(?st, head_block (l\<lparr>lh_n := 0\<rparr>) ?h)] s3 s4"
    using write_head_spec [of "l\<lparr>lh_n := 0\<rparr>" s3 pid] head_erase [OF g] c3 by (auto simp: NBUF_def)
  have "writes (commit_ws l ?v) s s4"
    using writes_append [OF s1(2) writes_append [OF s2(2) writes_append [OF s3(2) s4(2)]]]
    by (simp add: commit_ws_def Let_def)
  moreover have "commit pid (l, s) = Inr (l\<lparr>lh_n := 0\<rparr>, s4)"
    using n s1(1) s2(1) s3(1) s4(1) by (simp add: commit_def)
  ultimately show ?thesis by blast
qed

section \<open>Recovery\<close>

lemma read_block:
  assumes c: "calm {} s" and a: "a < disksize s" and room: "card (dirtyb s) < NBUF"
  shows "\<exists>i s1 s2. bread pid ROOTDEV a s = Inr (i, s1) \<and> b_data (bufs s1 ! i) = view s a \<and>
    brelse i s1 = Inr s2 \<and> writes [] s s2"
proof -
  obtain i s1 where 1: "bread pid ROOTDEV a s = Inr (i, s1)" "took {} s a i s1"
    using calm_bread [OF c a, of pid] room by auto
  note t = 1(2)[unfolded took_def]
  have ci: "calm {i} s1" using t by simp
  have "b_dirty (bufs s1 ! i) \<or> b_data (bufs s1 ! i) = disk s1 (blockno (bufs s1 ! i))"
    using t calm_clean_view [OF c, of a] by auto
  with calm_brelse [OF ci singletonI] obtain s2 where "brelse i s1 = Inr s2" "calm ({i} - {i}) s2"
    "view s2 = view s1" "dirtyb s2 = dirtyb s1" "disk s2 = disk s1" "hist s2 = hist s1" "disksize s2 = disksize s1" by auto
  with 1(1) t show ?thesis by (auto simp: writes_def)
qed

text \<open>The in-memory log header recovery reads from header block d.\<close>

definition head_of :: "log \<Rightarrow> block \<Rightarrow> log" where
  "head_of l d = l\<lparr>lh_n := sint (get32 d 0),
     lh_block := fold (\<lambda>i bl. bl[i := get32 d (4 + 4 * i)]) [0..<nat (sint (get32 d 0))] (lh_block l)\<rparr>"

lemma recover_spec:
  assumes g: "log_geom (head_of l (view s (log_start l))) (disksize s)" and c: "calm {} s" and d: "dirtyb s = {}"
  shows "\<exists>s' x. recover_from_log pid (l, s) = Inr (head_of l (view s (log_start l))\<lparr>lh_n := 0\<rparr>, s') \<and>
    writes (home_ws (head_of l (view s (log_start l))) (view s) @ [(log_start l, x)]) s s'"
proof -
  let ?l = "head_of l (view s (log_start l))"
  have st: "log_start ?l = log_start l" "log_dev ?l = log_dev l" by (simp_all add: head_of_def)
  have n: "\<not> sint (get32 (view s (log_start l)) 0) > int LOGSIZE" "log_dev l = ROOTDEV"
    using g by (auto simp: log_geom_def head_of_def)
  obtain i s1 s2 where r: "bread pid ROOTDEV (log_start l) s = Inr (i, s1)" "b_data (bufs s1 ! i) = view s (log_start l)"
    "brelse i s1 = Inr s2" "writes [] s s2"
    using read_block [OF c, of "log_start l" pid] log_start_facts [OF g] st d by (auto simp: NBUF_def)
  have "read_head pid (l, s) = Inr (?l, s2)"
    using r n by (simp add: read_head_def Let_def head_of_def)
  moreover have c2: "calm {} s2" "view s2 = view s" "disksize s2 = disksize s" "dirtyb s2 = {}"
    using r(4) d by (simp_all add: writes_def)
  moreover obtain s3 where s3: "install_trans pid ?l s2 = Inr s3" "writes (home_ws ?l (view s)) s2 s3"
    using install_trans_spec [of ?l s2 pid] g c2 by auto
  moreover obtain s4 x where "write_head pid (?l\<lparr>lh_n := 0\<rparr>) s3 = Inr s4" "writes [(log_start l, x)] s3 s4"
    using write_head_spec [of "?l\<lparr>lh_n := 0\<rparr>" s3 pid] head_erase [OF g] s3(2) c2 st by (auto simp: writes_def NBUF_def)
  ultimately show ?thesis
    using writes_append [OF r(4) writes_append [OF s3(2)]] by (auto simp: recover_from_log_def Let_def)
qed

section \<open>Crashes\<close>

text \<open>The log descriptor initlog builds after a restart: the same area, any header contents.\<close>

definition same_area :: "log \<Rightarrow> log \<Rightarrow> bool" where
  "same_area l0 l \<longleftrightarrow> log_start l0 = log_start l \<and> log_size l0 = log_size l \<and> log_dev l0 = log_dev l \<and>
     length (lh_block l0) = LOGSIZE"

text \<open>
  A transaction ready to commit: the cache is quiet, the dirty blocks are exactly the logged
  ones, and the header on disk says that no transaction is committed.
\<close>

definition log_ready :: "log \<Rightarrow> bio \<Rightarrow> bool" where
  "log_ready l s \<longleftrightarrow> log_geom l (disksize s) \<and> calm {} s \<and> dirtyb s = set (logged l) \<and>
     get32 (disk s (log_start l)) 0 = 0"

lemma prefix_cases:
  assumes "ws @ rest = A @ h # M @ [z]"
  obtains r where "A = ws @ r" | M' r where "M = M' @ r" "ws = A @ h # M'" | "ws = A @ h # M @ [z]"
proof -
  from assms consider us where "ws = A @ us" "us @ rest = h # M @ [z]" | us where "A = ws @ us"
    by (auto simp: append_eq_append_conv2)
  then show thesis
  proof cases
    case 1
    show ?thesis
    proof (cases us)
      case Nil
      then show ?thesis using 1 that(1) [of "[]"] by simp
    next
      case (Cons u us')
      with 1 have u: "u = h" "us' @ rest = M @ [z]" by auto
      show ?thesis
      proof (cases rest rule: rev_cases)
        case Nil
        then show ?thesis using u Cons 1 that(3) by simp
      next
        case (snoc rest' y)
        then have "M = us' @ rest'" using u(2) by simp
        then show ?thesis using Cons 1 u that(2) by simp
      qed
    qed
  next
    case 2
    then show ?thesis using that(1) by blast
  qed
qed

lemma head_of_empty:
  assumes g: "log_geom l sz" and a: "same_area l0 l" and d: "get32 d 0 = 0"
  shows "log_geom (head_of l0 d) sz" "home_ws (head_of l0 d) v = []"
  using g a d by (auto simp: head_of_def log_geom_def same_area_def logged_def home_ws_def)

lemma head_of_committed:
  assumes g: "log_geom l sz" and a: "same_area l0 l" and d: "length d = BSIZE"
  shows "log_geom (head_of l0 (head_block l d)) sz" "logged (head_of l0 (head_block l d)) = logged l"
    "lh_n (head_of l0 (head_block l d)) = lh_n l" "logblk (head_of l0 (head_block l d)) = logblk l"
proof -
  let ?l = "head_of l0 (head_block l d)" and ?n = "nat (lh_n l)"
  have n: "0 \<le> lh_n l" "lh_n l \<le> int LOGSIZE" using g by (auto simp: log_geom_def)
  note h = head_block_decode [OF d n]
  have f: "take ?n (lh_block ?l) = map (\<lambda>i. get32 (head_block l d) (4 + 4 * i)) [0..<?n]" "length (lh_block ?l) = LOGSIZE"
    using fold_update_take [of ?n "lh_block l0" "\<lambda>i. get32 (head_block l d) (4 + 4 * i)"] a n
    by (simp_all add: head_of_def h(2) same_area_def)
  show ln: "lh_n ?l = lh_n l" by (simp add: head_of_def h(2))
  show lg: "logged ?l = logged l"
    unfolding logged_map [OF g] using f h(3) by (simp add: logged_def ln)
  have "in_log ?l = in_log l" using a by (auto simp: in_log_def head_of_def same_area_def)
  then show "log_geom ?l sz"
    using g a f(2) lg ln by (simp add: log_geom_def same_area_def) (simp add: head_of_def)
  show "logblk ?l = logblk l" using a by (auto simp: logblk_def head_of_def same_area_def)
qed

text \<open>Recovery on a disk with an empty header leaves everything outside the log area alone.\<close>

lemma recover_old:
  assumes g: "log_geom l sz" and a: "same_area l0 l" and len: "\<And>b. length (d b) = BSIZE"
    and hd: "get32 (d (log_start l)) 0 = 0"
  shows "\<exists>l' s'. recover_from_log pid (l0, boot_bio d sz) = Inr (l', s') \<and>
    (\<forall>b. \<not> in_log l b \<longrightarrow> disk s' b = d b)"
proof -
  note bt = boot_calm [of d sz, OF len]
  have st: "log_start l0 = log_start l" using a by (simp add: same_area_def)
  note e = head_of_empty [OF g a hd]
  have "\<exists>s' x. recover_from_log pid (l0, boot_bio d sz) = Inr (head_of l0 (view (boot_bio d sz) (log_start l0))\<lparr>lh_n := 0\<rparr>, s') \<and>
    writes (home_ws (head_of l0 (view (boot_bio d sz) (log_start l0))) (view (boot_bio d sz)) @ [(log_start l0, x)]) (boot_bio d sz) s'"
    by (rule recover_spec) (use bt e st in simp_all)
  then obtain s' x where "recover_from_log pid (l0, boot_bio d sz) = Inr (head_of l0 (d (log_start l))\<lparr>lh_n := 0\<rparr>, s')"
    "writes [(log_start l, x)] (boot_bio d sz) s'" using bt e st by auto
  then show ?thesis using log_start_facts [OF g] bt by (auto simp: writes_def)
qed

text \<open>Recovery on a disk with a committed header installs the logged blocks.\<close>

lemma recover_new:
  assumes g: "log_geom l sz" and a: "same_area l0 l" and len: "\<And>b. length (d b) = BSIZE" "length e = BSIZE"
    and hd: "d (log_start l) = head_block l e" and lb: "\<And>k. k < nat (lh_n l) \<Longrightarrow> d (logblk l k) = v (lh_block l ! k)"
  shows "\<exists>l' s'. recover_from_log pid (l0, boot_bio d sz) = Inr (l', s') \<and>
    (\<forall>b. \<not> in_log l b \<longrightarrow> disk s' b = (if b \<in> set (logged l) then v b else d b))"
proof -
  note bt = boot_calm [of d sz, OF len(1)]
  have st: "log_start l0 = log_start l" using a by (simp add: same_area_def)
  let ?l = "head_of l0 (head_block l e)"
  note c = head_of_committed [OF g a len(2)]
  have nth: "lh_block ?l ! k = lh_block l ! k" if "k < nat (lh_n l)" for k
  proof -
    have "logged ?l ! k = logged l ! k" using c(2) by simp
    with that c(3) show ?thesis by (simp add: logged_def)
  qed
  have ws: "home_ws ?l d = map (\<lambda>b. (b, v b)) (logged l)"
    using home_ws_map [OF c(1), of d v] lb nth c(2-4) by simp
  have "\<exists>s' x. recover_from_log pid (l0, boot_bio d sz) = Inr (head_of l0 (view (boot_bio d sz) (log_start l0))\<lparr>lh_n := 0\<rparr>, s') \<and>
    writes (home_ws (head_of l0 (view (boot_bio d sz) (log_start l0))) (view (boot_bio d sz)) @ [(log_start l0, x)]) (boot_bio d sz) s'"
    by (rule recover_spec) (use bt c st hd in simp_all)
  then obtain s' x where r: "recover_from_log pid (l0, boot_bio d sz) = Inr (?l\<lparr>lh_n := 0\<rparr>, s')"
    "writes (map (\<lambda>b. (b, v b)) (logged l) @ [(log_start l, x)]) (boot_bio d sz) s'" using bt ws st hd by auto
  have "disk s' b = (if b \<in> set (logged l) then v b else d b)" if "\<not> in_log l b" for b
  proof -
    have "b \<noteq> log_start l" using that log_start_facts [OF g] by auto
    then have e: "disk s' b = apply_writes (map (\<lambda>b. (b, v b)) (logged l)) d b" using r(2) bt by (simp add: writes_def)
    show ?thesis
    proof (cases "b \<in> set (logged l)")
      case True
      then show ?thesis unfolding e using g
        by (simp add: apply_writes_at [where x = "v b"] log_geom_def comp_def)
    next
      case False
      then show ?thesis unfolding e by (simp add: apply_writes_other image_image)
    qed
  qed
  with r(1) show ?thesis by blast
qed

lemma apply_writes_length:
  "(\<And>b. length (d b) = n) \<Longrightarrow> (\<And>w. w \<in> set ws \<Longrightarrow> length (snd w) = n) \<Longrightarrow> length (apply_writes ws d b) = n"
proof (induction ws arbitrary: d)
  case (Cons w ws)
  show ?case unfolding apply_writes_simps by (rule Cons.IH) (use Cons.prems in auto)
qed simp

lemma commit_ws_length:
  assumes g: "log_geom l sz" and v: "\<And>b. length (v b) = BSIZE" and w: "w \<in> set (commit_ws l v)"
  shows "length (snd w) = BSIZE"
proof -
  have n: "0 \<le> lh_n l" "lh_n l \<le> int LOGSIZE" using g by (auto simp: log_geom_def)
  have h: "length (head_block l (v (log_start l))) = BSIZE" by (rule head_block_decode(1) [OF v n])
  have h0: "length (head_block (l\<lparr>lh_n := 0\<rparr>) (head_block l (v (log_start l)))) = BSIZE"
    by (rule head_block_decode(1) [OF h]) simp_all
  show ?thesis using w v h h0 by (auto simp: commit_ws_def Let_def log_ws_def)
qed

lemma crash_recovers:
  assumes r: "log_ready l s" and a: "same_area l0 l" and p: "ws @ rest = commit_ws l (view s)"
  shows "\<exists>l'' s''. recover_from_log pid (l0, boot_bio (apply_writes ws (disk s)) (disksize s)) = Inr (l'', s'') \<and>
    (\<forall>b. \<not> in_log l b \<longrightarrow> disk s'' b = (if log_start l \<in> fst ` set ws then view s b else disk s b))"
proof -
  let ?v = "view s" and ?st = "log_start l" and ?sz = "disksize s" and ?d = "apply_writes ws (disk s)"
  let ?h = "head_block l (?v ?st)" and ?M = "map (\<lambda>b. (b, view s b)) (logged l)"
  let ?z = "(?st, head_block (l\<lparr>lh_n := 0\<rparr>) ?h)"
  have g: "log_geom l ?sz" and c: "calm {} s" and dy: "dirtyb s = set (logged l)" and e: "get32 (disk s ?st) 0 = 0"
    using r by (auto simp: log_ready_def)
  have vl: "length (?v b) = BSIZE" for b by (rule calm_view_length [OF c])
  have dl: "length (disk s b) = BSIZE" for b using calmD(1) [OF c] by (simp add: bio_inv_def)
  have len: "length (?d b) = BSIZE" for b
  proof (rule apply_writes_length)
    show "length (snd w) = BSIZE" if "w \<in> set ws" for w
      using commit_ws_length [of l ?sz ?v w, OF g vl] that by (simp flip: p)
  qed (rule dl)
  have n: "0 \<le> lh_n l" "lh_n l \<le> int LOGSIZE" using g by (auto simp: log_geom_def)
  have st: "in_log l ?st" using log_start_facts [OF g] by blast
  have out: "\<not> in_log l b" if "b \<in> set (logged l)" for b using g that by (auto simp: log_geom_def)
  have clean: "view s b = disk s b" if "b \<notin> set (logged l)" for b using calm_clean_view [OF c] that dy by blast
  have A: "in_log l b \<and> b \<noteq> ?st" if "b \<in> fst ` set (log_ws l ?v)" for b using log_ws_fst [OF g that] .
  have "ws @ rest = log_ws l ?v @ (?st, ?h) # ?M @ [?z]" using p by (simp add: commit_ws_def Let_def)
  then show ?thesis
  proof (cases rule: prefix_cases)
    case (1 q)
    then have ws: "b \<in> fst ` set ws \<Longrightarrow> in_log l b \<and> b \<noteq> ?st" for b using A by auto
    have ns: "?st \<notin> fst ` set ws" using ws by blast
    then have hd: "get32 (?d ?st) 0 = 0" using e by (simp add: apply_writes_other)
    have same: "?d b = disk s b" if "\<not> in_log l b" for b
      by (rule apply_writes_other) (use ws that in blast)
    from recover_old [where d = ?d, OF g a len hd, of pid] same ns show ?thesis by simp
  next
    case (2 M' q)
    have M': "fst ` set M' \<subseteq> set (logged l)" using arg_cong [OF 2(1), of set] by auto
    have "?st \<notin> fst ` set M'" using M' out st by blast
    then have hd: "?d ?st = ?h" using 2(2) by (simp add: apply_writes_other)
    have lb: "?d (logblk l k) = ?v (lh_block l ! k)" if k: "k < nat (lh_n l)" for k
    proof -
      have "logblk l k \<notin> fst ` set M'" using logblk_facts(1) [OF g k] M' out by auto
      then show ?thesis using 2(2) log_ws_at [OF g k] logblk_facts(3) [OF g k] by (simp add: apply_writes_other)
    qed
    have "?d b = ?v b" if "\<not> in_log l b" "b \<notin> set (logged l)" for b
    proof -
      have "b \<notin> fst ` set ws" using that A st M' 2(2) by auto
      then show ?thesis using clean [OF that(2)] by (simp add: apply_writes_other)
    qed
    then have "(if b \<in> set (logged l) then ?v b else ?d b) = ?v b" if "\<not> in_log l b" for b using that by simp
    moreover have "?st \<in> fst ` set ws" using 2(2) by simp
    ultimately show ?thesis using recover_new [where d = ?d and v = ?v, OF g a len vl [of ?st] hd lb, of pid] by (simp cong: conj_cong)
  next
    case 3
    have l0: "length ?h = BSIZE" by (rule head_block_decode(1) [OF vl n])
    have "sint (get32 (?d ?st) 0) = 0"
      using 3 head_block_decode(2) [OF l0, of "l\<lparr>lh_n := 0\<rparr>"] by simp
    then have hd: "get32 (?d ?st) 0 = 0" by (metis signed_eq_0_iff)
    have "?d b = ?v b" if b: "\<not> in_log l b" for b
    proof -
      have "b \<noteq> ?st" using b st by auto
      then have "?d b = apply_writes ?M (apply_writes (log_ws l ?v) (disk s)) b"
        using 3 by (auto intro: apply_writes_cong)
      also have "\<dots> = ?v b"
      proof (cases "b \<in> set (logged l)")
        case True
        then show ?thesis using g by (simp add: apply_writes_at [where x = "?v b"] log_geom_def comp_def)
      next
        case False
        moreover have "b \<notin> fst ` set (log_ws l ?v)" using A b by blast
        ultimately show ?thesis using clean by (simp add: apply_writes_other image_image)
      qed
      finally show ?thesis .
    qed
    moreover have "?st \<in> fst ` set ws" using 3 by simp
    ultimately show ?thesis using recover_old [where d = ?d, OF g a len hd, of pid] by simp
  qed
qed

text \<open>
  C1.  Commit is atomic across crashes.  From a quiet cache whose dirty blocks are the logged
  ones, commit returns; and if the machine stops after any prefix ws of the block writes that
  commit issued, rebooting and running recover_from_log on the disk left behind returns, and
  every block outside the log area then holds its old contents if the header had not been
  written and its new contents if it had: all of the transaction or nothing of it.
\<close>

theorem commit_crash_atomic:
  assumes "log_ready l s" "0 < lh_n l" "same_area l0 l"
  shows "\<exists>l' s'. commit pid (l, s) = Inr (l', s') \<and>
    (\<forall>ws rest. hist s' = hist s @ ws @ rest \<longrightarrow>
      (\<exists>l'' s''. recover_from_log pid (l0, boot_bio (apply_writes ws (disk s)) (disksize s)) = Inr (l'', s'') \<and>
        (\<forall>b. \<not> in_log l b \<longrightarrow> disk s'' b = (if log_start l \<in> fst ` set ws then view s b else disk s b))))"
proof -
  from assms commit_spec [of l s pid] obtain s' where
    s': "commit pid (l, s) = Inr (l\<lparr>lh_n := 0\<rparr>, s')" "writes (commit_ws l (view s)) s s'"
    by (auto simp: log_ready_def)
  have "ws @ rest = commit_ws l (view s)" if "hist s' = hist s @ ws @ rest" for ws rest
    using s'(2) that by (simp add: writes_def)
  with s'(1) crash_recovers [OF assms(1,3)] show ?thesis by blast
qed

text \<open>
  C21.  Commit installs the transaction: the disk outside the log area then agrees with what
  readers saw before, readers see nothing change, no buffer is dirty any more and the state is
  ready for the next transaction.
\<close>

theorem commit_installs:
  assumes "log_ready l s" "0 < lh_n l"
  shows "\<exists>s'. commit pid (l, s) = Inr (l\<lparr>lh_n := 0\<rparr>, s') \<and> log_ready (l\<lparr>lh_n := 0\<rparr>) s' \<and>
    (\<forall>b. \<not> in_log l b \<longrightarrow> disk s' b = view s b \<and> view s' b = view s b)"
proof -
  have g: "log_geom l (disksize s)" and c: "calm {} s" and dy: "dirtyb s = set (logged l)"
    using assms by (auto simp: log_ready_def)
  from commit_spec [OF g c dy assms(2)] obtain s' where
    s': "commit pid (l, s) = Inr (l\<lparr>lh_n := 0\<rparr>, s')" "writes (commit_ws l (view s)) s s'" by blast
  let ?h = "head_block l (view s (log_start l))"
  let ?hz = "head_block (l\<lparr>lh_n := 0\<rparr>) ?h" and ?M = "map (\<lambda>b. (b, view s b)) (logged l)"
  have st: "in_log l (log_start l)" using log_start_facts [OF g] by blast
  have aw: "apply_writes (commit_ws l (view s)) f b = view s b" if b: "\<not> in_log l b" and f: "b \<notin> set (logged l) \<Longrightarrow> f b = view s b" for f b
  proof -
    have ne: "b \<noteq> log_start l" using b st by auto
    have A: "b \<notin> fst ` set (log_ws l (view s))" using log_ws_fst [OF g] b by blast
    have "apply_writes (commit_ws l (view s)) f b = apply_writes ?M (apply_writes (log_ws l (view s)) f) b"
      using ne by (auto simp: commit_ws_def Let_def intro: apply_writes_cong)
    also have "\<dots> = view s b"
    proof (cases "b \<in> set (logged l)")
      case True
      then show ?thesis using g by (simp add: apply_writes_at [where x = "view s b"] log_geom_def comp_def)
    next
      case False
      then show ?thesis using A f by (simp add: apply_writes_other image_image)
    qed
    finally show ?thesis .
  qed
  have 1: "disk s' b = view s b \<and> view s' b = view s b" if "\<not> in_log l b" for b
    using s'(2) aw [OF that, of "disk s"] aw [OF that, of "view s"] calm_clean_view [OF c, of b] dy by (simp add: writes_def)
  have dl: "disk s' (log_start l) = ?hz" using s'(2) by (simp add: writes_def commit_ws_def Let_def)
  have "length (view s (log_start l)) = BSIZE" by (rule calm_view_length [OF c])
  then have l0: "length ?h = BSIZE" using g by (intro head_block_decode(1)) (auto simp: log_geom_def)
  have "sint (get32 ?hz 0) = 0" using head_block_decode(2) [where d = ?h and l = "l\<lparr>lh_n := 0\<rparr>", OF l0] by simp
  then have z: "get32 (disk s' (log_start l)) 0 = 0" unfolding dl by (metis signed_eq_0_iff)
  have "set (logged l) \<subseteq> fst ` set (commit_ws l (view s))"
    by (auto simp: commit_ws_def Let_def image_Un image_image)
  then have "dirtyb s' = {}" using s'(2) dy by (auto simp: writes_def)
  then have "log_ready (l\<lparr>lh_n := 0\<rparr>) s'"
    using s'(2) z head_erase [OF g] by (simp add: log_ready_def writes_def logged_def)
  with s'(1) 1 show ?thesis by blast
qed

end
