(* ===== verification/LogOps.thy ===== *)
theory LogOps
  imports Log
begin

text \<open>
  System calls using the log: a block update inside a transaction (bread, modify, log_write,
  brelse), and the reservation of log space by begin_op and end_op when several system calls
  run concurrently.
\<close>

section \<open>Updating a block inside a transaction\<close>

text \<open>The use of the log that the comment above log_write prescribes.\<close>

definition logged_update :: "int \<Rightarrow> u32 \<Rightarrow> (block \<Rightarrow> block) \<Rightarrow> log \<times> bio \<Rightarrow> (log \<times> bio) res" where
  "logged_update pid bn f = (\<lambda>(l, s).
     bindr (bread pid ROOTDEV bn s) (\<lambda>(b, s).
     bindr (log_write b (l, set_data b (f (b_data (bufs s ! b))) s)) (\<lambda>(l, s).
     bindr (brelse b s) (\<lambda>s. Inr (l, s)))))"

lemma log_slot_cases:
  assumes "length (lh_block l) = LOGSIZE" "0 \<le> lh_n l" "lh_n l \<le> int LOGSIZE"
  shows "(bn \<in> set (logged l) \<and> log_slot l bn < nat (lh_n l) \<and> logged l ! log_slot l bn = bn) \<or>
         (bn \<notin> set (logged l) \<and> log_slot l bn = nat (lh_n l))"
proof (cases "scan (\<lambda>b. b = bn) (logged l)")
  case None
  then have "bn \<notin> set (logged l)" by (auto simp: scan_None)
  with None show ?thesis by (simp add: log_slot_def)
next
  case (Some i)
  note d = scan_SomeD [OF this]
  have "bn \<in> set (logged l)" using d(1,2) nth_mem by blast
  with Some d(1,2) show ?thesis by (simp add: log_slot_def logged_def)
qed

lemma log_write_head_logged:
  assumes l: "length (lh_block l) = LOGSIZE" "0 \<le> lh_n l" and n: "lh_n l < int LOGSIZE" "lh_n l < log_size l - 1"
    and o: "1 \<le> outstanding l"
  shows "\<exists>l'. log_write_head bn l = Inr l' \<and>
    logged l' = (if bn \<in> set (logged l) then logged l else logged l @ [bn]) \<and>
    lh_n l' = (if bn \<in> set (logged l) then lh_n l else lh_n l + 1) \<and> length (lh_block l') = LOGSIZE \<and>
    log_start l' = log_start l \<and> log_size l' = log_size l \<and> log_dev l' = log_dev l \<and>
    outstanding l' = outstanding l \<and> committing l' = committing l"
proof -
  let ?i = "log_slot l bn"
  have e: "log_write_head bn l = Inr (l\<lparr>lh_block := (lh_block l)[?i := bn],
      lh_n := (if int ?i = lh_n l then lh_n l + 1 else lh_n l)\<rparr>)"
    using n o by (simp add: log_write_head_def Let_def)
  consider "bn \<in> set (logged l)" "?i < nat (lh_n l)" "logged l ! ?i = bn" | "bn \<notin> set (logged l)" "?i = nat (lh_n l)"
    using log_slot_cases [OF l] n(1) by force
  then show ?thesis
  proof cases
    case 1
    then have "lh_block l ! ?i = bn" by (simp add: logged_def)
    then have "(lh_block l)[?i := bn] = lh_block l" by (metis list_update_id)
    with 1 e l show ?thesis by (simp add: logged_def)
  next
    case 2
    have "nat (lh_n l + 1) = Suc (nat (lh_n l))" using l by simp
    moreover have "nat (lh_n l) < length (lh_block l)" using l n by simp
    ultimately have "take (nat (lh_n l + 1)) ((lh_block l)[nat (lh_n l) := bn]) = take (nat (lh_n l)) (lh_block l) @ [bn]"
      by (simp add: take_Suc_conv_app_nth)
    with 2 e l show ?thesis by (simp add: logged_def)
  qed
qed

lemma logged_update_spec:
  assumes r: "log_ready l s" and o: "1 \<le> outstanding l"
    and n: "lh_n l < int LOGSIZE" "lh_n l < log_size l - 1" "log_size l \<le> int NBUF"
    and bn: "bn < disksize s" "\<not> in_log l bn" and f: "\<And>d. length d = BSIZE \<Longrightarrow> length (f d) = BSIZE"
  shows "\<exists>l' s'. logged_update pid bn f (l, s) = Inr (l', s') \<and> log_ready l' s' \<and>
    view s' = (view s)(bn := f (view s bn)) \<and> disk s' = disk s \<and> outstanding l' = outstanding l \<and>
    logged l' = (if bn \<in> set (logged l) then logged l else logged l @ [bn]) \<and>
    log_start l' = log_start l \<and> log_size l' = log_size l \<and> log_dev l' = log_dev l \<and> disksize s' = disksize s \<and> lh_n l' \<le> lh_n l + 1"
proof -
  have g: "log_geom l (disksize s)" and c: "calm {} s" and dy: "dirtyb s = set (logged l)"
    and hd: "get32 (disk s (log_start l)) 0 = 0" using r by (auto simp: log_ready_def)
  have room: "card (dirtyb s) < NBUF" using card_logged [OF g] g dy by (simp add: log_geom_def)
  obtain i s1 where 1: "bread pid ROOTDEV bn s = Inr (i, s1)" "took {} s bn i s1"
    using calm_bread [OF c bn(1), of pid] room by auto
  note t = 1(2)[unfolded took_def]
  have c1: "calm {i} s1" using t by simp
  have len: "length (f (view s bn)) = BSIZE" by (rule f [OF calm_view_length [OF c]])
  define s2 where "s2 = set_data i (f (view s bn)) s1"
  note s2 = calm_set_data [OF c1 singletonI len, folded s2_def]
  define b3 where "b3 = (bufs s2 ! i)\<lparr>b_dirty := True\<rparr>"
  define s3 where "s3 = s2\<lparr>bufs := (bufs s2)[i := b3]\<rparr>"
  note h = calm_held [OF s2(1) singletonI]
  have b3: "blockno b3 = bn" "b_data b3 = f (view s bn)" using s2 t by (simp_all add: b3_def)
  have s3: "calm {i} s3" "view s3 = (view s2)(bn := f (view s bn))" "dirtyb s3 = insert bn (dirtyb s2)"
    using calm_touch [OF s2(1) singletonI, of b3, folded s3_def] h b3 by (simp_all add: b3_def)
  have d3: "b_dirty (bufs s3 ! i)" using h(7) by (simp add: s3_def b3_def)
  obtain s4 where s4: "brelse i s3 = Inr s4" "calm ({i} - {i}) s4" "view s4 = view s3" "dirtyb s4 = dirtyb s3"
    "disk s4 = disk s3" "disksize s4 = disksize s3"
    using calm_brelse [OF s3(1) singletonI disjI1 [OF d3]] by auto
  have "length (lh_block l) = LOGSIZE" "0 \<le> lh_n l" using g by (auto simp: log_geom_def)
  from log_write_head_logged [OF this n(1,2) o, of bn] obtain l' where
    l': "log_write_head bn l = Inr l'" "logged l' = (if bn \<in> set (logged l) then logged l else logged l @ [bn])"
      "lh_n l' = (if bn \<in> set (logged l) then lh_n l else lh_n l + 1)" "length (lh_block l') = LOGSIZE"
      "log_start l' = log_start l" "log_size l' = log_size l" "log_dev l' = log_dev l" "outstanding l' = outstanding l"
    by blast
  have "in_log l' = in_log l" using l'(5,6) by (auto simp: in_log_def)
  then have "log_geom l' (disksize s)" using g l' n bn unfolding log_geom_def by (auto split: if_splits)
  then have "log_ready l' s4"
    using s4 s3 s2 t hd dy l'(2,5) by (auto simp: log_ready_def s3_def)
  moreover have "logged_update pid bn f (l, s) = Inr (l', s4)"
    using 1(1) s4(1) l'(1) s2(5) t by (simp add: logged_update_def log_write_def s2_def [symmetric] s3_def b3_def)
  moreover have "view s4 = (view s)(bn := f (view s bn))" using s4 s3 s2 t by simp
  moreover have "disk s4 = disk s" using s4 s2 t by (simp add: s3_def)
  moreover have "disksize s4 = disksize s" using s4 s2 t by (simp add: s3_def)
  moreover have "lh_n l' \<le> lh_n l + 1" using l'(3) by simp
  ultimately show ?thesis using l'(2,5-8) by blast
qed

text \<open>
  A block update inside a transaction: while the log has room, bread, modify, log_write and
  brelse succeed; every later reader sees the new contents, the disk is untouched, the block
  is logged exactly once (absorption), and the state stays ready to commit.
\<close>

theorem logged_update_ok:
  assumes r: "log_ready l s" and o: "1 \<le> outstanding l"
    and n: "lh_n l < int LOGSIZE" "lh_n l < log_size l - 1" "log_size l \<le> int NBUF"
    and bn: "bn < disksize s" "\<not> in_log l bn" and f: "\<And>d. length d = BSIZE \<Longrightarrow> length (f d) = BSIZE"
  shows "\<exists>l' s'. logged_update pid bn f (l, s) = Inr (l', s') \<and> log_ready l' s' \<and>
    view s' = (view s)(bn := f (view s bn)) \<and> disk s' = disk s \<and> outstanding l' = outstanding l \<and>
    logged l' = (if bn \<in> set (logged l) then logged l else logged l @ [bn])"
  using logged_update_spec [OF r o n bn, of f pid] f by blast

text \<open>A freshly booted system with one system call open, and the same after it logged block 40.\<close>

definition log_example :: log where
  "log_example = \<lparr>log_start = 2, log_size = 30, outstanding = 1, committing = False, log_dev = ROOTDEV,
     lh_n = 0, lh_block = replicate LOGSIZE 0\<rparr>"

definition bio_example :: bio where
  "bio_example = boot_bio (\<lambda>_. replicate BSIZE 0) 1000"

lemma log_example_ready: "log_ready log_example bio_example"
proof -
  have z: "get32 (replicate BSIZE 0) 0 = 0" by (simp add: get32_def BSIZE_def)
  have "log_geom log_example 1000"
    by (simp add: log_geom_def log_example_def logged_def NBUF_def)
  with z show ?thesis
    by (simp add: log_ready_def bio_example_def boot_calm log_example_def logged_def)
qed

theorem logged_update_ok_witness:
  "\<exists>l' s'. logged_update 7 40 (\<lambda>_. replicate BSIZE 5) (log_example, bio_example) = Inr (l', s') \<and>
     log_ready l' s' \<and> view s' 40 = replicate BSIZE 5 \<and> logged l' = [40]"
proof -
  have "disksize bio_example = 1000" by (simp add: bio_example_def boot_calm)
  then have "(40 :: u32) < disksize bio_example" by simp
  with logged_update_ok [OF log_example_ready, of 40 "\<lambda>_. replicate BSIZE 5" 7] show ?thesis
    by (fastforce simp: log_example_def LOGSIZE_def NBUF_def in_log_def logged_def)
qed

lemma log_example_pending:
  "\<exists>l s. log_ready l s \<and> 0 < lh_n l \<and> same_area log_example l \<and> view s 40 = replicate BSIZE 5 \<and> disk s 40 = replicate BSIZE 0 \<and>
     \<not> in_log l 40"
proof -
  have d: "disksize bio_example = 1000" "disk bio_example = (\<lambda>_. replicate BSIZE 0)" by (simp_all add: bio_example_def boot_calm)
  define b where "b = (40 :: u32)"
  have "b < disksize bio_example" "\<not> in_log log_example b" by (simp_all add: b_def d in_log_def log_example_def)
  then obtain l' s' where u: "log_ready l' s'" "view s' b = replicate BSIZE 5" "disk s' b = replicate BSIZE 0" "logged l' = [b]"
      "logged_update 7 b (\<lambda>_. replicate BSIZE 5) (log_example, bio_example) = Inr (l', s')"
    using logged_update_ok [OF log_example_ready, of b "\<lambda>_. replicate BSIZE 5" 7] d
    by (auto simp: log_example_def LOGSIZE_def NBUF_def logged_def)
  have geo: "log_start l' = log_start log_example" "log_size l' = log_size log_example" "log_dev l' = log_dev log_example"
    using u(5) by (auto simp: logged_update_def log_write_def log_write_head_def Let_def bindr_eq_Inr split: if_splits prod.splits)
  have "0 < lh_n l'" using u(4) by (cases "lh_n l' \<le> 0") (auto simp: logged_def)
  moreover have "same_area log_example l'" using geo by (simp add: same_area_def log_example_def)
  moreover have "\<not> in_log l' b" using geo by (simp add: in_log_def log_example_def b_def)
  ultimately show ?thesis using u unfolding b_def by blast
qed

theorem commit_crash_atomic_witness:
  "\<exists>l s l' s'. log_ready l s \<and> 0 < lh_n l \<and> commit 7 (l, s) = Inr (l', s') \<and>
     (\<exists>l'' s''. recover_from_log 7 (log_example, boot_bio (disk s') (disksize s)) = Inr (l'', s''))"
proof -
  obtain l s where p: "log_ready l s" "0 < lh_n l" "same_area log_example l" using log_example_pending by blast
  from commit_crash_atomic [OF p, of 7] obtain l' s' where
    c: "commit 7 (l, s) = Inr (l', s')" "\<And>ws rest. hist s' = hist s @ ws @ rest \<Longrightarrow>
      \<exists>l'' s''. recover_from_log 7 (log_example, boot_bio (apply_writes ws (disk s)) (disksize s)) = Inr (l'', s'')"
    by blast
  from commit_spec [of l s 7] p c(1) have w: "writes (commit_ws l (view s)) s s'" by (auto simp: log_ready_def)
  then have "hist s' = hist s @ commit_ws l (view s) @ []" "disk s' = apply_writes (commit_ws l (view s)) (disk s)"
    by (simp_all add: writes_def)
  with c(2) have "\<exists>l'' s''. recover_from_log 7 (log_example, boot_bio (disk s') (disksize s)) = Inr (l'', s'')" by metis
  with p c(1) show ?thesis by blast
qed

theorem commit_installs_witness:
  "\<exists>l s s'. log_ready l s \<and> 0 < lh_n l \<and> disk s 40 = replicate BSIZE 0 \<and>
     commit 7 (l, s) = Inr (l\<lparr>lh_n := 0\<rparr>, s') \<and> disk s' 40 = replicate BSIZE 5"
proof -
  obtain l s where p: "log_ready l s" "0 < lh_n l" "view s 40 = replicate BSIZE 5" "disk s 40 = replicate BSIZE 0" "\<not> in_log l 40"
    using log_example_pending by blast
  with commit_installs [OF p(1,2), of 7] show ?thesis by fastforce
qed

section \<open>Reservation of log space\<close>

text \<open>
  Several system calls between begin_op and end_op.  For each running call we keep the set of
  blocks it has passed to log_write; a call may log at most MAXOPBLOCKS distinct blocks.  The
  last end_op starts the commit, during which begin_op waits; commit empties the header (see
  commit_installs).
\<close>

record lsys =
  llog :: log
  lops :: "nat \<rightharpoonup> u32 set"
  committer :: "nat option"

inductive log_step :: "lsys \<Rightarrow> lsys \<Rightarrow> bool" where
  op_start: "\<lbrakk>lops s t = None; begin_op (llog s) = Inr l\<rbrakk> \<Longrightarrow> log_step s (s\<lparr>llog := l, lops := (lops s)(t \<mapsto> {})\<rparr>)"
| op_write: "\<lbrakk>lops s t = Some B; card (insert bn B) \<le> MAXOPBLOCKS; log_write_head bn (llog s) = Inr l\<rbrakk> \<Longrightarrow>
    log_step s (s\<lparr>llog := l, lops := (lops s)(t \<mapsto> insert bn B)\<rparr>)"
| op_finish: "\<lbrakk>lops s t = Some B; end_op_enter (llog s) = Inr (dc, l)\<rbrakk> \<Longrightarrow>
    log_step s (s\<lparr>llog := l, lops := (lops s)(t := None), committer := (if dc then Some t else committer s)\<rparr>)"
| op_committed: "committer s = Some t \<Longrightarrow>
    log_step s (s\<lparr>llog := (llog s)\<lparr>lh_n := 0, committing := False\<rparr>, committer := None\<rparr>)"

definition lsys_init :: "int \<Rightarrow> lsys" where
  "lsys_init sz = \<lparr>llog = \<lparr>log_start = 2, log_size = sz, outstanding = 0, committing = False, log_dev = ROOTDEV,
     lh_n = 0, lh_block = replicate LOGSIZE 0\<rparr>, lops = Map.empty, committer = None\<rparr>"

definition reserved :: "(nat \<rightharpoonup> u32 set) \<Rightarrow> nat" where
  "reserved ops = (\<Sum>t\<in>dom ops. MAXOPBLOCKS - card (the (ops t)))"

definition lsys_inv :: "lsys \<Rightarrow> bool" where
  "lsys_inv s \<longleftrightarrow> finite (dom (lops s)) \<and> outstanding (llog s) = int (card (dom (lops s))) \<and>
     0 \<le> lh_n (llog s) \<and> lh_n (llog s) + int (reserved (lops s)) \<le> int LOGSIZE \<and>
     length (lh_block (llog s)) = LOGSIZE \<and>
     (\<forall>t B. lops s t = Some B \<longrightarrow> finite B \<and> card B \<le> MAXOPBLOCKS \<and> B \<subseteq> set (logged (llog s))) \<and>
     (committing (llog s) \<longleftrightarrow> committer s \<noteq> None) \<and> (committer s \<noteq> None \<longrightarrow> dom (lops s) = {})"

lemma reserved_upd:
  assumes "finite (dom ops)"
  shows "reserved (ops(t \<mapsto> B)) = (MAXOPBLOCKS - card B) + reserved (ops(t := None))"
proof -
  let ?S = "dom ops - {t}" and ?f = "\<lambda>ops u. MAXOPBLOCKS - card (the (ops u))"
  have d: "dom (ops(t \<mapsto> B)) = insert t ?S" "dom (ops(t := None)) = ?S" by auto
  have "reserved (ops(t \<mapsto> B)) = ?f (ops(t \<mapsto> B)) t + sum (?f (ops(t \<mapsto> B))) ?S"
    unfolding reserved_def d using assms by (intro sum.insert) auto
  also have "sum (?f (ops(t \<mapsto> B))) ?S = reserved (ops(t := None))" unfolding reserved_def d by (rule sum.cong) auto
  finally show ?thesis by (simp only: fun_upd_same option.sel)
qed

lemma reserved_le: "finite (dom ops) \<Longrightarrow> reserved ops \<le> card (dom ops) * MAXOPBLOCKS"
  using sum_bounded_above [of "dom ops" "\<lambda>t. MAXOPBLOCKS - card (the (ops t))" MAXOPBLOCKS] by (simp add: reserved_def)

lemma reserved_drop: "finite (dom ops) \<Longrightarrow> reserved (ops(t := None)) \<le> reserved ops"
proof (cases "ops t")
  case None
  then have "ops(t := None) = ops" by auto
  then show ?thesis by simp
next
  case (Some B)
  assume "finite (dom ops)"
  with reserved_upd [of ops t B] Some show ?thesis by (simp add: fun_upd_idem)
qed

lemma reserved_some: "finite (dom ops) \<Longrightarrow> ops t = Some B \<Longrightarrow> reserved ops = (MAXOPBLOCKS - card B) + reserved (ops(t := None))"
  using reserved_upd [of ops t B] by (simp add: fun_upd_idem)

lemma log_write_head_Inr:
  assumes "log_write_head bn l = Inr l'" "length (lh_block l) = LOGSIZE" "0 \<le> lh_n l"
  shows "logged l' = (if bn \<in> set (logged l) then logged l else logged l @ [bn])"
    "lh_n l' = (if bn \<in> set (logged l) then lh_n l else lh_n l + 1)" "length (lh_block l') = LOGSIZE"
    "outstanding l' = outstanding l" "committing l' = committing l" "log_size l' = log_size l"
proof -
  have c: "lh_n l < int LOGSIZE" "lh_n l < log_size l - 1" "1 \<le> outstanding l"
    using assms(1) by (auto simp: log_write_head_def split: if_splits)
  from log_write_head_logged [OF assms(2,3) c, of bn] assms(1)
  show "logged l' = (if bn \<in> set (logged l) then logged l else logged l @ [bn])"
    "lh_n l' = (if bn \<in> set (logged l) then lh_n l else lh_n l + 1)" "length (lh_block l') = LOGSIZE"
    "outstanding l' = outstanding l" "committing l' = committing l" "log_size l' = log_size l" by auto
qed

lemma lsys_inv_step: "log_step s s' \<Longrightarrow> lsys_inv s \<Longrightarrow> lsys_inv s'"
proof (induction rule: log_step.induct)
  case (op_start s t l)
  then have l: "l = (llog s)\<lparr>outstanding := outstanding (llog s) + 1\<rparr>" "\<not> committing (llog s)"
    "lh_n (llog s) + (outstanding (llog s) + 1) * int MAXOPBLOCKS \<le> int LOGSIZE"
    by (auto simp: begin_op_def split: if_splits)
  have fin: "finite (dom (lops s))" and o: "outstanding (llog s) = int (card (dom (lops s)))"
    using op_start by (auto simp: lsys_inv_def)
  have t: "t \<notin> dom (lops s)" using op_start by auto
  have "reserved ((lops s)(t \<mapsto> {})) \<le> card (dom ((lops s)(t \<mapsto> {}))) * MAXOPBLOCKS"
    by (rule reserved_le) (simp add: fin)
  also have "\<dots> = (card (dom (lops s)) + 1) * MAXOPBLOCKS" using t fin by simp
  finally have "int (reserved ((lops s)(t \<mapsto> {}))) \<le> int ((card (dom (lops s)) + 1) * MAXOPBLOCKS)" by linarith
  then have "lh_n (llog s) + int (reserved ((lops s)(t \<mapsto> {}))) \<le> int LOGSIZE" using l(3) o by (simp add: algebra_simps)
  with op_start l t fin o show ?case by (auto simp: lsys_inv_def logged_def)
next
  case (op_write s t B bn l)
  have inv: "finite (dom (lops s))" "length (lh_block (llog s)) = LOGSIZE" "0 \<le> lh_n (llog s)"
    "finite B" "B \<subseteq> set (logged (llog s))" "lh_n (llog s) + int (reserved (lops s)) \<le> int LOGSIZE"
    using op_write by (auto simp: lsys_inv_def)
  note h = log_write_head_Inr [OF op_write(3) inv(2,3)]
  note rs = reserved_some [OF inv(1) op_write(1)] reserved_upd [OF inv(1), of t "insert bn B"]
  have fit: "lh_n l + int (reserved ((lops s)(t \<mapsto> insert bn B))) \<le> int LOGSIZE"
  proof (cases "bn \<in> set (logged (llog s))")
    case True
    have "card B \<le> card (insert bn B)" using inv(4) by (simp add: card_insert_if)
    then show ?thesis using True h(2) rs inv(6) by simp
  next
    case False
    then have "card (insert bn B) = Suc (card B)" using inv(4,5) by (auto simp: card_insert_if)
    then show ?thesis using False h(2) rs inv(6) op_write(2) by simp
  qed
  have sub: "set (logged (llog s)) \<subseteq> set (logged l)" "bn \<in> set (logged l)" using h(1) by auto
  have "dom ((lops s)(t \<mapsto> insert bn B)) = dom (lops s)" using op_write(1) by auto
  moreover have "finite B' \<and> card B' \<le> MAXOPBLOCKS \<and> B' \<subseteq> set (logged l)"
    if "((lops s)(t \<mapsto> insert bn B)) t' = Some B'" for t' B'
  proof (cases "t' = t")
    case True
    then show ?thesis using that inv(4,5) sub op_write(2) by auto
  next
    case False
    then have "lops s t' = Some B'" using that by simp
    with op_write(4) have "finite B' \<and> card B' \<le> MAXOPBLOCKS \<and> B' \<subseteq> set (logged (llog s))"
      unfolding lsys_inv_def by blast
    with sub show ?thesis by blast
  qed
  moreover have "0 \<le> lh_n l" using h(2) inv(3) by simp
  moreover have "committer s = None" using op_write(1,4) by (auto simp: lsys_inv_def)
  ultimately show ?case using op_write(4) fit h(3-5) unfolding lsys_inv_def by simp
next
  case (op_finish s t B dc l)
  have inv: "finite (dom (lops s))" "outstanding (llog s) = int (card (dom (lops s)))" "\<not> committing (llog s)"
    using op_finish by (auto simp: lsys_inv_def end_op_enter_def split: if_splits)
  have t: "t \<in> dom (lops s)" using op_finish by auto
  have c: "int (card (dom (lops s) - {t})) = outstanding (llog s) - 1"
    using inv t by (simp add: card_Diff_singleton) (metis card_gt_0_iff empty_iff of_nat_diff of_nat_1 One_nat_def Suc_leI)
  have r: "reserved ((lops s)(t := None)) \<le> reserved (lops s)" by (rule reserved_drop [OF inv(1)])
  have e: "outstanding (llog s) - 1 = 0 \<longleftrightarrow> dom (lops s) - {t} = {}"
    unfolding c [symmetric] using inv(1) by simp
  have dc: "dc \<longleftrightarrow> dom (lops s) - {t} = {}" "l = (llog s)\<lparr>outstanding := outstanding (llog s) - 1, committing := dc\<rparr>"
    using op_finish(2) inv(3) unfolding e [symmetric] by (auto simp: end_op_enter_def Let_def split: if_splits)
  have cm: "committer s = None" using op_finish(3) inv(3) by (simp add: lsys_inv_def)
  show ?case
    using op_finish(3) r c dc cm inv(1) unfolding lsys_inv_def by (auto simp: logged_def)
next
  case (op_committed s t)
  then have "dom (lops s) = {}" by (simp add: lsys_inv_def)
  then have "lops s = Map.empty" by simp
  with op_committed show ?case by (auto simp: lsys_inv_def reserved_def)
qed

definition lsys_reach :: "int \<Rightarrow> lsys \<Rightarrow> bool" where
  "lsys_reach sz s \<longleftrightarrow> log_step\<^sup>*\<^sup>* (lsys_init sz) s"

lemma lsys_reach_step: "lsys_reach sz s \<Longrightarrow> log_step s s' \<Longrightarrow> lsys_reach sz s'"
  unfolding lsys_reach_def by (rule rtranclp.rtrancl_into_rtrancl)

lemma log_step_size: "log_step s s' \<Longrightarrow> log_size (llog s') = log_size (llog s)"
  by (induction rule: log_step.induct)
    (auto simp: begin_op_def log_write_head_def end_op_enter_def Let_def split: if_splits)

lemma lsys_reach_inv: "lsys_reach sz s \<Longrightarrow> lsys_inv s \<and> log_size (llog s) = sz"
  unfolding lsys_reach_def
proof (induction rule: rtranclp_induct)
  case base
  show ?case by (simp add: lsys_inv_def lsys_init_def reserved_def)
next
  case (step y z)
  then show ?case using lsys_inv_step log_step_size by metis
qed


text \<open>A running call logging several fresh blocks one after the other.\<close>

lemma log_burst:
  assumes "lsys_reach sz s" "lops s t = Some B" "distinct bs" "set bs \<inter> set (logged (llog s)) = {}"
    "card B + length bs \<le> MAXOPBLOCKS" "lh_n (llog s) + int (length bs) \<le> int LOGSIZE" "lh_n (llog s) + int (length bs) < sz"
  shows "\<exists>s'. lsys_reach sz s' \<and> lops s' = (lops s)(t \<mapsto> B \<union> set bs) \<and> logged (llog s') = logged (llog s) @ bs \<and>
    lh_n (llog s') = lh_n (llog s) + int (length bs) \<and> outstanding (llog s') = outstanding (llog s)"
  using assms
proof (induction bs arbitrary: s B)
  case Nil
  then show ?case by (auto simp: fun_upd_idem)
next
  case (Cons b bs)
  have inv: "lsys_inv s" "log_size (llog s) = sz" using lsys_reach_inv [OF Cons.prems(1)] by auto
  have i: "length (lh_block (llog s)) = LOGSIZE" "0 \<le> lh_n (llog s)" "outstanding (llog s) = int (card (dom (lops s)))"
    "finite (dom (lops s))" "finite B" "B \<subseteq> set (logged (llog s))" using inv(1) Cons.prems(2) by (auto simp: lsys_inv_def)
  have t: "t \<in> dom (lops s)" using Cons.prems(2) by auto
  then have o: "1 \<le> outstanding (llog s)" using i(3,4) by (auto simp: Suc_le_eq card_gt_0_iff)
  have b: "b \<notin> set (logged (llog s))" "b \<notin> B" using Cons.prems(4) i(6) by auto
  have n: "lh_n (llog s) < int LOGSIZE" "lh_n (llog s) < log_size (llog s) - 1" using Cons.prems(6,7) inv(2) by auto
  from log_write_head_logged [OF i(1,2) n o, of b] b obtain l where
    l: "log_write_head b (llog s) = Inr l" "logged l = logged (llog s) @ [b]" "lh_n l = lh_n (llog s) + 1"
      "outstanding l = outstanding (llog s)" by auto
  let ?s = "s\<lparr>llog := l, lops := (lops s)(t \<mapsto> insert b B)\<rparr>"
  have c: "card (insert b B) = Suc (card B)" using b i(5) by simp
  then have "log_step s ?s" using l(1) Cons.prems(2,5) by (intro op_write) auto
  then have r: "lsys_reach sz ?s" by (rule lsys_reach_step [OF Cons.prems(1)])
  have "\<exists>s'. lsys_reach sz s' \<and> lops s' = (lops ?s)(t \<mapsto> insert b B \<union> set bs) \<and> logged (llog s') = logged (llog ?s) @ bs \<and>
    lh_n (llog s') = lh_n (llog ?s) + int (length bs) \<and> outstanding (llog s') = outstanding (llog ?s)"
    by (rule Cons.IH [OF r]) (use Cons.prems l c in auto)
  then show ?case using l by auto
qed

lemma log_begin3:
  "\<exists>s. lsys_reach sz s \<and> lops s = [0 \<mapsto> {}, 1 \<mapsto> {}, 2 \<mapsto> {}] \<and> lh_n (llog s) = 0"
proof -
  let ?l = "\<lambda>k. (llog (lsys_init sz))\<lparr>outstanding := k\<rparr>"
  let ?s = "\<lambda>k ops. (lsys_init sz)\<lparr>llog := ?l k, lops := ops\<rparr>"
  have b: "begin_op (?l k) = Inr (?l (k + 1))" if "k \<le> 2" for k
    using that by (simp add: begin_op_def lsys_init_def MAXOPBLOCKS_def LOGSIZE_def)
  have 0: "lsys_reach sz (?s 0 Map.empty)" by (simp add: lsys_reach_def lsys_init_def)
  have step: "lsys_reach sz (?s (k + 1) (ops(t \<mapsto> {})))" if "lsys_reach sz (?s k ops)" "ops t = None" "k \<le> 2" for k ops t
    using op_start [of "?s k ops" t "?l (k + 1)"] b [OF that(3)] that(2) lsys_reach_step [OF that(1)] by simp
  have "lsys_reach sz (?s 3 [0 \<mapsto> {}, 1 \<mapsto> {}, 2 \<mapsto> {}])"
    using step [OF step [OF step [OF 0, of 0], of 1], of 2] by simp
  then show ?thesis by (intro exI [of _ "?s 3 [0 \<mapsto> {}, 1 \<mapsto> {}, 2 \<mapsto> {}]"]) (simp add: lsys_init_def)
qed

text \<open>Three calls that log ten, ten and nine distinct blocks.\<close>

lemma log_three_bursts:
  assumes "30 \<le> sz"
  shows "\<exists>s B. lsys_reach sz s \<and> lops s 2 = Some B \<and> card B = 9 \<and> lh_n (llog s) = 29 \<and> 1 \<le> outstanding (llog s)"
proof -
  define blks :: "nat \<Rightarrow> nat \<Rightarrow> u32 list" where "blks a k = map of_nat [a..<a + k]" for a k
  have d: "distinct (blks a k)" "length (blks a k) = k" if "a + k \<le> 1000" for a k
    using that by (auto simp: blks_def distinct_map inj_on_def word_of_nat_eq_iff take_bit_eq_mod)
  have dj: "set (blks a k) \<inter> set (blks b m) = {}" if "a + k \<le> b" "b + m \<le> 1000" for a b k m
    using that by (auto simp: blks_def word_of_nat_eq_iff take_bit_eq_mod)
  obtain s0 where s0: "lsys_reach sz s0" "lops s0 = [0 \<mapsto> {}, 1 \<mapsto> {}, 2 \<mapsto> {}]" "lh_n (llog s0) = 0"
    using log_begin3 by blast
  then have n0: "logged (llog s0) = []" by (simp add: logged_def)
  obtain s1 where s1: "lsys_reach sz s1" "lops s1 = (lops s0)(0 \<mapsto> set (blks 100 10))" "logged (llog s1) = blks 100 10"
    "lh_n (llog s1) = 10"
    using log_burst [OF s0(1), of 0 "{}" "blks 100 10"] s0 n0 d [of 100 10] assms by (auto simp: MAXOPBLOCKS_def LOGSIZE_def)
  obtain s2 where s2: "lsys_reach sz s2" "lops s2 = (lops s1)(1 \<mapsto> set (blks 110 10))" "logged (llog s2) = blks 100 10 @ blks 110 10"
    "lh_n (llog s2) = 20"
    using log_burst [OF s1(1), of 1 "{}" "blks 110 10"] s0 s1 d [of 110 10] dj [of 100 10 110 10] assms
    by (auto simp: MAXOPBLOCKS_def LOGSIZE_def Int_commute)
  have dj2: "set (blks 120 9) \<inter> set (logged (llog s2)) = {}" using s2(3) dj [of 100 10 120 9] dj [of 110 10 120 9] by auto
  obtain s3 where s3: "lsys_reach sz s3" "lops s3 = (lops s2)(2 \<mapsto> set (blks 120 9))" "lh_n (llog s3) = 29"
    using log_burst [OF s2(1), of 2 "{}" "blks 120 9"] s0 s1 s2 d [of 120 9] dj2 assms
    by (auto simp: MAXOPBLOCKS_def LOGSIZE_def)
  have "card (set (blks 120 9)) = 9" using d [of 120 9] by (simp add: distinct_card)
  moreover have "2 \<in> dom (lops s3)" using s3(2) by simp
  then have "1 \<le> outstanding (llog s3)"
    using lsys_reach_inv [OF s3(1)] by (auto simp: lsys_inv_def Suc_le_eq card_gt_0_iff)
  ultimately show ?thesis using s3 by (intro exI [of _ s3] exI [of _ "set (blks 120 9)"]) simp
qed

text \<open>
  The area mkfs makes is one block too small for that reservation: with log.size = LOGSIZE
  (which counts the header block) there is a reachable state in which a call that has logged
  nine blocks, one below the limit every call is promised, panics on its tenth.
\<close>

theorem log_reservation_off_by_one:
  "\<exists>s t B bn. lsys_reach (int LOGSIZE) s \<and> lops s t = Some B \<and> card B < MAXOPBLOCKS \<and>
     log_write_head bn (llog s) = Inl (Panic ''too big a transaction'')"
proof -
  obtain s B where s: "lsys_reach (int LOGSIZE) s" "lops s 2 = Some B" "card B = 9" "lh_n (llog s) = 29"
    using log_three_bursts [of "int LOGSIZE"] by (auto simp: LOGSIZE_def)
  then have "log_size (llog s) = int LOGSIZE" using lsys_reach_inv by blast
  then have "log_write_head 0 (llog s) = Inl (Panic ''too big a transaction'')"
    using s(4) by (simp add: log_write_head_def LOGSIZE_def)
  with s show ?thesis by (intro exI [of _ s] exI [of _ 2] exI [of _ B] exI [of _ 0]) (simp add: MAXOPBLOCKS_def)
qed


end
