(* ===== verification/Locks.thy ===== *)
theory Locks
  imports Prelude
begin

text \<open>
  Spin locks and the interrupt discipline (spinlock.c).  Every processor has an interrupt
  flag and the nesting counter of pushcli; the machine is the processors and the locks.
  Several processors run at once, so taking a lock is two transitions: entering the spin
  loop, and the atomic exchange that finds the lock free.
\<close>

section \<open>Definitions\<close>

record cpu =
  ncli :: int
  intena :: bool
  eflags_IF :: bool

record spinlock =
  locked :: bool
  lk_cpu :: "nat option"

record machine =
  cpus :: "cpu list"
  slocks :: "spinlock list"

definition initlock :: spinlock where
  "initlock = \<lparr>locked = False, lk_cpu = None\<rparr>"

definition pushcli :: "nat \<Rightarrow> machine \<Rightarrow> machine" where
  "pushcli c m =
     (let cp = cpus m ! c;
          eflags = eflags_IF cp;
          cp1 = cp\<lparr>eflags_IF := False\<rparr>;
          cp2 = (if ncli cp1 = 0 then cp1\<lparr>intena := eflags\<rparr> else cp1)
      in m\<lparr>cpus := (cpus m)[c := cp2\<lparr>ncli := ncli cp2 + 1\<rparr>]\<rparr>)"

definition popcli :: "nat \<Rightarrow> machine \<Rightarrow> machine res" where
  "popcli c m =
     (let cp = cpus m ! c in
      if eflags_IF cp then Inl (Panic ''popcli - interruptible'')
      else if ncli cp - 1 < 0 then Inl (Panic ''popcli'')
      else let cp1 = cp\<lparr>ncli := ncli cp - 1\<rparr>;
               cp2 = (if ncli cp1 = 0 \<and> intena cp1 then cp1\<lparr>eflags_IF := True\<rparr> else cp1)
           in Inr (m\<lparr>cpus := (cpus m)[c := cp2]\<rparr>))"

definition holding :: "nat \<Rightarrow> nat \<Rightarrow> machine \<Rightarrow> bool" where
  "holding c l m \<longleftrightarrow> locked (slocks m ! l) \<and> lk_cpu (slocks m ! l) = Some c"

text \<open>acquire: disable interrupts and check; the exchange; record the owner.\<close>

definition acquire_enter :: "nat \<Rightarrow> nat \<Rightarrow> machine \<Rightarrow> machine res" where
  "acquire_enter c l m =
     (let m1 = pushcli c m in if holding c l m1 then Inl (Panic ''acquire'') else Inr m1)"

definition xchg :: "nat \<Rightarrow> machine \<Rightarrow> bool \<times> machine" where
  "xchg l m =
     (locked (slocks m ! l), m\<lparr>slocks := (slocks m)[l := (slocks m ! l)\<lparr>locked := True\<rparr>]\<rparr>)"

definition acquire_own :: "nat \<Rightarrow> nat \<Rightarrow> machine \<Rightarrow> machine" where
  "acquire_own c l m = m\<lparr>slocks := (slocks m)[l := (slocks m ! l)\<lparr>lk_cpu := Some c\<rparr>]\<rparr>"

text \<open>The whole of acquire on a lock that may be busy: Blocked while the exchange fails.\<close>

definition acquire :: "nat \<Rightarrow> nat \<Rightarrow> machine \<Rightarrow> machine res" where
  "acquire c l m =
     bindr (acquire_enter c l m)
       (\<lambda>m1. case xchg l m1 of (old, m2) \<Rightarrow> if old then Inl Blocked else Inr (acquire_own c l m2))"

definition release :: "nat \<Rightarrow> nat \<Rightarrow> machine \<Rightarrow> machine res" where
  "release c l m =
     (if \<not> holding c l m then Inl (Panic ''release'')
      else popcli c (m\<lparr>slocks := (slocks m)[l := \<lparr>locked = False, lk_cpu = None\<rparr>]\<rparr>))"

section \<open>Processors running concurrently\<close>

text \<open>
  What each processor is doing: running code with some number of bare pushcli calls open, or
  spinning in acquire.
\<close>

datatype activity = Running nat | Spinning nat nat

record smp =
  mach :: machine
  act :: "activity list"

inductive smp_step :: "smp \<Rightarrow> smp \<Rightarrow> bool" where
  push: "c < length (act s) \<Longrightarrow> act s ! c = Running d \<Longrightarrow>
    smp_step s \<lparr>mach = pushcli c (mach s), act = (act s)[c := Running (Suc d)]\<rparr>"
| pop: "c < length (act s) \<Longrightarrow> act s ! c = Running (Suc d) \<Longrightarrow> popcli c (mach s) = Inr m' \<Longrightarrow>
    smp_step s \<lparr>mach = m', act = (act s)[c := Running d]\<rparr>"
| enter: "c < length (act s) \<Longrightarrow> act s ! c = Running d \<Longrightarrow> l < length (slocks (mach s)) \<Longrightarrow>
    acquire_enter c l (mach s) = Inr m' \<Longrightarrow>
    smp_step s \<lparr>mach = m', act = (act s)[c := Spinning l d]\<rparr>"
| spin: "c < length (act s) \<Longrightarrow> act s ! c = Spinning l d \<Longrightarrow> xchg l (mach s) = (True, m') \<Longrightarrow>
    smp_step s \<lparr>mach = m', act = act s\<rparr>"
| take_lock: "c < length (act s) \<Longrightarrow> act s ! c = Spinning l d \<Longrightarrow> xchg l (mach s) = (False, m') \<Longrightarrow>
    smp_step s \<lparr>mach = acquire_own c l m', act = (act s)[c := Running d]\<rparr>"
| leave: "c < length (act s) \<Longrightarrow> act s ! c = Running d \<Longrightarrow> l < length (slocks (mach s)) \<Longrightarrow>
    release c l (mach s) = Inr m' \<Longrightarrow>
    smp_step s \<lparr>mach = m', act = act s\<rparr>"

definition smp_init :: "nat \<Rightarrow> nat \<Rightarrow> smp" where
  "smp_init ncpu nlock =
     \<lparr>mach = \<lparr>cpus = replicate ncpu \<lparr>ncli = 0, intena = False, eflags_IF = True\<rparr>,
              slocks = replicate nlock initlock\<rparr>,
      act = replicate ncpu (Running 0)\<rparr>"

inductive smp_reach :: "nat \<Rightarrow> nat \<Rightarrow> smp \<Rightarrow> bool" for ncpu nlock where
  start: "smp_reach ncpu nlock (smp_init ncpu nlock)"
| step: "smp_reach ncpu nlock s \<Longrightarrow> smp_step s t \<Longrightarrow> smp_reach ncpu nlock t"

section \<open>Invariant\<close>

definition held :: "nat \<Rightarrow> machine \<Rightarrow> nat" where
  "held c m = count_if (\<lambda>k. locked k \<and> lk_cpu k = Some c) (slocks m)"

fun depth :: "activity \<Rightarrow> nat" where
  "depth (Running d) = d"
| "depth (Spinning l d) = Suc d"

fun spin_ok :: "machine \<Rightarrow> nat \<Rightarrow> activity \<Rightarrow> bool" where
  "spin_ok m c (Running d) = True"
| "spin_ok m c (Spinning l d) = (l < length (slocks m) \<and> \<not> holding c l m)"

definition smp_inv :: "smp \<Rightarrow> bool" where
  "smp_inv s \<longleftrightarrow> length (cpus (mach s)) = length (act s) \<and>
     (\<forall>c<length (act s). ncli (cpus (mach s) ! c) = int (held c (mach s) + depth (act s ! c)) \<and>
        (0 < ncli (cpus (mach s) ! c) \<longrightarrow> \<not> eflags_IF (cpus (mach s) ! c)) \<and>
        spin_ok (mach s) c (act s ! c)) \<and>
     (\<forall>k\<in>set (slocks (mach s)). (locked k \<longrightarrow> (\<exists>c<length (act s). lk_cpu k = Some c)) \<and>
        (\<not> locked k \<longrightarrow> lk_cpu k = None))"

lemma pushcli_frame [frame_simps]: "slocks (pushcli c m) = slocks m"
  by (simp add: pushcli_def Let_def)

lemma pushcli_cpus:
  "c < length (cpus m) \<Longrightarrow> length (cpus (pushcli c m)) = length (cpus m) \<and>
    (\<forall>i<length (cpus m). i \<noteq> c \<longrightarrow> cpus (pushcli c m) ! i = cpus m ! i) \<and>
    ncli (cpus (pushcli c m) ! c) = ncli (cpus m ! c) + 1 \<and>
    \<not> eflags_IF (cpus (pushcli c m) ! c)"
  by (simp add: pushcli_def Let_def)

lemma popcli_cpus:
  "c < length (cpus m) \<Longrightarrow> popcli c m = Inr m' \<Longrightarrow> slocks m' = slocks m \<and>
    length (cpus m') = length (cpus m) \<and>
    (\<forall>i<length (cpus m). i \<noteq> c \<longrightarrow> cpus m' ! i = cpus m ! i) \<and>
    ncli (cpus m' ! c) = ncli (cpus m ! c) - 1 \<and>
    (0 < ncli (cpus m' ! c) \<longrightarrow> \<not> eflags_IF (cpus m' ! c))"
  by (auto simp: popcli_def Let_def split: if_splits)

lemma held_frame: "slocks m' = slocks m \<Longrightarrow> held c m' = held c m"
  by (simp add: held_def)

lemma holding_frame: "slocks m' = slocks m \<Longrightarrow> holding c l m' = holding c l m"
  by (simp add: holding_def)

lemma spin_ok_frame: "slocks m' = slocks m \<Longrightarrow> spin_ok m' c a = spin_ok m c a"
  by (cases a) (simp_all add: holding_def)

lemma held_pos: "l < length (slocks m) \<Longrightarrow> holding c l m \<Longrightarrow> 0 < held c m"
  unfolding held_def holding_def by (rule count_if_nth_pos) auto

text \<open>Steps of one processor that leave the locks alone keep the invariant.\<close>

lemma smp_inv_cpu_step:
  assumes inv: "smp_inv s" and c: "c < length (act s)" and m: "slocks m' = slocks (mach s)"
    "length (cpus m') = length (cpus (mach s))"
    "\<And>i. i < length (act s) \<Longrightarrow> i \<noteq> c \<Longrightarrow> cpus m' ! i = cpus (mach s) ! i"
    and n: "ncli (cpus m' ! c) = int (held c (mach s) + depth a)"
    and f: "0 < ncli (cpus m' ! c) \<Longrightarrow> \<not> eflags_IF (cpus m' ! c)"
    and sp: "spin_ok m' c a"
  shows "smp_inv \<lparr>mach = m', act = (act s)[c := a]\<rparr>"
  using assms held_frame [OF m(1)] spin_ok_frame [OF m(1)]
  by (auto simp: smp_inv_def nth_list_update)

lemma smp_inv_lock_step:
  assumes inv: "smp_inv s" and c: "c < length (act s)" and l: "l < length (slocks (mach s))"
    and old: "(locked (slocks (mach s) ! l), lk_cpu (slocks (mach s) ! l)) \<in> {(False, None), (True, Some c)}"
    and new: "(locked k, lk_cpu k) \<in> {(False, None), (True, Some c)}"
    and m: "slocks m' = (slocks (mach s))[l := k]" "length (cpus m') = length (cpus (mach s))"
    "\<And>i. i < length (act s) \<Longrightarrow> i \<noteq> c \<Longrightarrow> cpus m' ! i = cpus (mach s) ! i"
    and n: "ncli (cpus m' ! c) + of_bool (locked (slocks (mach s) ! l)) =
      int (held c (mach s) + depth (Running d)) + of_bool (locked k)"
    and f: "0 < ncli (cpus m' ! c) \<Longrightarrow> \<not> eflags_IF (cpus m' ! c)"
  shows "smp_inv \<lparr>mach = m', act = (act s)[c := Running d]\<rparr>"
proof -
  have "held c m' + of_bool (locked (slocks (mach s) ! l)) = held c (mach s) + of_bool (locked k)"
    using count_if_update [OF l, of "\<lambda>k. locked k \<and> lk_cpu k = Some c" k] old new
    by (auto simp: held_def m(1))
  then have hc: "ncli (cpus m' ! c) = int (held c m' + d)"
    using n by (auto simp: of_bool_def split: if_splits)
  have ho: "held i m' = held i (mach s)" if "i \<noteq> c" for i
    using count_if_update [OF l, of "\<lambda>k. locked k \<and> lk_cpu k = Some i" k] old new that
    by (auto simp: held_def m(1))
  have sp: "spin_ok m' i a = spin_ok (mach s) i a" if "i \<noteq> c" for i a
    using old new that l by (cases a) (auto simp: holding_def m(1) nth_list_update)
  have ks: "(locked k' \<longrightarrow> (\<exists>c<length (act s). lk_cpu k' = Some c)) \<and> (\<not> locked k' \<longrightarrow> lk_cpu k' = None)"
    if "k' \<in> set (slocks m')" for k'
  proof -
    from that m(1) have "k' = k \<or> k' \<in> set (slocks (mach s))"
      using set_update_subset_insert by fastforce
    with inv new c show ?thesis by (auto simp: smp_inv_def)
  qed
  show ?thesis
    unfolding smp_inv_def using inv c hc ho sp ks f m(2,3)
    by (auto simp: smp_inv_def nth_list_update)
qed

lemma smp_step_inv: "smp_step s t \<Longrightarrow> smp_inv s \<Longrightarrow> smp_inv t"
proof (induction rule: smp_step.induct)
  case (push c s d)
  then have c: "c < length (cpus (mach s))" by (simp add: smp_inv_def)
  from push pushcli_cpus [OF c] show ?case
    by (intro smp_inv_cpu_step) (auto simp: frame_simps smp_inv_def)
next
  case (pop c s d m')
  then have c: "c < length (cpus (mach s))" by (simp add: smp_inv_def)
  from pop popcli_cpus [OF c pop(3)] show ?case
    by (intro smp_inv_cpu_step) (auto simp: smp_inv_def)
next
  case (enter c s d l m')
  then have c: "c < length (cpus (mach s))" by (simp add: smp_inv_def)
  from enter have m': "m' = pushcli c (mach s)" "\<not> holding c l m'"
    by (auto simp: acquire_enter_def Let_def split: if_splits)
  from enter m' pushcli_cpus [OF c] show ?case
    by (intro smp_inv_cpu_step) (auto simp: frame_simps smp_inv_def)
next
  case (spin c s l d m')
  have l: "l < length (slocks (mach s))"
    using spin by (auto simp: smp_inv_def dest!: spec [of _ c])
  have "(slocks (mach s) ! l)\<lparr>locked := True\<rparr> = slocks (mach s) ! l"
    using spin(3) by (simp add: xchg_def)
  then have "m' = mach s" using spin(3) l by (simp add: xchg_def)
  with spin show ?case by (simp add: smp_inv_def)
next
  case (take_lock c s l d m')
  have l: "l < length (slocks (mach s))"
    using take_lock by (auto simp: smp_inv_def dest!: spec [of _ c])
  have free: "\<not> locked (slocks (mach s) ! l)"
    "m' = (mach s)\<lparr>slocks := (slocks (mach s))[l := (slocks (mach s) ! l)\<lparr>locked := True\<rparr>]\<rparr>"
    using take_lock(3) by (auto simp: xchg_def)
  have "lk_cpu (slocks (mach s) ! l) = None"
    using take_lock(4) free(1) l by (auto simp: smp_inv_def)
  with take_lock free l show ?case
    by (intro smp_inv_lock_step
          [where k = "(slocks (mach s) ! l)\<lparr>locked := True, lk_cpu := Some c\<rparr>"])
       (auto simp: acquire_own_def smp_inv_def)
next
  case (leave c s d l m')
  then have c: "c < length (cpus (mach s))" by (simp add: smp_inv_def)
  let ?m = "(mach s)\<lparr>slocks := (slocks (mach s))[l := \<lparr>locked = False, lk_cpu = None\<rparr>]\<rparr>"
  from leave have h: "holding c l (mach s)" "popcli c ?m = Inr m'"
    by (auto simp: release_def split: if_splits)
  have pc: "slocks m' = slocks ?m" "length (cpus m') = length (cpus (mach s))"
    "\<forall>i<length (cpus (mach s)). i \<noteq> c \<longrightarrow> cpus m' ! i = cpus (mach s) ! i"
    "ncli (cpus m' ! c) = ncli (cpus (mach s) ! c) - 1"
    "0 < ncli (cpus m' ! c) \<longrightarrow> \<not> eflags_IF (cpus m' ! c)"
    using popcli_cpus [OF _ h(2)] c by auto
  have "smp_inv \<lparr>mach = m', act = (act s)[c := Running d]\<rparr>"
    using leave h(1) pc
    by (intro smp_inv_lock_step [where k = "\<lparr>locked = False, lk_cpu = None\<rparr>"])
       (auto simp: holding_def smp_inv_def)
  with leave show ?case by (metis list_update_id)
qed

lemma smp_reach_inv: "smp_reach ncpu nlock s \<Longrightarrow> smp_inv s"
proof (induction rule: smp_reach.induct)
  case start
  show ?case
    by (auto simp: smp_inv_def smp_init_def held_def count_if_def initlock_def)
next
  case (step s t)
  then show ?case by (blast intro: smp_step_inv)
qed


text \<open>
  The witness: one processor, one lock, acquired from the initial state.
\<close>

definition smp_example :: smp where
  "smp_example =
     \<lparr>mach = \<lparr>cpus = [\<lparr>ncli = 1, intena = True, eflags_IF = False\<rparr>],
              slocks = [\<lparr>locked = True, lk_cpu = Some 0\<rparr>]\<rparr>, act = [Running 0]\<rparr>"

lemma smp_example_reach: "smp_reach 1 1 smp_example"
proof -
  let ?m = "\<lparr>cpus = [\<lparr>ncli = 1, intena = True, eflags_IF = False\<rparr>],
    slocks = [initlock]\<rparr>"
  have "smp_step (smp_init 1 1) \<lparr>mach = ?m, act = (act (smp_init 1 1))[0 := Spinning 0 0]\<rparr>"
    by (rule smp_step.enter)
       (simp_all add: smp_init_def acquire_enter_def pushcli_def holding_def initlock_def)
  then have r: "smp_reach 1 1 \<lparr>mach = ?m, act = [Spinning 0 0]\<rparr>" (is "smp_reach 1 1 ?s")
    using smp_reach.step [OF smp_reach.start] by (simp add: smp_init_def)
  have "smp_step ?s \<lparr>mach = acquire_own 0 0
      (?m\<lparr>slocks := [\<lparr>locked = True, lk_cpu = None\<rparr>]\<rparr>), act = (act ?s)[0 := Running 0]\<rparr>"
    by (rule smp_step.take_lock) (simp_all add: xchg_def initlock_def)
  then have "smp_reach 1 1 \<lparr>mach = acquire_own 0 0
      (?m\<lparr>slocks := [\<lparr>locked = True, lk_cpu = None\<rparr>]\<rparr>), act = (act ?s)[0 := Running 0]\<rparr>"
    by (rule smp_reach.step [OF r])
  then show ?thesis by (simp add: smp_example_def acquire_own_def)
qed


section \<open>A bracketed critical section\<close>

text \<open>
  acquire followed by release of the same free lock gives back the lock table, the
  interrupt flag and the nesting depth of every processor as they were: the pair only
  brackets the code between them.
\<close>

theorem acquire_release_bracket:
  assumes "c < length (cpus m)" "l < length (slocks m)" "slocks m ! l = initlock"
    and "0 \<le> ncli (cpus m ! c)" "0 < ncli (cpus m ! c) \<longrightarrow> \<not> eflags_IF (cpus m ! c)"
  shows "\<exists>m1 m2. acquire c l m = Inr m1 \<and> holding c l m1 \<and> \<not> eflags_IF (cpus m1 ! c) \<and>
    release c l m1 = Inr m2 \<and> slocks m2 = slocks m \<and>
    map (\<lambda>p. (ncli p, eflags_IF p)) (cpus m2) = map (\<lambda>p. (ncli p, eflags_IF p)) (cpus m)"
proof -
  define cp where "cp = cpus m ! c"
  define m1 where "m1 = acquire_own c l (snd (xchg l (pushcli c m)))"
  have a: "acquire c l m = Inr m1"
    using assms(2,3)
    by (simp add: acquire_def acquire_enter_def holding_def frame_simps initlock_def xchg_def m1_def)
  have c1: "cpus m1 ! c = \<lparr>ncli = ncli cp + 1,
      intena = (if ncli cp = 0 then eflags_IF cp else intena cp), eflags_IF = False\<rparr>"
    "length (cpus m1) = length (cpus m)" "\<And>i. i \<noteq> c \<Longrightarrow> cpus m1 ! i = cpus m ! i"
    "slocks m1 = (slocks m)[l := \<lparr>locked = True, lk_cpu = Some c\<rparr>]"
    using assms(1,2)
    by (simp_all add: m1_def xchg_def acquire_own_def pushcli_def Let_def cp_def initlock_def assms(3))
  have h: "holding c l m1" using assms(2) by (simp add: holding_def c1)
  have "\<exists>m2. release c l m1 = Inr m2 \<and> slocks m2 = (slocks m1)[l := \<lparr>locked = False, lk_cpu = None\<rparr>] \<and>
      length (cpus m2) = length (cpus m1) \<and> (\<forall>i. i \<noteq> c \<longrightarrow> cpus m2 ! i = cpus m1 ! i) \<and>
      ncli (cpus m2 ! c) = ncli cp \<and> eflags_IF (cpus m2 ! c) = eflags_IF cp"
    using h assms(1,4,5) c1(1,2)
    by (auto simp: release_def popcli_def Let_def cp_def)
  then obtain m2 where m2: "release c l m1 = Inr m2"
    "slocks m2 = (slocks m1)[l := \<lparr>locked = False, lk_cpu = None\<rparr>]"
    "length (cpus m2) = length (cpus m1)" "\<And>i. i \<noteq> c \<Longrightarrow> cpus m2 ! i = cpus m1 ! i"
    "ncli (cpus m2 ! c) = ncli cp" "eflags_IF (cpus m2 ! c) = eflags_IF cp" by blast
  have "slocks m2 = slocks m"
    using assms(2,3) m2(2) c1(4) by (simp add: initlock_def list_update_same_conv)
  moreover have "map (\<lambda>p. (ncli p, eflags_IF p)) (cpus m2) = map (\<lambda>p. (ncli p, eflags_IF p)) (cpus m)"
  proof (rule nth_equalityI)
    fix i assume "i < length (map (\<lambda>p. (ncli p, eflags_IF p)) (cpus m2))"
    then show "map (\<lambda>p. (ncli p, eflags_IF p)) (cpus m2) ! i =
        map (\<lambda>p. (ncli p, eflags_IF p)) (cpus m) ! i"
      using m2(3-6) c1(2,3) by (cases "i = c") (simp_all add: cp_def)
  qed (use m2(3) c1(2) in simp)
  ultimately show ?thesis using a h m2(1) c1(1) by auto
qed

theorem acquire_release_bracket_witness:
  "\<exists>m1 m2. acquire 0 0 (mach (smp_init 1 1)) = Inr m1 \<and> holding 0 0 m1 \<and>
    \<not> eflags_IF (cpus m1 ! 0) \<and> release 0 0 m1 = Inr m2 \<and>
    slocks m2 = slocks (mach (smp_init 1 1)) \<and>
    map (\<lambda>p. (ncli p, eflags_IF p)) (cpus m2) =
      map (\<lambda>p. (ncli p, eflags_IF p)) (cpus (mach (smp_init 1 1)))"
  by (rule acquire_release_bracket) (simp_all add: smp_init_def)

end
