(* ===== verification/Proc.thy ===== *)
theory Proc
  imports Locks
begin

text \<open>
  The process table and the scheduler (proc.c, proc.h): the data of the kernel's process
  management, sleep and wakeup, yield, the scheduler's scan of the table, and several
  processors running it.  Pointers into a table are indices into it, and a null pointer is
  None.  Code between acquire and release of ptable.lock is one step.
\<close>

definition NPROC :: nat where "NPROC = 64"
definition NOFILE :: nat where "NOFILE = 16"
definition SHM_MAXNUM :: nat where "SHM_MAXNUM = 4"
definition MUX_MAXNUM :: nat where "MUX_MAXNUM = 16"

datatype procstate = UNUSED | EMBRYO | SLEEPING | RUNNABLE | RUNNING | ZOMBIE

text \<open>Sleep channels are addresses of kernel objects: a process, a mutex, or anything else.\<close>

datatype chan = CProc nat | CMutex nat | CObj nat

record shmem =
  sh_in_use :: bool
  sh_name :: "u8 list"
  sh_va :: u32
  sh_global :: "nat option"

record proc =
  p_sz :: u32
  p_pgdir :: u32
  p_kstack :: u32
  p_state :: procstate
  p_pid :: int
  p_parent :: "nat option"
  p_tf :: u32
  p_context :: u32
  p_chan :: "chan option"
  p_killed :: bool
  p_ofile :: "nat option list"
  p_cwd :: "nat option"
  p_name :: "u8 list"
  p_shm :: "shmem list"
  p_container :: "nat option"
  p_container_id :: u32
  p_mutex :: "nat option list"
  p_priority :: u32
  p_next :: "nat option"

definition zero_shmem :: shmem where
  "zero_shmem = \<lparr>sh_in_use = False, sh_name = replicate 16 0, sh_va = 0, sh_global = None\<rparr>"

definition zero_proc :: proc where
  "zero_proc = \<lparr>p_sz = 0, p_pgdir = 0, p_kstack = 0, p_state = UNUSED, p_pid = 0, p_parent = None, p_tf = 0,
     p_context = 0, p_chan = None, p_killed = False, p_ofile = replicate NOFILE None, p_cwd = None,
     p_name = replicate 16 0, p_shm = replicate SHM_MAXNUM zero_shmem, p_container = None, p_container_id = 0,
     p_mutex = replicate MUX_MAXNUM None, p_priority = 0, p_next = None\<rparr>"

definition pinit :: "proc list \<Rightarrow> proc list" where
  "pinit ps = map (\<lambda>p. p\<lparr>p_container_id := 0\<rparr>) ps"

text \<open>mycpu: the processor whose local APIC id is the one read, interrupts being off.\<close>

definition mycpu :: "bool \<Rightarrow> u8 \<Rightarrow> u8 list \<Rightarrow> nat res" where
  "mycpu ifl apicid ids =
     (if ifl then Inl (Panic ''mycpu called with interrupts enabled'')
      else case scan (\<lambda>a. a = apicid) ids of
             Some i \<Rightarrow> Inr i
           | None \<Rightarrow> Inl (Panic ''unknown apicid''))"

section \<open>Sleep and wakeup\<close>

definition sleep_go :: "nat \<Rightarrow> chan \<Rightarrow> proc list \<Rightarrow> proc list" where
  "sleep_go i ch ps = ps[i := (ps ! i)\<lparr>p_chan := Some ch, p_state := SLEEPING\<rparr>]"

definition sleep_tidy :: "nat \<Rightarrow> proc list \<Rightarrow> proc list" where
  "sleep_tidy i ps = ps[i := (ps ! i)\<lparr>p_chan := None\<rparr>]"

definition wakeup1 :: "chan \<Rightarrow> proc list \<Rightarrow> proc list" where
  "wakeup1 ch ps = map (\<lambda>p. if p_state p = SLEEPING \<and> p_chan p = Some ch then p\<lparr>p_state := RUNNABLE\<rparr> else p) ps"

definition yield_go :: "nat \<Rightarrow> proc list \<Rightarrow> proc list" where
  "yield_go i ps = ps[i := (ps ! i)\<lparr>p_state := RUNNABLE\<rparr>]"

text \<open>The checks of sched, on the lock table: ptl is ptable.lock, running the caller's state test.\<close>

definition sched_check :: "nat \<Rightarrow> nat \<Rightarrow> bool \<Rightarrow> machine \<Rightarrow> machine res" where
  "sched_check c ptl running m =
     (if \<not> holding c ptl m then Inl (Panic ''sched ptable.lock'')
      else if ncli (cpus m ! c) \<noteq> 1 then Inl (Panic ''sched locks'')
      else if running then Inl (Panic ''sched running'')
      else if eflags_IF (cpus m ! c) then Inl (Panic ''sched interruptible'')
      else Inr m)"

text \<open>The locks sleep takes and releases until it has called sched.\<close>

definition sleep_locks :: "nat \<Rightarrow> nat \<Rightarrow> nat \<Rightarrow> machine \<Rightarrow> machine res" where
  "sleep_locks c ptl lk m =
     bindr (if lk \<noteq> ptl then bindr (acquire c ptl m) (release c lk) else Inr m)
       (sched_check c ptl False)"

section \<open>The scheduler\<close>

text \<open>
  The inner loop, continued at position pos of the table: the next RUNNABLE process, or the end
  of the table, after which the outer loop starts again at the first entry.
\<close>

definition sched_scan :: "nat \<Rightarrow> proc list \<Rightarrow> nat option" where
  "sched_scan pos ps = find (\<lambda>j. p_state (ps ! j) = RUNNABLE) [pos..<length ps]"

definition scheduler_step :: "nat \<Rightarrow> proc list \<Rightarrow> nat option \<times> nat" where
  "scheduler_step pos ps = (case sched_scan pos ps of Some j \<Rightarrow> (Some j, Suc j) | None \<Rightarrow> (None, 0))"

text \<open>The decisions of one processor when the table looks like ts at its successive decisions.\<close>

fun scheduler_run :: "nat \<Rightarrow> proc list list \<Rightarrow> nat option list" where
  "scheduler_run pos [] = []"
| "scheduler_run pos (ps # ts) =
     (case scheduler_step pos ps of (d, pos') \<Rightarrow> d # scheduler_run pos' ts)"

lemma sched_scan_Some:
  "sched_scan pos ps = Some j \<Longrightarrow> pos \<le> j \<and> j < length ps \<and> p_state (ps ! j) = RUNNABLE \<and>
     (\<forall>k. pos \<le> k \<and> k < j \<longrightarrow> p_state (ps ! k) \<noteq> RUNNABLE)"
proof -
  assume "sched_scan pos ps = Some j"
  then obtain m where m: "m < length ps - pos" "p_state (ps ! j) = RUNNABLE" "j = pos + m"
    "\<forall>k<m. p_state (ps ! (pos + k)) \<noteq> RUNNABLE"
    by (auto simp: sched_scan_def find_Some_iff)
  have "p_state (ps ! k) \<noteq> RUNNABLE" if "pos \<le> k" "k < j" for k
    using m(3) m(4)[rule_format, of "k - pos"] that by simp
  with m show ?thesis by auto
qed

lemma sched_scan_None: "sched_scan pos ps = None \<Longrightarrow> pos \<le> k \<Longrightarrow> k < length ps \<Longrightarrow> p_state (ps ! k) \<noteq> RUNNABLE"
  by (auto simp: sched_scan_def find_None_iff)

text \<open>How many decisions a RUNNABLE process i can still be passed over.\<close>

definition sched_dist :: "nat \<Rightarrow> nat \<Rightarrow> nat \<Rightarrow> nat" where
  "sched_dist n pos i = (if pos \<le> i then i - pos else (n - pos) + 1 + i)"

lemma scheduler_step_progress:
  assumes "i < length ps" "p_state (ps ! i) = RUNNABLE" "pos \<le> length ps" "scheduler_step pos ps = (d, pos')" "d \<noteq> Some i"
  shows "sched_dist (length ps) pos' i < sched_dist (length ps) pos i \<and> pos' \<le> length ps"
proof (cases "sched_scan pos ps")
  case None
  then have "pos > i" using sched_scan_None [OF None] assms(1,2) by (meson not_le)
  with None assms show ?thesis by (auto simp: scheduler_step_def sched_dist_def)
next
  case (Some j)
  note j = sched_scan_Some [OF Some]
  have "j \<noteq> i" "pos' = Suc j" using Some assms(4,5) by (auto simp: scheduler_step_def)
  moreover have "pos \<le> i \<Longrightarrow> j < i" using j assms(2) \<open>j \<noteq> i\<close> by (meson linorder_neqE_nat)
  ultimately show ?thesis using j by (auto simp: sched_dist_def)
qed

lemma scheduler_run_dist:
  assumes "\<forall>ps\<in>set ts. length ps = n \<and> p_state (ps ! i) = RUNNABLE" "i < n" "pos \<le> n" "sched_dist n pos i < length ts"
  shows "Some i \<in> set (scheduler_run pos ts)"
  using assms
proof (induction ts arbitrary: pos)
  case Nil
  then show ?case by simp
next
  case (Cons ps ts)
  obtain d pos' where s: "scheduler_step pos ps = (d, pos')" by fastforce
  show ?case
  proof (cases "d = Some i")
    case True
    with s show ?thesis by simp
  next
    case False
    have "sched_dist n pos' i < sched_dist n pos i \<and> pos' \<le> n"
      using scheduler_step_progress [of i ps pos d pos'] s False Cons.prems by simp
    with Cons s show ?thesis by simp
  qed
qed

text \<open>
  C19.  The scheduler is fair: whatever happens to the other processes between the scheduler's
  decisions, a process that stays RUNNABLE is chosen among any NPROC + 1 consecutive decisions
  of a processor, wherever in the table that processor's scan stands.
\<close>

theorem scheduler_fair:
  assumes "\<forall>ps\<in>set ts. length ps = NPROC \<and> p_state (ps ! i) = RUNNABLE" "i < NPROC" "pos \<le> NPROC" "length ts = NPROC + 1"
  shows "Some i \<in> set (scheduler_run pos ts)"
  by (rule scheduler_run_dist [OF assms(1-3)]) (use assms in \<open>auto simp: sched_dist_def\<close>)

theorem scheduler_fair_witness:
  "Some 5 \<in> set (scheduler_run 6 (replicate (NPROC + 1) ((replicate NPROC zero_proc)[5 := zero_proc\<lparr>p_state := RUNNABLE\<rparr>])))"
  by (rule scheduler_fair) (simp_all add: NPROC_def)

section \<open>Several processors\<close>

text \<open>
  tab is the process table, cur the process each processor runs (c->proc) and spos the place
  its scheduler stands at.  The state changes of the other operations on the table (fork, exit,
  wait, kill) appear as the transitions of one process's state.
\<close>

record ssys =
  tab :: "proc list"
  cur :: "nat \<Rightarrow> nat option"
  spos :: "nat \<Rightarrow> nat"

definition set_state :: "nat \<Rightarrow> procstate \<Rightarrow> proc list \<Rightarrow> proc list" where
  "set_state i st ps = ps[i := (ps ! i)\<lparr>p_state := st\<rparr>]"

fun state_change :: "procstate \<Rightarrow> procstate \<Rightarrow> bool" where
  "state_change UNUSED EMBRYO = True"
| "state_change EMBRYO RUNNABLE = True"
| "state_change EMBRYO UNUSED = True"
| "state_change SLEEPING RUNNABLE = True"
| "state_change ZOMBIE UNUSED = True"
| "state_change _ _ = False"

inductive sched_sys :: "ssys \<Rightarrow> ssys \<Rightarrow> bool" where
  dispatch: "\<lbrakk>cur s c = None; scheduler_step (spos s c) (tab s) = (Some j, pos')\<rbrakk> \<Longrightarrow>
    sched_sys s (s\<lparr>tab := set_state j RUNNING (tab s), cur := (cur s)(c := Some j), spos := (spos s)(c := pos')\<rparr>)"
| wrap: "\<lbrakk>cur s c = None; scheduler_step (spos s c) (tab s) = (None, pos')\<rbrakk> \<Longrightarrow>
    sched_sys s (s\<lparr>spos := (spos s)(c := pos')\<rparr>)"
| yielded: "cur s c = Some i \<Longrightarrow> sched_sys s (s\<lparr>tab := yield_go i (tab s), cur := (cur s)(c := None)\<rparr>)"
| slept: "cur s c = Some i \<Longrightarrow> sched_sys s (s\<lparr>tab := sleep_go i ch (tab s), cur := (cur s)(c := None)\<rparr>)"
| tidied: "cur s c = Some i \<Longrightarrow> sched_sys s (s\<lparr>tab := sleep_tidy i (tab s)\<rparr>)"
| woken: "sched_sys s (s\<lparr>tab := wakeup1 ch (tab s)\<rparr>)"
| exited: "cur s c = Some i \<Longrightarrow> sched_sys s (s\<lparr>tab := set_state i ZOMBIE (tab s), cur := (cur s)(c := None)\<rparr>)"
| changed: "\<lbrakk>i < length (tab s); state_change (p_state (tab s ! i)) st\<rbrakk> \<Longrightarrow> sched_sys s (s\<lparr>tab := set_state i st (tab s)\<rparr>)"

definition ssys_init :: ssys where
  "ssys_init = \<lparr>tab = replicate NPROC zero_proc, cur = (\<lambda>_. None), spos = (\<lambda>_. 0)\<rparr>"

definition ssys_inv :: "ssys \<Rightarrow> bool" where
  "ssys_inv s \<longleftrightarrow> length (tab s) = NPROC \<and>
     (\<forall>i<NPROC. p_state (tab s ! i) = RUNNING \<longleftrightarrow> (\<exists>c. cur s c = Some i)) \<and>
     (\<forall>c d i. cur s c = Some i \<and> cur s d = Some i \<longrightarrow> c = d) \<and>
     (\<forall>c i. cur s c = Some i \<longrightarrow> i < NPROC)"

lemma set_state_nth: "p_state (set_state i st ps ! j) = (if i = j \<and> i < length ps then st else p_state (ps ! j))"
  by (simp add: set_state_def nth_upd)

lemma sched_frame [simp]:
  "length (set_state i st ps) = length ps" "length (wakeup1 ch ps) = length ps" "length (sleep_go i ch ps) = length ps"
  "length (sleep_tidy i ps) = length ps" "length (yield_go i ps) = length ps"
  by (simp_all add: set_state_def wakeup1_def sleep_go_def sleep_tidy_def yield_go_def)

lemma state_ops:
  "p_state (sleep_go i ch ps ! j) = p_state (set_state i SLEEPING ps ! j)"
  "p_state (yield_go i ps ! j) = p_state (set_state i RUNNABLE ps ! j)"
  "p_state (sleep_tidy i ps ! j) = p_state (ps ! j)"
  by (simp_all add: sleep_go_def yield_go_def sleep_tidy_def set_state_def nth_upd)

lemma wakeup1_running: "j < length ps \<Longrightarrow> p_state (wakeup1 ch ps ! j) = RUNNING \<longleftrightarrow> p_state (ps ! j) = RUNNING"
  by (simp add: wakeup1_def)

lemma ssys_leave:
  assumes inv: "ssys_inv s" and c: "cur s c = Some i" and st: "st \<noteq> RUNNING"
    and t: "length t = length (tab s)" "\<And>j. p_state (t ! j) = p_state (set_state i st (tab s) ! j)"
  shows "ssys_inv (s\<lparr>tab := t, cur := (cur s)(c := None)\<rparr>)"
proof -
  have "p_state (t ! j) = RUNNING \<longleftrightarrow> (\<exists>d. ((cur s)(c := None)) d = Some j)" if j: "j < NPROC" for j
  proof (cases "j = i")
    case True
    then show ?thesis using inv c st t j by (auto simp: ssys_inv_def set_state_nth)
  next
    case False
    then have "p_state (t ! j) = RUNNING \<longleftrightarrow> (\<exists>d. cur s d = Some j)"
      using inv t j by (auto simp: ssys_inv_def set_state_nth)
    also have "\<dots> \<longleftrightarrow> (\<exists>d. ((cur s)(c := None)) d = Some j)" using c False by (metis fun_upd_apply option.distinct(1) option.inject)
    finally show ?thesis .
  qed
  then show ?thesis using inv t(1) by (auto simp: ssys_inv_def split: if_splits)
qed

lemma ssys_inv_step: "sched_sys s s' \<Longrightarrow> ssys_inv s \<Longrightarrow> ssys_inv s'"
proof (induction rule: sched_sys.induct)
  case (dispatch s c j pos')
  have j: "j < length (tab s)" "p_state (tab s ! j) = RUNNABLE"
    using dispatch(2) sched_scan_Some by (auto simp: scheduler_step_def split: option.splits)
  then have nj: "cur s d \<noteq> Some j" for d using dispatch(3) by (auto simp: ssys_inv_def)
  have "p_state (set_state j RUNNING (tab s) ! k) = RUNNING \<longleftrightarrow> (\<exists>d. ((cur s)(c := Some j)) d = Some k)" if k: "k < NPROC" for k
  proof (cases "k = j")
    case True
    then show ?thesis using j by (auto simp: set_state_nth)
  next
    case False
    then have "p_state (set_state j RUNNING (tab s) ! k) = RUNNING \<longleftrightarrow> (\<exists>d. cur s d = Some k)"
      using dispatch(3) k by (auto simp: ssys_inv_def set_state_nth)
    also have "\<dots> \<longleftrightarrow> (\<exists>d. ((cur s)(c := Some j)) d = Some k)" using dispatch(1) False by (metis fun_upd_apply option.distinct(1) option.inject)
    finally show ?thesis .
  qed
  then show ?case using dispatch(3) j nj by (auto simp: ssys_inv_def split: if_splits)
next
  case (yielded s c i)
  then show ?case by (intro ssys_leave [where st = RUNNABLE]) (simp_all add: state_ops)
next
  case (slept s c i ch)
  then show ?case by (intro ssys_leave [where st = SLEEPING]) (simp_all add: state_ops)
next
  case (exited s c i)
  then show ?case by (intro ssys_leave [where st = ZOMBIE]) simp_all
next
  case (changed i s st)
  then have "p_state (tab s ! i) \<noteq> RUNNING" "st \<noteq> RUNNING"
    by (cases "p_state (tab s ! i)"; cases st; simp)+
  with changed show ?case by (auto simp: ssys_inv_def set_state_nth)
qed (auto simp: ssys_inv_def state_ops wakeup1_running)

lemma ssys_inv_reach: "sched_sys\<^sup>*\<^sup>* ssys_init s \<Longrightarrow> ssys_inv s"
proof (induction rule: rtranclp_induct)
  case base
  show ?case by (simp add: ssys_inv_def ssys_init_def zero_proc_def)
qed (rule ssys_inv_step)

text \<open>
  C18.  A process runs on at most one processor: in every state the processors can reach by
  scheduling, yielding, sleeping, waking, forking, exiting and reaping, the processes in state
  RUNNING are exactly the ones some processor has as its current process, and no two
  processors have the same one.
\<close>

theorem scheduler_exclusive:
  assumes "sched_sys\<^sup>*\<^sup>* ssys_init s"
  shows "(i < NPROC \<longrightarrow> p_state (tab s ! i) = RUNNING \<longleftrightarrow> (\<exists>c. cur s c = Some i)) \<and>
         (cur s c = Some i \<and> cur s d = Some i \<longrightarrow> c = d)"
  using ssys_inv_reach [OF assms] by (auto simp: ssys_inv_def)

definition ssys_example :: ssys where
  "ssys_example = ssys_init\<lparr>tab := set_state 0 RUNNING (set_state 0 RUNNABLE (set_state 0 EMBRYO (tab ssys_init))),
     cur := (cur ssys_init)(3 := Some 0), spos := (spos ssys_init)(3 := 1)\<rparr>"

lemma ssys_example_reach: "sched_sys\<^sup>*\<^sup>* ssys_init ssys_example"
proof -
  let ?t1 = "set_state 0 EMBRYO (tab ssys_init)"
  let ?t2 = "set_state 0 RUNNABLE ?t1"
  have len: "length (tab ssys_init) = NPROC" "(0 :: nat) < NPROC" by (simp_all add: ssys_init_def NPROC_def)
  have "sched_sys ssys_init (ssys_init\<lparr>tab := ?t1\<rparr>)"
    by (rule changed) (use len in \<open>simp_all add: ssys_init_def zero_proc_def\<close>)
  moreover have "sched_sys (ssys_init\<lparr>tab := ?t1\<rparr>) (ssys_init\<lparr>tab := ?t2\<rparr>)"
    using changed [of 0 "ssys_init\<lparr>tab := ?t1\<rparr>" RUNNABLE] len by (simp add: set_state_nth)
  moreover have "sched_scan 0 ?t2 = Some 0"
    using len by (simp add: sched_scan_def set_state_nth upt_conv_Cons)
  then have "sched_sys (ssys_init\<lparr>tab := ?t2\<rparr>) ssys_example"
    using dispatch [of "ssys_init\<lparr>tab := ?t2\<rparr>" 3 0 1] by (simp add: ssys_example_def scheduler_step_def ssys_init_def)
  ultimately show ?thesis by (meson converse_rtranclp_into_rtranclp rtranclp.rtrancl_refl)
qed

theorem scheduler_exclusive_witness:
  "p_state (tab ssys_example ! 0) = RUNNING \<and> cur ssys_example 3 = Some 0"
  using scheduler_exclusive [OF ssys_example_reach, of 0 3 3] by (auto simp: ssys_example_def NPROC_def)

text \<open>
  sleep keeps the locking discipline: a processor that holds exactly one lock lk, with
  interrupts off, can take ptable.lock (when it is free), drop lk and pass every check of
  sched; a processor that holds a second lock panics with ''sched locks''.
\<close>

theorem sleep_lock_handover:
  assumes c: "c < length (cpus m)" and l: "lk < length (slocks m)" "ptl < length (slocks m)" "lk \<noteq> ptl"
    and h: "holding c lk m" "slocks m ! ptl = initlock" and n: "1 \<le> ncli (cpus m ! c)" "\<not> eflags_IF (cpus m ! c)"
  shows "(ncli (cpus m ! c) = 1 \<longrightarrow> (\<exists>m'. sleep_locks c ptl lk m = Inr m' \<and> holding c ptl m' \<and> \<not> locked (slocks m' ! lk))) \<and>
         (ncli (cpus m ! c) > 1 \<longrightarrow> sleep_locks c ptl lk m = Inl (Panic ''sched locks''))"
proof -
  define k where "k = ncli (cpus m ! c)"
  define m1 where "m1 = acquire_own c ptl (snd (xchg ptl (pushcli c m)))"
  have a: "acquire c ptl m = Inr m1"
    using l h(2) by (simp add: acquire_def acquire_enter_def holding_def frame_simps initlock_def xchg_def m1_def)
  have m1: "slocks m1 = (slocks m)[ptl := \<lparr>locked = True, lk_cpu = Some c\<rparr>]" "cpus m1 ! c = (cpus m ! c)\<lparr>ncli := k + 1\<rparr>"
    "length (cpus m1) = length (cpus m)"
    using l(2) h(2) c n by (simp_all add: m1_def acquire_own_def xchg_def pushcli_def Let_def initlock_def k_def)
  define m2 where "m2 = m1\<lparr>slocks := (slocks m1)[lk := \<lparr>locked = False, lk_cpu = None\<rparr>], cpus := (cpus m1)[c := (cpus m ! c)\<lparr>ncli := k\<rparr>]\<rparr>"
  have r: "release c lk m1 = Inr m2"
    using l h(1) m1 n by (simp add: release_def popcli_def Let_def holding_def m2_def k_def)
  have m2: "holding c ptl m2" "\<not> locked (slocks m2 ! lk)" "ncli (cpus m2 ! c) = k" "\<not> eflags_IF (cpus m2 ! c)"
    using l m1 c n by (simp_all add: m2_def holding_def)
  have "sleep_locks c ptl lk m = sched_check c ptl False m2" using l(3) a r by (simp add: sleep_locks_def)
  then show ?thesis using m2 by (auto simp: sched_check_def k_def)
qed

definition machine_one_lock :: machine where
  "machine_one_lock = \<lparr>cpus = [\<lparr>ncli = 1, intena = True, eflags_IF = False\<rparr>], slocks = [initlock, \<lparr>locked = True, lk_cpu = Some 0\<rparr>]\<rparr>"

theorem sleep_lock_handover_witness:
  "\<exists>m'. sleep_locks 0 0 1 machine_one_lock = Inr m' \<and> holding 0 0 m' \<and> \<not> locked (slocks m' ! 1)"
  using sleep_lock_handover [of 0 machine_one_lock 1 0] by (simp add: machine_one_lock_def holding_def)

end
