(* ===== verification/Pqueue.thy ===== *)
theory Pqueue
  imports Proc
begin

text \<open>
  The priority queue of proc.c: NBIN lists of processes, linked through proc.next, with
  pqueue_enqueue, queueinit and prio_set.  The lists of a well-formed queue are related to
  lists of table indices by queue_ok, and the loops over the links are shown to end.
\<close>

definition NBIN :: nat where "NBIN = 16"

record plist =
  pl_head :: "nat option"
  pl_tail :: "nat option"
  pl_size :: int

type_synonym pq = "proc list \<times> plist list"

definition queueinit :: "plist list \<Rightarrow> plist list" where
  "queueinit bins = map (\<lambda>_. \<lparr>pl_head = None, pl_tail = None, pl_size = 0\<rparr>) [0..<NBIN]"

text \<open>The argument is a pointer and may be null; the bin index is not checked by the code.\<close>

definition pqueue_enqueue :: "nat option \<Rightarrow> u32 \<Rightarrow> pq \<Rightarrow> pq res" where
  "pqueue_enqueue po priority s =
     (case po of
        None \<Rightarrow> Inl (Undefined ''null process'')
      | Some p \<Rightarrow>
          (case s of (ps, bins) \<Rightarrow>
             let ps1 = ps[p := (ps ! p)\<lparr>p_priority := priority\<rparr>]; b = unat priority in
             if \<not> b < NBIN then Inl (Undefined ''pqueue.Arr'')
             else let bin = bins ! b in
               bindr (case pl_head bin of
                        None \<Rightarrow> Inr (ps1, bin\<lparr>pl_head := Some p, pl_tail := Some p\<rparr>)
                      | Some _ \<Rightarrow>
                          (case pl_tail bin of
                             None \<Rightarrow> Inl (Undefined ''null tail'')
                           | Some t \<Rightarrow> Inr (ps1[t := (ps1 ! t)\<lparr>p_next := Some p\<rparr>], bin\<lparr>pl_tail := Some p\<rparr>)))
                 (\<lambda>(ps2, bin2). Inr (ps2[p := (ps2 ! p)\<lparr>p_next := None\<rparr>], bins[b := bin2\<lparr>pl_size := pl_size bin2 + 1\<rparr>]))))"

text \<open>
  The ancestry test of prio_set: follow parent from temp until it is the caller (accepted) or
  the first process (refused).  A null parent is dereferenced in the next round.  The first
  argument bounds the rounds; Blocked stands for a loop that has not ended within them.
\<close>

fun anc_walk :: "nat \<Rightarrow> nat \<Rightarrow> nat \<Rightarrow> nat option \<Rightarrow> proc list \<Rightarrow> bool res" where
  "anc_walk 0 curproc initproc temp ps = Inl Blocked"
| "anc_walk (Suc n) curproc initproc temp ps =
     (case temp of
        None \<Rightarrow> Inl (Undefined ''null parent'')
      | Some t \<Rightarrow>
          let temp_parent = p_parent (ps ! t) in
          if temp_parent = Some curproc then Inr True
          else if temp_parent = Some initproc then Inr False
          else anc_walk n curproc initproc temp_parent ps)"

text \<open>The inner loop of prio_set: find pid behind p in a list and unlink it.\<close>

fun pq_walk :: "nat \<Rightarrow> int \<Rightarrow> nat \<Rightarrow> proc list \<Rightarrow> (nat option \<times> proc list) res" where
  "pq_walk 0 pid p ps = Inl Blocked"
| "pq_walk (Suc n) pid p ps =
     (case p_next (ps ! p) of
        None \<Rightarrow> Inr (None, ps)
      | Some q \<Rightarrow>
          if p_pid (ps ! q) = pid then Inr (Some q, ps[p := (ps ! p)\<lparr>p_next := p_next (ps ! q)\<rparr>])
          else pq_walk n pid q ps)"

text \<open>The loop over the bins: a match at the head of a bin ends it, a match further down does not.\<close>

fun pq_unlink :: "nat list \<Rightarrow> int \<Rightarrow> nat option \<Rightarrow> pq \<Rightarrow> (nat option \<times> pq) res" where
  "pq_unlink [] pid found s = Inr (found, s)"
| "pq_unlink (i # is) pid found s =
     (case s of (ps, bins) \<Rightarrow>
       (case pl_head (bins ! i) of
          None \<Rightarrow> pq_unlink is pid found s
        | Some p \<Rightarrow>
            if p_pid (ps ! p) = pid then Inr (Some p, s)
            else bindr (pq_walk (Suc NPROC) pid p ps) (\<lambda>(r, ps').
                 pq_unlink is pid (case r of None \<Rightarrow> found | Some q \<Rightarrow> Some q) (ps', bins))))"

definition prio_set :: "nat \<Rightarrow> nat \<Rightarrow> int \<Rightarrow> u32 \<Rightarrow> pq \<Rightarrow> (int \<times> pq) res" where
  "prio_set curproc initproc pid priority s =
     (case s of (ps, bins) \<Rightarrow>
       (case scan (\<lambda>p. p_pid p = pid) ps of
          None \<Rightarrow> Inl (Undefined ''ptable.proc[NPROC]'')
        | Some p \<Rightarrow>
            if priority < p_priority (ps ! p) then Inr (-1, s)
            else bindr (if pid \<noteq> p_pid (ps ! curproc) then anc_walk (Suc NPROC) curproc initproc (Some p) ps else Inr True)
              (\<lambda>ok. if \<not> ok then Inr (-1, s)
                 else if priority = p_priority (ps ! p) then Inr (0, s)
                 else bindr (pq_unlink [0..<NBIN] pid None s) (\<lambda>(proc, s').
                      bindr (pqueue_enqueue proc priority s') (\<lambda>s''. Inr (0, s''))))))"

section \<open>Well-formed queues\<close>

fun qpath :: "proc list \<Rightarrow> nat option \<Rightarrow> nat list \<Rightarrow> bool" where
  "qpath ps x [] = (x = None)"
| "qpath ps x (y # ys) = (x = Some y \<and> y < length ps \<and> qpath ps (p_next (ps ! y)) ys)"

definition qbin :: "proc list \<Rightarrow> plist \<Rightarrow> nat list \<Rightarrow> bool" where
  "qbin ps b xs \<longleftrightarrow> qpath ps (pl_head b) xs \<and> (xs \<noteq> [] \<longrightarrow> pl_tail b = Some (last xs)) \<and> pl_size b = int (length xs)"

definition queue_ok :: "pq \<Rightarrow> nat list list \<Rightarrow> bool" where
  "queue_ok s Ls \<longleftrightarrow> length (snd s) = NBIN \<and> length Ls = NBIN \<and> distinct (concat Ls) \<and>
     (\<forall>i<NBIN. qbin (fst s) (snd s ! i) (Ls ! i))"

lemma qpath_frame:
  "\<lbrakk>length ps' = length ps; \<And>y. y \<in> set ys \<Longrightarrow> p_next (ps' ! y) = p_next (ps ! y)\<rbrakk> \<Longrightarrow> qpath ps' x ys = qpath ps x ys"
proof (induction ys arbitrary: x)
  case (Cons y ys)
  have ih: "qpath ps' z ys = qpath ps z ys" for z by (rule Cons.IH) (use Cons.prems in auto)
  have nx: "p_next (ps' ! y) = p_next (ps ! y)" using Cons.prems(2) by simp
  show ?case unfolding qpath.simps Cons.prems(1) nx ih ..
qed simp

lemma qbin_frame:
  "\<lbrakk>qbin ps b ys; length ps' = length ps; \<And>y. y \<in> set ys \<Longrightarrow> p_next (ps' ! y) = p_next (ps ! y)\<rbrakk> \<Longrightarrow> qbin ps' b ys"
  unfolding qbin_def using qpath_frame [of ps' ps ys "pl_head b"] by blast

lemma qpath_range: "qpath ps x ys \<Longrightarrow> y \<in> set ys \<Longrightarrow> y < length ps"
  by (induction ys arbitrary: x) auto

lemma qpath_snoc:
  assumes "qpath ps x (ys @ [t])" "length ps' = length ps" "\<And>y. y \<in> set ys \<Longrightarrow> p_next (ps' ! y) = p_next (ps ! y)"
    "p_next (ps' ! t) = Some p" "p < length ps" "p_next (ps' ! p) = None"
  shows "qpath ps' x (ys @ [t, p])"
  using assms
proof (induction ys arbitrary: x)
  case (Cons y ys)
  then have "qpath ps' (p_next (ps ! y)) (ys @ [t, p])" by simp
  then show ?case using Cons.prems by simp
qed auto

lemma enqueue_next:
  assumes "pqueue_enqueue (Some p) priority (ps, bins) = Inr (ps', bins')" "p < length ps"
    "\<And>t. pl_head (bins ! unat priority) \<noteq> None \<Longrightarrow> pl_tail (bins ! unat priority) = Some t \<Longrightarrow> t < length ps"
  shows "length ps' = length ps \<and> unat priority < NBIN \<and>
     (\<forall>y. p_next (ps' ! y) = (if y = p then None
        else if pl_head (bins ! unat priority) \<noteq> None \<and> pl_tail (bins ! unat priority) = Some y then Some p else p_next (ps ! y)))"
  using assms by (auto simp: pqueue_enqueue_def Let_def nth_upd bindr_eq_Inr split: if_splits option.splits)

lemma distinct_concat_disjoint:
  assumes "distinct (concat Ls)" "i < length Ls" "j < length Ls" "i \<noteq> j"
  shows "set (Ls ! i) \<inter> set (Ls ! j) = {}"
proof -
  have *: "\<lbrakk>distinct (concat Ls); i < j; j < length Ls\<rbrakk> \<Longrightarrow> set (Ls ! i) \<inter> set (Ls ! j) = {}" for i j and Ls :: "'a list list"
  proof (induction Ls arbitrary: i j)
    case (Cons L Ls)
    then show ?case
    proof (cases i)
      case 0
      with Cons.prems obtain j' where "j = Suc j'" "j' < length Ls" by (cases j) auto
      with 0 Cons.prems nth_mem [of j' Ls] show ?thesis by fastforce
    next
      case (Suc i')
      with Cons.prems obtain j' where "j = Suc j'" by (cases j) auto
      with Suc Cons show ?thesis by auto
    qed
  qed simp
  from assms show ?thesis using * [of Ls i j] * [of Ls j i] by (metis Int_commute linorder_neqE_nat)
qed

lemma distinct_concat_snoc:
  assumes "distinct (concat Ls)" "i < length Ls" "p \<notin> set (concat Ls)"
  shows "distinct (concat (Ls[i := Ls ! i @ [p]]))"
proof -
  have eq: "concat Ls = concat (take i Ls) @ Ls ! i @ concat (drop (Suc i) Ls)"
    using assms(2) by (metis concat.simps(2) concat_append id_take_nth_drop)
  have "concat (Ls[i := Ls ! i @ [p]]) = concat (take i Ls) @ (Ls ! i @ [p]) @ concat (drop (Suc i) Ls)"
    using assms(2) by (simp add: upd_conv_take_nth_drop)
  then show ?thesis using assms(1,3) unfolding eq by auto
qed

text \<open>
  C23.  Refinement of the queue to lists: on a well-formed queue, enqueueing a process that is in
  no list at a valid priority succeeds, gives a well-formed queue again, appends the process to
  the list of that priority and leaves the other lists as they are, and records the priority.
\<close>

theorem pqueue_enqueue_appends:
  assumes ok: "queue_ok (ps, bins) Ls" and p: "p < length ps" "p \<notin> set (concat Ls)" and pr: "unat priority < NBIN"
  shows "\<exists>ps' bins'. pqueue_enqueue (Some p) priority (ps, bins) = Inr (ps', bins') \<and>
     queue_ok (ps', bins') (Ls[unat priority := Ls ! unat priority @ [p]]) \<and> p_priority (ps' ! p) = priority"
proof -
  let ?b = "unat priority"
  let ?bin = "bins ! ?b"
  have qb: "qbin ps ?bin (Ls ! ?b)" and len: "length bins = NBIN" "length Ls = NBIN" using ok pr by (auto simp: queue_ok_def)
  have sub: "y \<in> set (concat Ls)" if "i < NBIN" "y \<in> set (Ls ! i)" for i y using that len nth_mem [of i Ls] by auto
  have head: "pl_head ?bin = None \<longleftrightarrow> Ls ! ?b = []" using qb by (cases "Ls ! ?b") (auto simp: qbin_def)
  have tail: "pl_tail ?bin = Some (last (Ls ! ?b))" "last (Ls ! ?b) < length ps" if "Ls ! ?b \<noteq> []"
    using qb that qpath_range [of ps "pl_head ?bin" "Ls ! ?b" "last (Ls ! ?b)"] by (auto simp: qbin_def)
  obtain ps' bin' where e: "pqueue_enqueue (Some p) priority (ps, bins) = Inr (ps', bins[?b := bin'])"
    and bin': "pl_tail bin' = Some p" "pl_head bin' = (if Ls ! ?b = [] then Some p else pl_head ?bin)" "pl_size bin' = pl_size ?bin + 1"
    and pri: "p_priority (ps' ! p) = priority"
  proof (cases "Ls ! ?b = []")
    case True
    then show ?thesis using that head pr p(1) by (simp add: pqueue_enqueue_def Let_def)
  next
    case False
    then obtain h where "pl_head ?bin = Some h" using head by auto
    moreover have "last (Ls ! ?b) \<noteq> p" using sub [OF pr last_in_set [OF False]] p(2) by metis
    ultimately show ?thesis using that False tail [OF False] pr p(1) by (simp add: pqueue_enqueue_def Let_def nth_upd)
  qed
  have nx: "length ps' = length ps" "\<And>y. p_next (ps' ! y) = (if y = p then None
      else if Ls ! ?b \<noteq> [] \<and> last (Ls ! ?b) = y then Some p else p_next (ps ! y))"
  proof -
    have "t < length ps" if "pl_head ?bin \<noteq> None" "pl_tail ?bin = Some t" for t using that tail head by auto
    note n = enqueue_next [OF e p(1) this]
    then show "length ps' = length ps" by simp
    fix y
    have "pl_head ?bin \<noteq> None \<and> pl_tail ?bin = Some y \<longleftrightarrow> Ls ! ?b \<noteq> [] \<and> last (Ls ! ?b) = y" using tail head by auto
    with n show "p_next (ps' ! y) = (if y = p then None else if Ls ! ?b \<noteq> [] \<and> last (Ls ! ?b) = y then Some p else p_next (ps ! y))"
      by simp
  qed
  have new: "qbin ps' bin' (Ls ! ?b @ [p])"
  proof (cases "Ls ! ?b" rule: rev_cases)
    case Nil
    then show ?thesis using bin' nx p(1) qb by (simp add: qbin_def)
  next
    case (snoc ys t)
    have q: "qpath ps (pl_head ?bin) (ys @ [t])" using qb snoc by (simp add: qbin_def)
    have "p \<notin> set (Ls ! ?b)" "distinct (Ls ! ?b)" using p(2) ok pr len sub [OF pr] by (auto simp: queue_ok_def distinct_concat_iff)
    then have "qpath ps' (pl_head ?bin) (ys @ [t, p])" using snoc nx p(1) by (intro qpath_snoc [OF q]) auto
    then show ?thesis using bin' snoc qb by (simp add: qbin_def)
  qed
  have other: "qbin ps' (bins ! i) (Ls ! i)" if i: "i < NBIN" "i \<noteq> ?b" for i
  proof (rule qbin_frame [OF _ nx(1)])
    show "qbin ps (bins ! i) (Ls ! i)" using ok i by (simp add: queue_ok_def)
    fix y assume y: "y \<in> set (Ls ! i)"
    moreover have "set (Ls ! i) \<inter> set (Ls ! ?b) = {}"
      using ok i pr len by (intro distinct_concat_disjoint) (auto simp: queue_ok_def)
    moreover have "y \<in> set (concat Ls)" using sub [OF i(1) y] .
    ultimately show "p_next (ps' ! y) = p_next (ps ! y)" using p(2) nx(2) by (metis disjoint_iff last_in_set)
  qed
  have "distinct (concat (Ls[?b := Ls ! ?b @ [p]]))"
    using ok p(2) pr len distinct_concat_snoc [of Ls ?b p] by (simp add: queue_ok_def)
  then have "queue_ok (ps', bins[?b := bin']) (Ls[?b := Ls ! ?b @ [p]])"
    using new other len by (auto simp: queue_ok_def nth_upd)
  with e pri show ?thesis by blast
qed

definition queue_example :: pq where
  "queue_example = (replicate NPROC zero_proc, queueinit [])"

lemma queue_example_ok: "queue_ok queue_example (replicate NBIN [])"
  by (auto simp: queue_ok_def queue_example_def queueinit_def qbin_def)

theorem pqueue_enqueue_appends_witness:
  "\<exists>ps' bins'. pqueue_enqueue (Some 3) 5 queue_example = Inr (ps', bins') \<and>
     queue_ok (ps', bins') ((replicate NBIN [])[5 := [3]]) \<and> p_priority (ps' ! 3) = 5"
  using pqueue_enqueue_appends [of "fst queue_example" "snd queue_example" "replicate NBIN []" 3 5] queue_example_ok
  by (simp add: queue_example_def NPROC_def NBIN_def)

section \<open>The walks end\<close>

text \<open>
  Also for a queue that is not well-formed: a process that is enqueued a second time cuts the
  lists it is in, but its own link is cleared, so the links never form a cycle.
\<close>

definition ranked :: "(nat \<Rightarrow> nat) \<Rightarrow> proc list \<Rightarrow> bool" where
  "ranked f ps \<longleftrightarrow> (\<forall>i j. i < length ps \<and> p_next (ps ! i) = Some j \<longrightarrow> j < length ps \<and> f j < f i)"

definition bins_ok :: "nat \<Rightarrow> plist list \<Rightarrow> bool" where
  "bins_ok n bins \<longleftrightarrow> (\<forall>i<NBIN. \<forall>h. (pl_head (bins ! i) = Some h \<longrightarrow> h < n) \<and> (pl_tail (bins ! i) = Some h \<longrightarrow> h < n))"

definition links_ok :: "pq \<Rightarrow> bool" where
  "links_ok s \<longleftrightarrow> (\<exists>f. ranked f (fst s)) \<and> length (fst s) = NPROC \<and> length (snd s) = NBIN \<and> bins_ok NPROC (snd s)"

lemma below_card: "f q < f p \<Longrightarrow> q < n \<Longrightarrow> card {j. j < n \<and> f j < f q} < card {j :: nat. j < n \<and> f j < (f p :: nat)}"
  by (rule psubset_card_mono, rule finite_subset [of _ "{..<n}"]) auto

lemma below_card_le: "card {j. j < n \<and> f j < (k :: nat)} \<le> n"
  using card_mono [of "{..<n}" "{j. j < n \<and> f j < k}"] by (auto simp: subset_iff)

lemma ranked_unlink:
  assumes "ranked f ps" "p < length ps" "p_next (ps ! p) = Some q"
  shows "ranked f (ps[p := (ps ! p)\<lparr>p_next := p_next (ps ! q)\<rparr>])"
  unfolding ranked_def length_list_update
proof (intro allI impI, elim conjE)
  fix i j assume i: "i < length ps" and n: "p_next (ps[p := (ps ! p)\<lparr>p_next := p_next (ps ! q)\<rparr>] ! i) = Some j"
  have q: "q < length ps" "f q < f p" using assms by (auto simp: ranked_def)
  show "j < length ps \<and> f j < f i"
  proof (cases "i = p")
    case True
    with n i have "p_next (ps ! q) = Some j" by simp
    then have "j < length ps \<and> f j < f q" using q(1) assms(1) by (auto simp: ranked_def)
    with True q show ?thesis by simp
  next
    case False
    with n i assms(1) show ?thesis by (auto simp: ranked_def)
  qed
qed

lemma pq_walk_ends:
  assumes "ranked f ps" "p < length ps" "card {j. j < length ps \<and> f j < f p} < n"
  shows "\<exists>r ps'. pq_walk n pid p ps = Inr (r, ps') \<and> ranked f ps' \<and> length ps' = length ps \<and> (\<forall>q. r = Some q \<longrightarrow> q < length ps)"
  using assms(2,3)
proof (induction n arbitrary: p)
  case (Suc n)
  show ?case
  proof (cases "p_next (ps ! p)")
    case None
    with assms(1) show ?thesis by simp
  next
    case (Some q)
    then have q: "q < length ps" "f q < f p" using assms(1) Suc.prems(1) by (auto simp: ranked_def)
    show ?thesis
    proof (cases "p_pid (ps ! q) = pid")
      case True
      with Some q ranked_unlink [OF assms(1) Suc.prems(1) Some] show ?thesis by simp
    next
      case False
      have "card {j. j < length ps \<and> f j < f q} < n" using below_card [of f q p "length ps"] q Suc.prems(2) by linarith
      from Suc.IH [OF q(1) this] show ?thesis using Some False by simp
    qed
  qed
qed simp

lemma pq_unlink_ends:
  assumes "ranked f (fst s)" "length (fst s) = NPROC" "bins_ok NPROC (snd s)" "set is \<subseteq> {..<NBIN}" "\<forall>q. found = Some q \<longrightarrow> q < NPROC"
  shows "\<exists>r s'. pq_unlink is pid found s = Inr (r, s') \<and> ranked f (fst s') \<and> length (fst s') = NPROC \<and> snd s' = snd s \<and>
     (\<forall>q. r = Some q \<longrightarrow> q < NPROC)"
  using assms
proof (induction "is" arbitrary: found s)
  case (Cons i "is")
  obtain ps bins where s: "s = (ps, bins)" by fastforce
  show ?case
  proof (cases "pl_head (bins ! i)")
    case None
    with Cons.IH [of s found] Cons.prems s show ?thesis by simp
  next
    case (Some p)
    then have p: "p < NPROC" using Cons.prems s by (auto simp: bins_ok_def)
    show ?thesis
    proof (cases "p_pid (ps ! p) = pid")
      case True
      with Some p Cons.prems s show ?thesis by simp
    next
      case False
      have "card {j. j < length ps \<and> f j < f p} < Suc NPROC"
        using below_card_le [of "length ps" f "f p"] Cons.prems(2) s by simp
      then obtain r ps' where w: "pq_walk (Suc NPROC) pid p ps = Inr (r, ps')" "ranked f ps'" "length ps' = length ps"
        "\<forall>q. r = Some q \<longrightarrow> q < length ps"
        using pq_walk_ends [of f ps p "Suc NPROC" pid] Cons.prems s p by auto
      have "\<exists>r' s'. pq_unlink is pid (case r of None \<Rightarrow> found | Some q \<Rightarrow> Some q) (ps', bins) = Inr (r', s') \<and> ranked f (fst s') \<and>
          length (fst s') = NPROC \<and> snd s' = snd (ps', bins) \<and> (\<forall>q. r' = Some q \<longrightarrow> q < NPROC)"
        using w Cons.prems s by (intro Cons.IH) (auto split: option.splits)
      then show ?thesis using w(1) Some False s by (simp del: pq_walk.simps)
    qed
  qed
qed simp

lemma pq_unlink_all:
  assumes "links_ok s"
  shows "\<exists>r s'. pq_unlink [0..<NBIN] pid None s = Inr (r, s') \<and> links_ok s' \<and> (\<forall>q. r = Some q \<longrightarrow> q < NPROC)"
proof -
  obtain f where f: "ranked f (fst s)" using assms by (auto simp: links_ok_def)
  then show ?thesis using assms pq_unlink_ends [OF f, of "[0..<NBIN]" None pid] by (auto simp: links_ok_def atLeast0LessThan)
qed

lemma enqueue_links:
  assumes ok: "links_ok s" and e: "pqueue_enqueue po priority s = Inr s'" and p: "\<And>p. po = Some p \<Longrightarrow> p < NPROC"
  shows "links_ok s'"
proof -
  obtain ps bins ps' bins' where s: "s = (ps, bins)" "s' = (ps', bins')" by fastforce
  obtain q where q: "po = Some q" using e by (cases po) (auto simp: pqueue_enqueue_def)
  obtain f where f: "ranked f ps" using ok s by (auto simp: links_ok_def)
  have len: "length ps = NPROC" "bins_ok NPROC bins" "length bins = NBIN" using ok s by (auto simp: links_ok_def)
  have b: "unat priority < NBIN" using e q s by (auto simp: pqueue_enqueue_def Let_def split: if_splits)
  have t: "t < length ps" if "pl_tail (bins ! unat priority) = Some t" for t using that len b by (auto simp: bins_ok_def)
  have n: "length ps' = length ps" "\<And>y. p_next (ps' ! y) = (if y = q then None
      else if pl_head (bins ! unat priority) \<noteq> None \<and> pl_tail (bins ! unat priority) = Some y then Some q else p_next (ps ! y))"
    using enqueue_next [OF e [unfolded s q]] p q len t by simp_all
  have "ranked (\<lambda>i. if i = q then 0 else Suc (f i)) ps'"
    using f n len p q by (auto simp: ranked_def split: if_splits)
  moreover have "bins_ok NPROC bins' \<and> length bins' = NBIN"
    using e q s len p by (auto simp: pqueue_enqueue_def Let_def bins_ok_def nth_upd bindr_eq_Inr split: if_splits option.splits)
  ultimately show ?thesis using n(1) len s by (auto simp: links_ok_def)
qed

inductive pq_step :: "pq \<Rightarrow> pq \<Rightarrow> bool" where
  enqueued: "\<lbrakk>p < NPROC; pqueue_enqueue (Some p) priority s = Inr s'\<rbrakk> \<Longrightarrow> pq_step s s'"
| prio: "prio_set c ip pid priority s = Inr (r, s') \<Longrightarrow> pq_step s s'"
| others: "\<lbrakk>length ps' = length ps; \<And>i. i < length ps \<Longrightarrow> p_next (ps' ! i) = p_next (ps ! i)\<rbrakk> \<Longrightarrow> pq_step (ps, bins) (ps', bins)"

lemma prio_set_cases:
  assumes "prio_set c ip pid priority s = Inr (r, s')"
  shows "s' = s \<or> (\<exists>proc s1. pq_unlink [0..<NBIN] pid None s = Inr (proc, s1) \<and> pqueue_enqueue proc priority s1 = Inr s')"
  using assms by (auto simp: prio_set_def bindr_eq_Inr split: if_splits option.splits prod.splits)

lemma links_ok_step: "pq_step s s' \<Longrightarrow> links_ok s \<Longrightarrow> links_ok s'"
proof (induction rule: pq_step.induct)
  case (enqueued p priority s s')
  then show ?case using enqueue_links by blast
next
  case (prio c ip pid priority s r s')
  from prio_set_cases [OF prio(1)] show ?case
  proof
    assume "\<exists>proc s1. pq_unlink [0..<NBIN] pid None s = Inr (proc, s1) \<and> pqueue_enqueue proc priority s1 = Inr s'"
    then obtain proc s1 where u: "pq_unlink [0..<NBIN] pid None s = Inr (proc, s1)" "pqueue_enqueue proc priority s1 = Inr s'" by blast
    have "links_ok s1 \<and> (\<forall>q. proc = Some q \<longrightarrow> q < NPROC)" using pq_unlink_all [OF prio(2), of pid] u(1) by auto
    with u(2) show ?thesis using enqueue_links by blast
  qed (use prio in simp)
next
  case (others ps' ps bins)
  then show ?case by (auto simp: links_ok_def ranked_def) metis
qed

text \<open>
  C24.  The loops of prio_set over the queue end: in every state that enqueues, re-enqueues of
  processes that are still linked, calls of prio_set and changes of the other process fields can
  produce from the initial queue, the search through all NBIN lists returns after at most
  NPROC + 1 links of each list.
\<close>

theorem pqueue_walks_end:
  assumes "pq_step\<^sup>*\<^sup>* (replicate NPROC zero_proc, queueinit bins) s"
  shows "\<exists>r. pq_unlink [0..<NBIN] pid None s = Inr r"
proof -
  have "links_ok s" using assms
  proof (induction rule: rtranclp_induct)
    case base
    show ?case by (auto simp: links_ok_def ranked_def bins_ok_def queueinit_def zero_proc_def)
  qed (rule links_ok_step)
  from pq_unlink_all [OF this] show ?thesis by blast
qed

theorem pqueue_walks_end_witness: "\<exists>r. pq_unlink [0..<NBIN] 7 None (replicate NPROC zero_proc, queueinit []) = Inr r"
  by (rule pqueue_walks_end [of "[]"]) simp

section \<open>Permission to change a priority\<close>

definition parent_of :: "proc list \<Rightarrow> nat \<Rightarrow> nat \<Rightarrow> bool" where
  "parent_of ps x y \<longleftrightarrow> p_parent (ps ! x) = Some y"

text \<open>The processes T form a tree with root r: parents are in T and the depth d counts the way to r.\<close>

definition proc_tree :: "proc list \<Rightarrow> nat set \<Rightarrow> nat \<Rightarrow> (nat \<Rightarrow> nat) \<Rightarrow> bool" where
  "proc_tree ps T r d \<longleftrightarrow> r \<in> T \<and> T \<subseteq> {..<NPROC} \<and> length ps = NPROC \<and> p_parent (ps ! r) = None \<and>
     (\<forall>x\<in>T. x \<noteq> r \<longrightarrow> (\<exists>y\<in>T. p_parent (ps ! x) = Some y \<and> d y < d x))"

lemma anc_walk_ok:
  assumes t: "proc_tree ps T r d" and p: "p \<in> T" "p \<noteq> r" and n: "card {j. j < NPROC \<and> d j < d p} < n"
  shows "anc_walk n c r (Some p) ps = Inr ((parent_of ps)\<^sup>+\<^sup>+ p c)"
  using p n
proof (induction n arbitrary: p)
  case (Suc n)
  obtain y where y: "y \<in> T" "p_parent (ps ! p) = Some y" "d y < d p" using t Suc.prems by (auto simp: proc_tree_def)
  have up: "(parent_of ps)\<^sup>+\<^sup>+ p c \<longleftrightarrow> y = c \<or> (parent_of ps)\<^sup>+\<^sup>+ y c"
  proof
    assume "(parent_of ps)\<^sup>+\<^sup>+ p c"
    then obtain z where "parent_of ps p z" "(parent_of ps)\<^sup>*\<^sup>* z c" by (blast dest: tranclpD)
    with y(2) show "y = c \<or> (parent_of ps)\<^sup>+\<^sup>+ y c" by (auto simp: parent_of_def dest: rtranclpD)
  next
    have "parent_of ps p y" using y(2) by (simp add: parent_of_def)
    then show "y = c \<or> (parent_of ps)\<^sup>+\<^sup>+ y c \<Longrightarrow> (parent_of ps)\<^sup>+\<^sup>+ p c" by (blast intro: tranclp_into_tranclp2)
  qed
  show ?case
  proof (cases "y = c \<or> y = r")
    case True
    have "\<not> (parent_of ps)\<^sup>+\<^sup>+ r c" using t by (auto simp: proc_tree_def parent_of_def dest: tranclpD)
    with True up y show ?thesis by auto
  next
    case False
    have "card {j. j < NPROC \<and> d j < d y} < n" using below_card [of d y p NPROC] y t Suc.prems(3) by (force simp: proc_tree_def)
    with Suc.IH [of y] False y up show ?thesis by simp
  qed
qed simp

text \<open>
  C25.  Who may change a priority: on a process tree, prio_set for a process other than the first
  one refuses with -1 and changes nothing exactly when the new priority is smaller than the
  present one (compared as unsigned numbers) or the caller is neither the process itself nor
  one of its ancestors; in all other cases the call does not return -1.
\<close>

theorem prio_set_permission:
  assumes "proc_tree ps T r d" "scan (\<lambda>p. p_pid p = pid) ps = Some p" "p \<in> T" "p \<noteq> r"
  shows "prio_set c r pid priority (ps, bins) = Inr (-1, (ps, bins)) \<longleftrightarrow>
     priority < p_priority (ps ! p) \<or> pid \<noteq> p_pid (ps ! c) \<and> \<not> (parent_of ps)\<^sup>+\<^sup>+ p c"
proof -
  have "anc_walk (Suc NPROC) c r (Some p) ps = Inr ((parent_of ps)\<^sup>+\<^sup>+ p c)"
    using below_card_le [of NPROC d "d p"] by (intro anc_walk_ok [OF assms(1,3,4)]) simp
  then show ?thesis using assms(2)
    by (auto simp: prio_set_def bindr_eq_Inr simp del: anc_walk.simps split: prod.splits)
qed

definition tree_example :: "proc list" where
  "tree_example = (replicate NPROC zero_proc)[0 := zero_proc\<lparr>p_pid := 1\<rparr>, 1 := zero_proc\<lparr>p_pid := 2, p_parent := Some 0\<rparr>,
     2 := zero_proc\<lparr>p_pid := 3, p_parent := Some 1\<rparr>]"

lemma tree_example_nth:
  "tree_example ! 0 = zero_proc\<lparr>p_pid := 1\<rparr>" "tree_example ! Suc 0 = zero_proc\<lparr>p_pid := 2, p_parent := Some 0\<rparr>"
  "tree_example ! 2 = zero_proc\<lparr>p_pid := 3, p_parent := Some 1\<rparr>" "length tree_example = NPROC"
  by (simp_all add: tree_example_def NPROC_def)

lemma scan_nth: "\<lbrakk>k < length xs; P (xs ! k); \<And>l. l < k \<Longrightarrow> \<not> P (xs ! l)\<rbrakk> \<Longrightarrow> scan P xs = Some k"
  by (simp add: scan_Some)

theorem prio_set_permission_witness:
  "prio_set 2 0 2 5 (tree_example, []) = Inr (-1, (tree_example, []))"
proof -
  have t: "proc_tree tree_example {0, 1, 2} 0 id" by (simp add: proc_tree_def tree_example_nth NPROC_def zero_proc_def)
  have s: "scan (\<lambda>p. p_pid p = 2) tree_example = Some 1"
    by (rule scan_nth) (simp_all add: tree_example_nth NPROC_def less_Suc_eq)
  have "\<not> (parent_of tree_example)\<^sup>+\<^sup>+ 1 2"
  proof
    assume "(parent_of tree_example)\<^sup>+\<^sup>+ 1 2"
    then obtain z where z: "parent_of tree_example 1 z" "(parent_of tree_example)\<^sup>*\<^sup>* z 2" by (blast dest: tranclpD)
    then have "z = 0" by (simp add: parent_of_def tree_example_nth)
    with z(2) have "\<exists>w. parent_of tree_example 0 w" by (metis converse_rtranclpE zero_neq_numeral)
    then show False by (simp add: parent_of_def tree_example_nth zero_proc_def)
  qed
  then show ?thesis using prio_set_permission [OF t s, of 2 5 "[]"] by (simp add: tree_example_nth)
qed

section \<open>A process at the head of its list\<close>

lemma pq_walk_none:
  "\<lbrakk>qpath ps (p_next (ps ! p)) ys; \<forall>y\<in>set ys. p_pid (ps ! y) \<noteq> pid; length ys < n\<rbrakk> \<Longrightarrow> pq_walk n pid p ps = Inr (None, ps)"
proof (induction ys arbitrary: p n)
  case Nil
  then show ?case by (cases n) auto
next
  case (Cons y ys)
  then show ?case by (cases n) auto
qed

lemma pq_unlink_head:
  assumes "\<forall>i\<in>set is. qpath ps (pl_head (bins ! i)) (Ls ! i) \<and> length (Ls ! i) \<le> NPROC \<and> (\<forall>y\<in>set (Ls ! i). p_pid (ps ! y) \<noteq> pid)"
    "pl_head (bins ! k) = Some p" "p_pid (ps ! p) = pid"
  shows "pq_unlink (is @ k # js) pid found (ps, bins) = Inr (Some p, (ps, bins))"
  using assms(1)
proof (induction "is" arbitrary: found)
  case (Cons i "is")
  have ih: "pq_unlink (is @ k # js) pid found (ps, bins) = Inr (Some p, (ps, bins))" for found using Cons by simp
  show ?case
  proof (cases "Ls ! i")
    case Nil
    with Cons.prems ih show ?thesis by simp
  next
    case (Cons h t)
    then have w: "pq_walk (Suc NPROC) pid h ps = Inr (None, ps)"
      using Cons.prems by (intro pq_walk_none [of ps h t]) auto
    show ?thesis using Cons Cons.prems w ih by (simp del: pq_walk.simps)
  qed
qed (use assms in simp)

lemma queue_ok_len: "queue_ok (ps, bins) Ls \<Longrightarrow> length ps = NPROC \<Longrightarrow> i < NBIN \<Longrightarrow> length (Ls ! i) \<le> NPROC"
proof -
  assume ok: "queue_ok (ps, bins) Ls" and l: "length ps = NPROC" and i: "i < NBIN"
  then have "set (Ls ! i) \<subseteq> {..<NPROC}" using qpath_range by (fastforce simp: queue_ok_def qbin_def)
  moreover have "distinct (Ls ! i)" using ok i by (auto simp: queue_ok_def distinct_concat_iff)
  ultimately show "length (Ls ! i) \<le> NPROC" by (metis card_lessThan card_mono distinct_card finite_lessThan)
qed

text \<open>
  prio_set does not take a process off the list it heads: when process p heads the list of
  its present priority k and is moved to a priority b above k, the call returns 0 with p as the
  tail of list b and still the head of list k, which has lost every other process it held.
\<close>

theorem prio_set_head_stays:
  assumes ok: "queue_ok (ps, bins) Ls" and len: "length ps = NPROC" and k: "k < unat b" "unat b < NBIN"
    and p: "Ls ! k = p # rest" "p_pid (ps ! p) = pid" "p_priority (ps ! p) = of_nat k" "scan (\<lambda>q. p_pid q = pid) ps = Some p"
    and u: "\<forall>q\<in>set (concat Ls). p_pid (ps ! q) = pid \<longrightarrow> q = p" and c: "p_pid (ps ! c) = pid"
  shows "\<exists>ps' bins'. prio_set c ip pid b (ps, bins) = Inr (0, (ps', bins')) \<and>
     qpath ps' (pl_head (bins' ! k)) [p] \<and> pl_tail (bins' ! unat b) = Some p"
proof -
  have L: "length bins = NBIN" "length Ls = NBIN" using ok by (auto simp: queue_ok_def)
  have q: "qbin ps (bins ! i) (Ls ! i)" if "i < NBIN" for i using ok that by (simp add: queue_ok_def)
  have kN: "k < NBIN" using k by simp
  have ph: "pl_head (bins ! k) = Some p" "p < length ps" using q [OF kN] p(1) by (auto simp: qbin_def)
  have other: "p_pid (ps ! y) \<noteq> pid" if y: "y \<in> set (Ls ! i)" "i < k" for i y
  proof
    assume "p_pid (ps ! y) = pid"
    moreover have "y \<in> set (concat Ls)" using y kN L nth_mem [of i Ls] by auto
    ultimately have "y = p" using u by blast
    then have "y \<in> set (Ls ! i) \<inter> set (Ls ! k)" using y p(1) by simp
    then show False using distinct_concat_disjoint [of Ls i k] ok y kN L by (auto simp: queue_ok_def)
  qed
  have "pq_unlink ([0..<k] @ k # [Suc k..<NBIN]) pid None (ps, bins) = Inr (Some p, (ps, bins))"
    using q other queue_ok_len [OF ok len] kN ph p by (intro pq_unlink_head [where Ls = Ls]) (auto simp: qbin_def)
  moreover have "[0..<k] @ k # [Suc k..<NBIN] = [0..<NBIN]" using kN by (metis upt_add_eq_append upt_conv_Cons le_add_diff_inverse less_imp_le_nat zero_le)
  ultimately have un: "pq_unlink [0..<NBIN] pid None (ps, bins) = Inr (Some p, (ps, bins))" by simp
  have ek: "unat (of_nat k :: u32) = k" using kN by (simp add: NBIN_def)
  have pr: "\<not> b < of_nat k" "b \<noteq> of_nat k" using k ek by (auto simp: word_less_nat_alt)
  have head: "pl_head (bins ! unat b) = None \<longleftrightarrow> Ls ! unat b = []" using q [OF k(2)] by (cases "Ls ! unat b") (auto simp: qbin_def)
  have tl: "Ls ! unat b \<noteq> [] \<Longrightarrow> pl_tail (bins ! unat b) = Some (last (Ls ! unat b))" using q [OF k(2)] by (auto simp: qbin_def)
  obtain ps' bins' where e: "pqueue_enqueue (Some p) b (ps, bins) = Inr (ps', bins')" "pl_tail (bins' ! unat b) = Some p"
    "bins' ! k = bins ! k" "length ps' = length ps" "p_next (ps' ! p) = None"
    using k ph L head tl by (cases "Ls ! unat b = []") (auto simp: pqueue_enqueue_def Let_def split: option.splits)
  have "prio_set c ip pid b (ps, bins) = Inr (0, (ps', bins'))"
    using p c pr un e(1) by (simp add: prio_set_def)
  with e ph show ?thesis by auto
qed

definition head_example :: pq where
  "head_example = (tree_example[2 := (tree_example ! 2)\<lparr>p_next := Some 1\<rparr>],
     (queueinit [])[0 := \<lparr>pl_head = Some 2, pl_tail = Some 1, pl_size = 2\<rparr>])"

lemma head_example_nth:
  "fst head_example ! 0 = zero_proc\<lparr>p_pid := 1\<rparr>" "fst head_example ! Suc 0 = zero_proc\<lparr>p_pid := 2, p_parent := Some 0\<rparr>"
  "fst head_example ! 2 = zero_proc\<lparr>p_pid := 3, p_parent := Some 1, p_next := Some 1\<rparr>" "length (fst head_example) = NPROC"
  by (simp_all add: head_example_def tree_example_nth NPROC_def)

theorem prio_set_head_stays_witness:
  "\<exists>ps' bins'. prio_set 2 0 3 4 head_example = Inr (0, (ps', bins')) \<and>
     qpath ps' (pl_head (bins' ! 0)) [2] \<and> pl_tail (bins' ! 4) = Some 2"
proof -
  let ?Ls = "(replicate NBIN [])[0 := [2, 1]] :: nat list list"
  have "qbin (fst head_example) (snd head_example ! i) (?Ls ! i)" if "i < NBIN" for i
    using that by (cases i) (auto simp: qbin_def head_example_nth NPROC_def zero_proc_def head_example_def queueinit_def NBIN_def tree_example_nth)
  moreover have "length (snd head_example) = NBIN" by (simp add: head_example_def queueinit_def)
  moreover have "distinct (concat ?Ls)" by (simp add: NBIN_def numeral_eq_Suc)
  ultimately have ok: "queue_ok (fst head_example, snd head_example) ?Ls" by (simp add: queue_ok_def)
  have s: "scan (\<lambda>q. p_pid q = 3) (fst head_example) = Some 2"
    by (rule scan_nth) (auto simp: head_example_nth head_example_nth(3) [unfolded numeral_2_eq_2] NPROC_def less_Suc_eq numeral_2_eq_2)
  have "concat ?Ls = [2, 1]" by (simp add: NBIN_def numeral_eq_Suc)
  then have u: "\<forall>q\<in>set (concat ?Ls). p_pid (fst head_example ! q) = 3 \<longrightarrow> q = 2" by (simp add: head_example_nth)
  show ?thesis
    using prio_set_head_stays [OF ok head_example_nth(4), of 0 4 2 "[1]" 3 2 0, OF _ _ _ _ _ s u]
    by (simp add: head_example_nth NBIN_def zero_proc_def)
qed

end
