(* ===== verification/Mutex.thy ===== *)
theory Mutex
  imports Proc Carray
begin

text \<open>
  Named mutexes and condition variables (proc.c: mutex_create, mutex_delete, mutex_lock,
  mutex_unlock, mutex_holding, cv_wait, cv_signal, and what kill does to mutexes).  A section
  under mtable.lock is one step; a process that has to sleep gives the result Blocked.
\<close>

record mutex =
  m_locked :: bool
  m_isAlloc :: bool
  m_pid :: int
  m_name :: "u8 list"
  m_refcount :: int
  m_container_id :: u32
  m_cv :: bool

definition zero_mutex :: mutex where
  "zero_mutex = \<lparr>m_locked = False, m_isAlloc = False, m_pid = 0, m_name = replicate 20 0, m_refcount = 0,
     m_container_id = 0, m_cv = False\<rparr>"

type_synonym mst = "proc list \<times> mutex list"

text \<open>cas from cas.h: returns whether the value was the expected one and then replaces it.\<close>

definition cas :: "bool \<Rightarrow> bool \<Rightarrow> bool \<Rightarrow> bool \<times> bool" where
  "cas target old updated = (if target = old then (True, updated) else (False, target))"

text \<open>The caller's table entry for a mutex id; the id comes from user space and is not checked.\<close>

definition mux_at :: "nat \<Rightarrow> int \<Rightarrow> proc list \<Rightarrow> nat option res" where
  "mux_at pi muxid ps =
     (if 0 \<le> muxid \<and> muxid < int MUX_MAXNUM then Inr (p_mutex (ps ! pi) ! nat muxid) else Inl (Undefined ''proc.mutex''))"

definition mutex_holding :: "nat \<Rightarrow> nat \<Rightarrow> mst \<Rightarrow> bool" where
  "mutex_holding pi m s \<longleftrightarrow> m_locked (snd s ! m) \<and> m_pid (snd s ! m) = p_pid (fst s ! pi)"

section \<open>mutex_create\<close>

datatype mc_found = Existing nat | Unallocated "nat option"

text \<open>The scan of mtable: un is the first free entry; only later entries are compared by name.\<close>

fun mc_scan :: "u8 list \<Rightarrow> u32 \<Rightarrow> nat \<Rightarrow> nat option \<Rightarrow> mutex list \<Rightarrow> mc_found res" where
  "mc_scan name cid i un [] = Inr (Unallocated un)"
| "mc_scan name cid i un (m # ms) =
     (if \<not> m_isAlloc m \<and> un = None then mc_scan name cid (Suc i) (Some i) ms
      else bindr (strncmp_arr (name @ [0]) (m_name m) (length name)) (\<lambda>r.
           if r = 0 \<and> m_container_id m = cid then Inr (Existing i) else mc_scan name cid (Suc i) un ms))"

text \<open>The loop at addtoProc: the first free slot, unless the process has the mutex already.\<close>

fun mc_slot :: "nat option list \<Rightarrow> nat \<Rightarrow> nat \<Rightarrow> nat option \<Rightarrow> nat option" where
  "mc_slot [] m i muxid = muxid"
| "mc_slot (x # xs) m i muxid =
     (if x = None \<and> muxid = None then mc_slot xs m (Suc i) (Some i)
      else if x = Some m then None
      else mc_slot xs m (Suc i) muxid)"

definition set_mux :: "nat \<Rightarrow> nat \<Rightarrow> nat option \<Rightarrow> proc list \<Rightarrow> proc list" where
  "set_mux pi k v ps = ps[pi := (ps ! pi)\<lparr>p_mutex := (p_mutex (ps ! pi))[k := v]\<rparr>]"

definition mutex_create :: "nat \<Rightarrow> u8 list \<Rightarrow> mst \<Rightarrow> (int \<times> mst) res" where
  "mutex_create pi name s =
     (case s of (ps, ms) \<Rightarrow>
       let p = ps ! pi in
       bindr (mc_scan name (p_container_id p) 0 None ms) (\<lambda>r.
         case r of
           Existing m \<Rightarrow>
             (case mc_slot (p_mutex p) m 0 None of
                Some k \<Rightarrow> Inr (int k, (set_mux pi k (Some m) ps, ms[m := (ms ! m)\<lparr>m_refcount := m_refcount (ms ! m) + 1\<rparr>]))
              | None \<Rightarrow> Inr (-1, s))
         | Unallocated None \<Rightarrow> Inr (-1, s)
         | Unallocated (Some u) \<Rightarrow>
             bindr (strncpy_arr (m_name (ms ! u)) (name @ [0]) (length name)) (\<lambda>nm.
               let ms' = ms[u := (ms ! u)\<lparr>m_isAlloc := True, m_name := nm, m_refcount := 1,
                                          m_container_id := p_container_id p, m_cv := False\<rparr>] in
               case scan (\<lambda>x. x = None) (p_mutex p) of
                 Some k \<Rightarrow> Inr (int k, (set_mux pi k (Some u) ps, ms'))
               | None \<Rightarrow> Inr (-1, (ps, ms')))))"

section \<open>mutex_delete, mutex_lock, mutex_unlock\<close>

definition mutex_delete :: "nat \<Rightarrow> int \<Rightarrow> mst \<Rightarrow> mst res" where
  "mutex_delete pi muxid s =
     (case s of (ps, ms) \<Rightarrow>
       bindr (mux_at pi muxid ps) (\<lambda>mo.
         case mo of
           None \<Rightarrow> Inr s
         | Some m \<Rightarrow>
             let ps' = set_mux pi (nat muxid) None ps in
             if m_refcount (ms ! m) = 1
             then Inr (ps', ms[m := (ms ! m)\<lparr>m_isAlloc := False, m_refcount := 0, m_container_id := 0, m_locked := False\<rparr>])
             else let ms1 = (if mutex_holding pi m (ps', ms) then ms[m := (ms ! m)\<lparr>m_locked := False\<rparr>] else ms)
                  in Inr (ps', ms1[m := (ms1 ! m)\<lparr>m_refcount := m_refcount (ms1 ! m) - 1\<rparr>])))"

definition mutex_unlock :: "nat \<Rightarrow> int \<Rightarrow> mst \<Rightarrow> mst res" where
  "mutex_unlock pi muxid s =
     (case s of (ps, ms) \<Rightarrow>
       bindr (mux_at pi muxid ps) (\<lambda>mo.
         case mo of
           None \<Rightarrow> Inr s
         | Some m \<Rightarrow>
             if mutex_holding pi m s then Inr (wakeup1 (CMutex m) ps, ms[m := (ms ! m)\<lparr>m_locked := False\<rparr>])
             else Inr s))"

definition mutex_lock :: "nat \<Rightarrow> int \<Rightarrow> mst \<Rightarrow> mst res" where
  "mutex_lock pi muxid s =
     (case s of (ps, ms) \<Rightarrow>
       bindr (mux_at pi muxid ps) (\<lambda>mo.
         case mo of
           None \<Rightarrow> Inr s
         | Some m \<Rightarrow>
             if mutex_holding pi m s then Inr s
             else if m_locked (ms ! m) then Inl Blocked
             else Inr (ps, ms[m := (ms ! m)\<lparr>m_locked := True, m_pid := p_pid (ps ! pi)\<rparr>])))"

section \<open>kill\<close>

text \<open>What kill does to the mutexes of its victim v, slot by slot.\<close>

definition kill_mutex :: "nat \<Rightarrow> nat \<Rightarrow> mst \<Rightarrow> mst" where
  "kill_mutex v i s =
     (case s of (ps, ms) \<Rightarrow>
       (case p_mutex (ps ! v) ! i of
          None \<Rightarrow> s
        | Some m \<Rightarrow>
            let ms1 = (if p_state (ps ! v) = SLEEPING \<and> p_chan (ps ! v) = Some (CMutex m)
                       then ms[m := (ms ! m)\<lparr>m_cv := snd (cas (m_cv (ms ! m)) False True)\<rparr>] else ms) in
            if m_refcount (ms1 ! m) = 1
            then (ps, ms1[m := (ms1 ! m)\<lparr>m_isAlloc := False, m_refcount := 0, m_locked := False, m_cv := False, m_container_id := 0\<rparr>])
            else (ps, ms1[m := (ms1 ! m)\<lparr>m_locked := False, m_refcount := m_refcount (ms1 ! m) - 1\<rparr>])))"

definition kill :: "nat \<Rightarrow> int \<Rightarrow> mst \<Rightarrow> int \<times> mst" where
  "kill curproc pid s =
     (case s of (ps, ms) \<Rightarrow>
       (case scan (\<lambda>p. p_pid p = pid \<and> p_container_id p = p_container_id (ps ! curproc)) ps of
          None \<Rightarrow> (-1, s)
        | Some v \<Rightarrow>
            let s1 = fold (kill_mutex v) [0..<MUX_MAXNUM] (ps[v := (ps ! v)\<lparr>p_killed := True\<rparr>], ms) in
            (0, ((fst s1)[v := (if p_state (fst s1 ! v) = SLEEPING then (fst s1 ! v)\<lparr>p_state := RUNNABLE\<rparr> else fst s1 ! v)], snd s1))))"

section \<open>Condition variables\<close>

text \<open>
  The parts of cv_wait and cv_signal between which other processes can run: after the mutex is
  released, cv_wait tries cas on the flag without any lock, and goes to sleep under ptable.lock
  when that fails; cv_signal sets the flag under mtable.lock and wakes the sleepers after it.
\<close>

definition cv_try :: "nat \<Rightarrow> mutex list \<Rightarrow> bool \<times> mutex list" where
  "cv_try m ms = (case cas (m_cv (ms ! m)) True False of (ok, v) \<Rightarrow> (ok, ms[m := (ms ! m)\<lparr>m_cv := v\<rparr>]))"

definition cv_sleep :: "nat \<Rightarrow> nat \<Rightarrow> proc list \<Rightarrow> proc list" where
  "cv_sleep pi m ps = ps[pi := (ps ! pi)\<lparr>p_chan := Some (CMutex m), p_state := SLEEPING\<rparr>]"

definition cv_set :: "nat \<Rightarrow> mutex list \<Rightarrow> bool \<times> mutex list" where
  "cv_set m ms = (if \<not> m_cv (ms ! m) then (True, ms[m := (ms ! m)\<lparr>m_cv := True\<rparr>]) else (False, ms))"

definition cv_signal_round :: "nat \<Rightarrow> mst \<Rightarrow> bool \<times> mst" where
  "cv_signal_round m s = (case cv_set m (snd s) of (done, ms) \<Rightarrow> (done, (wakeup1 (CMutex m) (fst s), ms)))"

section \<open>The scans\<close>

lemma mc_scan_result:
  assumes "mc_scan name cid i un ms = Inr r" "0 \<notin> set name" "\<forall>m\<in>set ms. length name \<le> length (m_name m)"
  shows "case r of
     Existing k \<Rightarrow> \<exists>j<length ms. k = i + j \<and> m_container_id (ms ! j) = cid \<and> take (length name) (m_name (ms ! j)) = name
   | Unallocated (Some u) \<Rightarrow> un = Some u \<or> un = None \<and> (\<exists>j<length ms. u = i + j \<and> \<not> m_isAlloc (ms ! j))
   | Unallocated None \<Rightarrow> un = None \<and> (\<forall>m\<in>set ms. m_isAlloc m)"
  using assms
proof (induction ms arbitrary: i un)
  case Nil
  then show ?case by (auto split: option.splits)
next
  case (Cons m ms)
  have lift: "case r of
     Existing k \<Rightarrow> \<exists>j<length (m # ms). k = i + j \<and> m_container_id ((m # ms) ! j) = cid \<and> take (length name) (m_name ((m # ms) ! j)) = name
   | Unallocated (Some u) \<Rightarrow> un = Some u \<or> un = None \<and> (\<exists>j<length (m # ms). u = i + j \<and> \<not> m_isAlloc ((m # ms) ! j))
   | Unallocated None \<Rightarrow> un = None \<and> (\<forall>m\<in>set (m # ms). m_isAlloc m)"
    if scan: "mc_scan name cid (Suc i) un' ms = Inr r" and un: "un' = un \<and> (m_isAlloc m \<or> un \<noteq> None) \<or> un' = Some i \<and> un = None \<and> \<not> m_isAlloc m" for un'
    using Cons.IH [OF scan] Cons.prems(2,3) un
    by (auto split: mc_found.splits option.splits intro: exI [of _ 0])
  obtain c where c: "strncmp_arr (name @ [0]) (m_name m) (length name) = Inr c" "c = 0 \<longleftrightarrow> take (length name) (m_name m) = name"
    using strncmp_arr_prefix [of name "m_name m" "[0]"] Cons.prems by auto
  show ?case
  proof (cases "\<not> m_isAlloc m \<and> un = None")
    case True
    then show ?thesis using lift [of "Some i"] Cons.prems(1) by simp
  next
    case False
    show ?thesis
    proof (cases "c = 0 \<and> m_container_id m = cid")
      case True
      then have "r = Existing i" using Cons.prems(1) False c by auto
      then show ?thesis using True c by (auto intro!: exI [of _ 0])
    next
      case no: False
      then show ?thesis using lift [of un] Cons.prems(1) False c by auto
    qed
  qed
qed

lemma mc_slot_some: "mc_slot xs m i (Some k) = (if Some m \<in> set xs then None else Some k)"
  by (induction xs arbitrary: i) auto

lemma mc_slot_none: "mc_slot xs m i None = (if Some m \<in> set xs then None else scan_from (\<lambda>x. x = None) i xs)"
  by (induction xs arbitrary: i) (auto simp: mc_slot_some)

section \<open>Reference counts inside containers\<close>

definition refs :: "proc list \<Rightarrow> nat \<Rightarrow> nat" where
  "refs ps m = count_if (\<lambda>p. Some m \<in> set (p_mutex p)) ps"

definition slots_ok :: "nat option list \<Rightarrow> bool" where
  "slots_ok xs \<longleftrightarrow> length xs = MUX_MAXNUM \<and> (\<forall>m. Some m \<in> set xs \<longrightarrow> m < MUX_MAXNUM) \<and>
     (\<forall>a b. a < length xs \<and> b < length xs \<and> xs ! a = xs ! b \<and> xs ! a \<noteq> None \<longrightarrow> a = b)"

definition mutex_ok :: "mst \<Rightarrow> nat \<Rightarrow> bool" where
  "mutex_ok s m \<longleftrightarrow> length (m_name (snd s ! m)) = 20 \<and> m_refcount (snd s ! m) = int (refs (fst s) m) \<and>
     (m_isAlloc (snd s ! m) \<longleftrightarrow> 0 < refs (fst s) m) \<and>
     (\<not> m_isAlloc (snd s ! m) \<longrightarrow> \<not> m_locked (snd s ! m) \<and> m_container_id (snd s ! m) = 0)"

definition mux_inv :: "mst \<Rightarrow> bool" where
  "mux_inv s \<longleftrightarrow> length (snd s) = MUX_MAXNUM \<and> (\<forall>m<MUX_MAXNUM. mutex_ok s m) \<and>
     (\<forall>i<length (fst s). slots_ok (p_mutex (fst s ! i)) \<and>
        (\<forall>m. Some m \<in> set (p_mutex (fst s ! i)) \<longrightarrow> m_container_id (snd s ! m) = p_container_id (fst s ! i)))"

lemma set_mux_nth:
  "j < length ps \<Longrightarrow> p_mutex (set_mux pi k v ps ! j) = (if j = pi then (p_mutex (ps ! pi))[k := v] else p_mutex (ps ! j))"
  "p_container_id (set_mux pi k v ps ! j) = p_container_id (ps ! j)" "p_pid (set_mux pi k v ps ! j) = p_pid (ps ! j)"
  "length (set_mux pi k v ps) = length ps"
  by (simp_all add: set_mux_def nth_upd)

lemma refs_set_mux:
  assumes "pi < length ps"
  shows "refs (set_mux pi k v ps) m + of_bool (Some m \<in> set (p_mutex (ps ! pi))) =
     refs ps m + of_bool (Some m \<in> set ((p_mutex (ps ! pi))[k := v]))"
  using count_if_update [OF assms, of "\<lambda>p. Some m \<in> set (p_mutex p)"] by (simp add: refs_def set_mux_def)

lemma slots_ok_add: "\<lbrakk>slots_ok xs; k < length xs; xs ! k = None; Some m \<notin> set xs; m < MUX_MAXNUM\<rbrakk> \<Longrightarrow> slots_ok (xs[k := Some m])"
  unfolding slots_ok_def using set_update_subset_insert [of xs k "Some m"]
  by (auto simp: nth_list_update) (metis nth_mem)+

lemma slots_ok_del: "slots_ok xs \<Longrightarrow> slots_ok (xs[k := None])"
  unfolding slots_ok_def using set_update_subset_insert [of xs k None]
  by (cases "k < length xs"; auto simp: nth_list_update split: if_splits; metis)

lemma slots_del_set: "\<lbrakk>slots_ok xs; k < length xs; xs ! k = Some m\<rbrakk> \<Longrightarrow> Some n \<in> set (xs[k := None]) \<longleftrightarrow> Some n \<in> set xs \<and> n \<noteq> m"
  by (auto simp: in_set_conv_nth slots_ok_def nth_list_update split: if_splits) (metis option.inject)+

lemma slots_add_set: "\<lbrakk>k < length xs; xs ! k = None\<rbrakk> \<Longrightarrow> Some n \<in> set (xs[k := Some m]) \<longleftrightarrow> Some n \<in> set xs \<or> n = m"
  by (auto simp: in_set_conv_nth nth_list_update) (metis option.distinct(1))+

lemma refs_add: "\<lbrakk>pi < length ps; k < length (p_mutex (ps ! pi)); p_mutex (ps ! pi) ! k = None; Some m \<notin> set (p_mutex (ps ! pi))\<rbrakk>
    \<Longrightarrow> refs (set_mux pi k (Some m) ps) n = refs ps n + of_bool (n = m)"
  using refs_set_mux [of pi ps k "Some m" n] slots_add_set [of k "p_mutex (ps ! pi)" n m] by (auto split: if_splits)

lemma refs_del: "\<lbrakk>pi < length ps; slots_ok (p_mutex (ps ! pi)); k < length (p_mutex (ps ! pi)); p_mutex (ps ! pi) ! k = Some m\<rbrakk>
    \<Longrightarrow> refs (set_mux pi k None ps) n + of_bool (n = m) = refs ps n"
  using refs_set_mux [of pi ps k None n] slots_del_set [of "p_mutex (ps ! pi)" k m n] nth_mem [of k "p_mutex (ps ! pi)"]
  by (cases "n = m") (auto split: if_splits)

lemma refs_pos: "\<lbrakk>i < length ps; Some m \<in> set (p_mutex (ps ! i))\<rbrakk> \<Longrightarrow> 0 < refs ps m"
  unfolding refs_def by (rule count_if_nth_pos)

lemma mux_inv_add:
  assumes inv: "mux_inv (ps, ms)" and pi: "pi < length ps" and k: "k < MUX_MAXNUM" "p_mutex (ps ! pi) ! k = None"
    and m: "m < MUX_MAXNUM" "Some m \<notin> set (p_mutex (ps ! pi))"
    and x: "length (m_name x) = 20" "m_refcount x = int (refs ps m) + 1" "m_isAlloc x" "m_container_id x = p_container_id (ps ! pi)"
      "0 < refs ps m \<Longrightarrow> m_container_id x = m_container_id (ms ! m)"
  shows "mux_inv (set_mux pi k (Some m) ps, ms[m := x])"
proof -
  have so: "slots_ok (p_mutex (ps ! i))" "\<And>n. Some n \<in> set (p_mutex (ps ! i)) \<Longrightarrow> m_container_id (ms ! n) = p_container_id (ps ! i)"
    if "i < length ps" for i using inv that by (auto simp: mux_inv_def)
  have len: "length ms = MUX_MAXNUM" "\<And>i. i < length ps \<Longrightarrow> length (p_mutex (ps ! i)) = MUX_MAXNUM"
    using inv so by (auto simp: mux_inv_def slots_ok_def)
  have r: "refs (set_mux pi k (Some m) ps) n = refs ps n + of_bool (n = m)" for n
    using refs_add [of pi ps k m n] pi k m len by simp
  have "mutex_ok (set_mux pi k (Some m) ps, ms[m := x]) n" if "n < MUX_MAXNUM" for n
    using inv that r x len by (cases "n = m") (auto simp: mux_inv_def mutex_ok_def)
  moreover have "slots_ok (p_mutex (set_mux pi k (Some m) ps ! i))" if "i < length ps" for i
    using that so slots_ok_add [of "p_mutex (ps ! pi)" k m] pi k m len by (simp add: set_mux_nth)
  moreover have "m_container_id (ms[m := x] ! n) = p_container_id (set_mux pi k (Some m) ps ! i)"
    if i: "i < length ps" and n: "Some n \<in> set (p_mutex (set_mux pi k (Some m) ps ! i))" for i n
  proof (cases "n = m")
    case True
    show ?thesis
    proof (cases "i = pi")
      case False
      then have "Some m \<in> set (p_mutex (ps ! i))" using n i True by (simp add: set_mux_nth)
      then have "m_container_id x = p_container_id (ps ! i)" using x(5) refs_pos [OF i] so(2) [OF i] by metis
      then show ?thesis using True m len by (simp add: set_mux_nth)
    qed (use True m len x in \<open>simp add: set_mux_nth\<close>)
  next
    case False
    then have "Some n \<in> set (p_mutex (ps ! i))"
      using n i slots_add_set [of k "p_mutex (ps ! pi)" n m] k len by (auto simp: set_mux_nth split: if_splits)
    then show ?thesis using so(2) [OF i] False by (simp add: set_mux_nth)
  qed
  ultimately show ?thesis using len by (simp add: mux_inv_def set_mux_nth)
qed

lemma slots_full:
  assumes "slots_ok xs" "None \<notin> set xs" "m < MUX_MAXNUM"
  shows "Some m \<in> set xs"
proof -
  have "distinct xs" unfolding distinct_conv_nth
  proof (intro allI impI)
    fix a b assume ab: "a < length xs" "b < length xs" "a \<noteq> b"
    then have "xs ! a \<noteq> None" using assms(2) by (metis nth_mem)
    then show "xs ! a \<noteq> xs ! b" using ab assms(1) unfolding slots_ok_def by blast
  qed
  then have "card (set xs) = MUX_MAXNUM" using assms(1) by (simp add: distinct_card slots_ok_def)
  moreover have "set xs \<subseteq> Some ` {..<MUX_MAXNUM}"
  proof
    fix y assume y: "y \<in> set xs"
    then obtain n where "y = Some n" using assms(2) by (metis option.exhaust)
    with y assms(1) show "y \<in> Some ` {..<MUX_MAXNUM}" by (auto simp: slots_ok_def)
  qed
  ultimately have "set xs = Some ` {..<MUX_MAXNUM}" by (simp add: card_image card_subset_eq)
  with assms(3) show ?thesis by auto
qed

lemma mux_inv_alloc: "\<lbrakk>mux_inv (ps, ms); m < MUX_MAXNUM; m_container_id (ms ! m) \<noteq> 0\<rbrakk> \<Longrightarrow> m_isAlloc (ms ! m)"
  by (auto simp: mux_inv_def mutex_ok_def)

text \<open>mutex_create by a process of a container: nothing, or one new reference in a free slot.\<close>

lemma create_cases:
  assumes inv: "mux_inv (ps, ms)" and pi: "pi < length ps" and cid: "p_container_id (ps ! pi) \<noteq> 0"
    and nm: "0 \<notin> set name" "length name \<le> 20" and c: "mutex_create pi name (ps, ms) = Inr (r, s')"
  shows "r = -1 \<and> s' = (ps, ms) \<or>
    (\<exists>k m x. r = int k \<and> k < MUX_MAXNUM \<and> p_mutex (ps ! pi) ! k = None \<and> m < MUX_MAXNUM \<and> Some m \<notin> set (p_mutex (ps ! pi)) \<and>
       s' = (set_mux pi k (Some m) ps, ms[m := x]) \<and> length (m_name x) = 20 \<and> take (length name) (m_name x) = name \<and>
       m_refcount x = int (refs ps m) + 1 \<and> m_isAlloc x \<and> m_container_id x = p_container_id (ps ! pi) \<and>
       (0 < refs ps m \<longrightarrow> m_container_id x = m_container_id (ms ! m) \<and> m_locked x = m_locked (ms ! m) \<and> m_pid x = m_pid (ms ! m)))"
proof -
  have so: "slots_ok (p_mutex (ps ! pi))" using inv pi by (simp add: mux_inv_def)
  then have len: "length ms = MUX_MAXNUM" "length (p_mutex (ps ! pi)) = MUX_MAXNUM" using inv by (simp_all add: mux_inv_def slots_ok_def)
  have ok: "mutex_ok (ps, ms) m" if "m < MUX_MAXNUM" for m using inv that by (simp add: mux_inv_def)
  have names: "\<forall>m\<in>set ms. length name \<le> length (m_name m)"
    using ok len nm(2) by (auto simp: in_set_conv_nth mutex_ok_def)
  from c obtain f where f: "mc_scan name (p_container_id (ps ! pi)) 0 None ms = Inr f"
    by (auto simp: mutex_create_def Let_def bindr_eq_Inr)
  note res = mc_scan_result [OF f nm(1) names]
  show ?thesis
  proof (cases f)
    case (Existing m)
    then have m: "m < MUX_MAXNUM" "m_container_id (ms ! m) = p_container_id (ps ! pi)" "take (length name) (m_name (ms ! m)) = name"
      using res len by auto
    then have al: "m_isAlloc (ms ! m)" using mux_inv_alloc [OF inv] cid by simp
    show ?thesis
    proof (cases "mc_slot (p_mutex (ps ! pi)) m 0 None")
      case None
      then show ?thesis using c f Existing by (simp add: mutex_create_def Let_def)
    next
      case (Some k)
      then have "Some m \<notin> set (p_mutex (ps ! pi))" "scan (\<lambda>x. x = None) (p_mutex (ps ! pi)) = Some k"
        by (auto simp: mc_slot_none scan_def split: if_splits)
      then show ?thesis using c f Existing Some m ok [OF m(1)] len al
        by (intro disjI2 exI [of _ k] exI [of _ m] exI [of _ "(ms ! m)\<lparr>m_refcount := m_refcount (ms ! m) + 1\<rparr>"])
          (auto simp: mutex_create_def Let_def scan_Some mutex_ok_def)
    qed
  next
    case (Unallocated un)
    show ?thesis
    proof (cases un)
      case None
      then show ?thesis using c f Unallocated by (simp add: mutex_create_def Let_def)
    next
      case (Some u)
      then have u: "u < MUX_MAXNUM" "\<not> m_isAlloc (ms ! u)" using res Unallocated len by auto
      then have z: "refs ps u = 0" "length (m_name (ms ! u)) = 20" using ok [of u] by (auto simp: mutex_ok_def)
      then have nu: "Some u \<notin> set (p_mutex (ps ! pi))" using refs_pos [OF pi, of u] by auto
      then have "None \<in> set (p_mutex (ps ! pi))" using slots_full [OF so] u by blast
      then obtain k where k: "scan (\<lambda>x. x = None) (p_mutex (ps ! pi)) = Some k"
        by (cases "scan (\<lambda>x. x = None) (p_mutex (ps ! pi))") (auto simp: scan_None)
      let ?nm = "name @ drop (length name) (m_name (ms ! u))"
      have cp: "strncpy_arr (m_name (ms ! u)) (name @ [0]) (length name) = Inr ?nm"
        using strncpy_arr_short [OF nm(1)] nm(2) z(2) by simp
      show ?thesis using c f Unallocated Some u z nu k cp nm(2) len
        by (intro disjI2 exI [of _ k] exI [of _ u] exI [of _ "(ms ! u)\<lparr>m_isAlloc := True, m_name := ?nm, m_refcount := 1,
            m_container_id := p_container_id (ps ! pi), m_cv := False\<rparr>"]) (auto simp: mutex_create_def Let_def scan_Some)
    qed
  qed
qed

lemma create_elim:
  assumes "mux_inv (ps, ms)" "pi < length ps" "p_container_id (ps ! pi) \<noteq> 0" "0 \<notin> set name" "length name \<le> 20"
    "mutex_create pi name (ps, ms) = Inr (r, s')"
  obtains (refused) "r = -1" "s' = (ps, ms)"
  | (added) k m x where "r = int k" "k < MUX_MAXNUM" "p_mutex (ps ! pi) ! k = None" "m < MUX_MAXNUM" "Some m \<notin> set (p_mutex (ps ! pi))"
      "s' = (set_mux pi k (Some m) ps, ms[m := x])" "length (m_name x) = 20" "take (length name) (m_name x) = name"
      "m_refcount x = int (refs ps m) + 1" "m_isAlloc x" "m_container_id x = p_container_id (ps ! pi)"
      "0 < refs ps m \<longrightarrow> m_container_id x = m_container_id (ms ! m) \<and> m_locked x = m_locked (ms ! m) \<and> m_pid x = m_pid (ms ! m)"
  using create_cases [OF assms] by (elim disjE exE conjE) (erule refused, assumption, erule added, assumption+)

lemma mux_inv_del:
  assumes inv: "mux_inv (ps, ms)" and pi: "pi < length ps" and k: "k < MUX_MAXNUM" "p_mutex (ps ! pi) ! k = Some m"
    and x: "length (m_name x) = 20" "m_refcount x = int (refs ps m) - 1" "m_isAlloc x \<longleftrightarrow> 1 < refs ps m"
      "\<not> m_isAlloc x \<Longrightarrow> \<not> m_locked x \<and> m_container_id x = 0" "m_isAlloc x \<Longrightarrow> m_container_id x = m_container_id (ms ! m)"
  shows "mux_inv (set_mux pi k None ps, ms[m := x])"
proof -
  have so: "slots_ok (p_mutex (ps ! i))" "\<And>n. Some n \<in> set (p_mutex (ps ! i)) \<Longrightarrow> m_container_id (ms ! n) = p_container_id (ps ! i)"
    if "i < length ps" for i using inv that by (auto simp: mux_inv_def)
  have len: "length ms = MUX_MAXNUM" "\<And>i. i < length ps \<Longrightarrow> length (p_mutex (ps ! i)) = MUX_MAXNUM"
    using inv so by (auto simp: mux_inv_def slots_ok_def)
  have m: "Some m \<in> set (p_mutex (ps ! pi))" "m < MUX_MAXNUM"
    using k len(2) [OF pi] so(1) [OF pi] nth_mem [of k "p_mutex (ps ! pi)"] by (auto simp: slots_ok_def)
  have r: "refs (set_mux pi k None ps) n + of_bool (n = m) = refs ps n" for n
    using refs_del [of pi ps k m n] pi k so len by simp
  have "mutex_ok (set_mux pi k None ps, ms[m := x]) n" if n: "n < MUX_MAXNUM" for n
  proof (cases "n = m")
    case True
    then show ?thesis using r [of m] x len m by (auto simp: mutex_ok_def)
  next
    case False
    then show ?thesis using r [of n] inv n by (simp add: mux_inv_def mutex_ok_def)
  qed
  moreover have "slots_ok (p_mutex (set_mux pi k None ps ! i))" if "i < length ps" for i
    using that so slots_ok_del [of "p_mutex (ps ! pi)" k] by (simp add: set_mux_nth)
  moreover have "m_container_id (ms[m := x] ! n) = p_container_id (set_mux pi k None ps ! i)"
    if i: "i < length ps" and n: "Some n \<in> set (p_mutex (set_mux pi k None ps ! i))" for i n
  proof -
    have old: "Some n \<in> set (p_mutex (ps ! i))"
      using n i slots_del_set [OF so(1) [OF pi], of k m n] k pi len by (auto simp: set_mux_nth split: if_splits)
    show ?thesis
    proof (cases "n = m")
      case True
      have "0 < refs (set_mux pi k None ps) m" using refs_pos [of i "set_mux pi k None ps" m] i n True by (simp add: set_mux_nth)
      then have "m_container_id x = m_container_id (ms ! m)" using r [of m] x(3,5) by simp
      then show ?thesis using True m len so(2) [OF i old] by (simp add: set_mux_nth)
    next
      case False
      then show ?thesis using so(2) [OF i old] by (simp add: set_mux_nth)
    qed
  qed
  ultimately show ?thesis using len by (simp add: mux_inv_def set_mux_nth)
qed

definition same_slots :: "proc list \<Rightarrow> proc list \<Rightarrow> bool" where
  "same_slots ps ps' \<longleftrightarrow> length ps' = length ps \<and>
     (\<forall>i<length ps. p_mutex (ps' ! i) = p_mutex (ps ! i) \<and> p_container_id (ps' ! i) = p_container_id (ps ! i) \<and> p_pid (ps' ! i) = p_pid (ps ! i))"

lemma refs_same: "same_slots ps ps' \<Longrightarrow> refs ps' m = refs ps m"
proof -
  assume s: "same_slots ps ps'"
  then have "map p_mutex ps' = map p_mutex ps" by (intro nth_equalityI) (auto simp: same_slots_def)
  moreover have "refs qs m = length (filter (\<lambda>xs. Some m \<in> set xs) (map p_mutex qs))" for qs
    by (simp add: refs_def count_if_def filter_map comp_def)
  ultimately show ?thesis by metis
qed

lemma same_slots_wakeup1: "same_slots ps (wakeup1 ch ps)"
  by (simp add: same_slots_def wakeup1_def)

lemma same_slots_refl: "same_slots ps ps"
  by (simp add: same_slots_def)

lemma mux_inv_flags:
  assumes inv: "mux_inv (ps, ms)" and ps': "same_slots ps ps'" and m: "m < MUX_MAXNUM"
    and x: "m_name x = m_name (ms ! m)" "m_refcount x = m_refcount (ms ! m)" "m_isAlloc x = m_isAlloc (ms ! m)"
      "m_container_id x = m_container_id (ms ! m)" "m_locked x \<Longrightarrow> m_isAlloc (ms ! m)"
  shows "mux_inv (ps', ms[m := x])"
proof -
  have "mutex_ok (ps', ms[m := x]) n" if "n < MUX_MAXNUM" for n
    using inv that x refs_same [OF ps', of n] by (cases "n = m") (auto simp: mux_inv_def mutex_ok_def)
  moreover have "m_container_id (ms[m := x] ! n) = m_container_id (ms ! n)" for n using x by (auto simp: nth_upd)
  ultimately show ?thesis using inv ps' by (simp add: mux_inv_def same_slots_def)
qed

section \<open>Processes using mutexes\<close>

text \<open>
  A system of processes that create, lock, unlock, delete, wait and signal.  own records who is
  inside a critical section: a process enters it when mutex_lock returns and leaves it when it
  calls mutex_unlock (also from cv_wait) or mutex_delete.  The creating processes are in a
  container, and give names that fit the name array.
\<close>

inductive mstep :: "mst \<times> (nat \<times> nat) set \<Rightarrow> mst \<times> (nat \<times> nat) set \<Rightarrow> bool" where
  create: "\<lbrakk>pi < length (fst s); p_container_id (fst s ! pi) \<noteq> 0; 0 \<notin> set name; length name \<le> 20; mutex_create pi name s = Inr (r, s')\<rbrakk>
    \<Longrightarrow> mstep (s, own) (s', own)"
| lock: "\<lbrakk>pi < length (fst s); mux_at pi k (fst s) = Inr (Some m); mutex_lock pi k s = Inr s'\<rbrakk> \<Longrightarrow> mstep (s, own) (s', insert (pi, m) own)"
| unlock: "\<lbrakk>pi < length (fst s); mux_at pi k (fst s) = Inr (Some m); mutex_unlock pi k s = Inr s'\<rbrakk> \<Longrightarrow> mstep (s, own) (s', own - {(pi, m)})"
| delete: "\<lbrakk>pi < length (fst s); mux_at pi k (fst s) = Inr (Some m); mutex_delete pi k s = Inr s'\<rbrakk> \<Longrightarrow> mstep (s, own) (s', own - {(pi, m)})"
| wait_try: "\<lbrakk>pi < length (fst s); mux_at pi k (fst s) = Inr (Some m); cv_try m (snd s) = (ok, ms')\<rbrakk> \<Longrightarrow> mstep (s, own) ((fst s, ms'), own)"
| signal: "\<lbrakk>pi < length (fst s); mux_at pi k (fst s) = Inr (Some m); cv_signal_round m s = (ok, s')\<rbrakk> \<Longrightarrow> mstep (s, own) (s', own)"
| others: "same_slots (fst s) ps' \<Longrightarrow> mstep (s, own) ((ps', snd s), own)"

definition own_inv :: "mst \<times> (nat \<times> nat) set \<Rightarrow> bool" where
  "own_inv c \<longleftrightarrow> mux_inv (fst c) \<and> inj_on (\<lambda>i. p_pid (fst (fst c) ! i)) {..<length (fst (fst c))} \<and>
     (\<forall>i m. (i, m) \<in> snd c \<longrightarrow> i < length (fst (fst c)) \<and> Some m \<in> set (p_mutex (fst (fst c) ! i)) \<and> mutex_holding i m (fst c))"

lemma mux_at_Some:
  assumes "mux_inv (ps, ms)" "pi < length ps" "mux_at pi k ps = Inr (Some m)"
  shows "0 \<le> k" "nat k < MUX_MAXNUM" "p_mutex (ps ! pi) ! nat k = Some m" "Some m \<in> set (p_mutex (ps ! pi))" "m < MUX_MAXNUM" "m_isAlloc (ms ! m)"
proof -
  show k: "0 \<le> k" "nat k < MUX_MAXNUM" "p_mutex (ps ! pi) ! nat k = Some m" using assms(3) by (auto simp: mux_at_def split: if_splits)
  have so: "slots_ok (p_mutex (ps ! pi))" using assms(1,2) by (simp add: mux_inv_def)
  then show s: "Some m \<in> set (p_mutex (ps ! pi))" using k nth_mem [of "nat k" "p_mutex (ps ! pi)"] by (simp add: slots_ok_def)
  with so show m: "m < MUX_MAXNUM" by (simp add: slots_ok_def)
  show "m_isAlloc (ms ! m)" using assms(1) m refs_pos [OF assms(2) s] by (simp add: mux_inv_def mutex_ok_def)
qed

lemma refs_one:
  assumes "refs ps m = 1" "i < length ps" "j < length ps" "Some m \<in> set (p_mutex (ps ! i))" "Some m \<in> set (p_mutex (ps ! j))"
  shows "i = j"
proof (rule ccontr)
  assume ne: "i \<noteq> j"
  let ?P = "\<lambda>p. Some m \<in> set (p_mutex p)" and ?e = "(ps ! i)\<lparr>p_mutex := []\<rparr>"
  have "count_if ?P (ps[i := ?e]) = 0" using count_if_update [OF assms(2), of ?P ?e] assms(1,4) by (simp add: refs_def)
  moreover have "0 < count_if ?P (ps[i := ?e])" using assms(3,5) ne by (intro count_if_nth_pos [of j]) auto
  ultimately show False by simp
qed

text \<open>Processes other than the ones a step changes keep what they own.\<close>

lemma own_invI:
  assumes "mux_inv s" "inj_on (\<lambda>i. p_pid (fst s ! i)) {..<length (fst s)}"
    "\<And>i m. (i, m) \<in> own \<Longrightarrow> i < length (fst s) \<and> Some m \<in> set (p_mutex (fst s ! i)) \<and> mutex_holding i m s"
  shows "own_inv (s, own)"
  using assms by (simp add: own_inv_def)

lemma own_inv_flags:
  assumes inv: "own_inv ((ps, ms), own)" and ps': "same_slots ps ps'" and m: "m < MUX_MAXNUM"
    and x: "m_name x = m_name (ms ! m)" "m_refcount x = m_refcount (ms ! m)" "m_isAlloc x = m_isAlloc (ms ! m)"
      "m_container_id x = m_container_id (ms ! m)" "m_locked x \<Longrightarrow> m_isAlloc (ms ! m)"
    and o: "\<And>i n. (i, n) \<in> own' \<Longrightarrow> n = m \<Longrightarrow> i < length ps \<and> Some m \<in> set (p_mutex (ps ! i)) \<and> m_locked x \<and> m_pid x = p_pid (ps ! i)"
      "\<And>i n. (i, n) \<in> own' \<Longrightarrow> n \<noteq> m \<Longrightarrow> (i, n) \<in> own"
  shows "own_inv ((ps', ms[m := x]), own')"
proof (rule own_invI)
  have pid: "p_pid (ps' ! i) = p_pid (ps ! i)" "p_mutex (ps' ! i) = p_mutex (ps ! i)" if "i < length ps" for i using ps' that by (simp_all add: same_slots_def)
  have len: "length ps' = length ps" using ps' by (simp add: same_slots_def)
  show "mux_inv (ps', ms[m := x])" using inv by (intro mux_inv_flags [OF _ ps' m x]) (simp_all add: own_inv_def)
  show "inj_on (\<lambda>i. p_pid (fst (ps', ms[m := x]) ! i)) {..<length (fst (ps', ms[m := x]))}"
    using inv pid len by (auto simp: own_inv_def inj_on_def)
  fix i n assume i: "(i, n) \<in> own'"
  have lm: "length ms = MUX_MAXNUM" using inv by (simp add: own_inv_def mux_inv_def)
  show "i < length (fst (ps', ms[m := x])) \<and> Some n \<in> set (p_mutex (fst (ps', ms[m := x]) ! i)) \<and> mutex_holding i n (ps', ms[m := x])"
  proof (cases "n = m")
    case True
    then show ?thesis using o(1) [OF i True] pid len m lm by (simp add: mutex_holding_def)
  next
    case False
    then have "(i, n) \<in> own" using o(2) i by blast
    then have "i < length ps \<and> Some n \<in> set (p_mutex (ps ! i)) \<and> mutex_holding i n (ps, ms)" using inv by (simp add: own_inv_def)
    with False pid len show ?thesis by (simp add: mutex_holding_def)
  qed
qed

lemma own_invD:
  assumes "own_inv ((ps, ms), own)"
  shows "mux_inv (ps, ms)" "inj_on (\<lambda>i. p_pid (ps ! i)) {..<length ps}"
    "\<And>i m. (i, m) \<in> own \<Longrightarrow> i < length ps" "\<And>i m. (i, m) \<in> own \<Longrightarrow> Some m \<in> set (p_mutex (ps ! i))"
    "\<And>i m. (i, m) \<in> own \<Longrightarrow> m_locked (ms ! m)" "\<And>i m. (i, m) \<in> own \<Longrightarrow> m_pid (ms ! m) = p_pid (ps ! i)"
  using assms unfolding own_inv_def mutex_holding_def fst_conv snd_conv by blast+

lemma own_unique:
  assumes "own_inv ((ps, ms), own)" "(i, m) \<in> own" "j < length ps" "p_pid (ps ! j) = m_pid (ms ! m)"
  shows "i = j"
proof (rule inj_onD [OF own_invD(2) [OF assms(1)]])
  show "p_pid (ps ! i) = p_pid (ps ! j)" using own_invD(6) [OF assms(1,2)] assms(4) by metis
  show "i \<in> {..<length ps}" "j \<in> {..<length ps}" using own_invD(3) [OF assms(1,2)] assms(3) by blast+
qed

lemma own_inv_create:
  assumes inv: "own_inv ((ps, ms), own)" and pi: "pi < length ps" and cid: "p_container_id (ps ! pi) \<noteq> 0"
    and nm: "0 \<notin> set name" "length name \<le> 20" and c: "mutex_create pi name (ps, ms) = Inr (r, s')"
  shows "own_inv (s', own)"
proof -
  note mi = own_invD(1) [OF inv]
  from mi pi cid nm c show ?thesis
  proof (cases rule: create_elim)
    case (added k m x)
    note k = added(2-5) and s' = added(6)
    have x: "0 < refs ps m \<Longrightarrow> m_container_id x = m_container_id (ms ! m)" "0 < refs ps m \<Longrightarrow> m_locked x = m_locked (ms ! m)"
      "0 < refs ps m \<Longrightarrow> m_pid x = m_pid (ms ! m)" using added(12) by blast+
    show ?thesis unfolding s'
    proof (rule own_invI)
      show "mux_inv (set_mux pi k (Some m) ps, ms[m := x])" by (rule mux_inv_add [OF mi pi k added(7,9-11) x(1)])
      show "inj_on (\<lambda>i. p_pid (fst (set_mux pi k (Some m) ps, ms[m := x]) ! i)) {..<length (fst (set_mux pi k (Some m) ps, ms[m := x]))}"
        using own_invD(2) [OF inv] by (simp add: set_mux_nth)
      fix i n assume "(i, n) \<in> own"
      note o = own_invD(3-6) [OF inv this]
      have "Some n \<in> set (p_mutex (set_mux pi k (Some m) ps ! i))"
        using o slots_add_set [of k "p_mutex (ps ! pi)" n m] k mi pi by (auto simp: set_mux_nth mux_inv_def slots_ok_def)
      moreover have "mutex_holding i n (set_mux pi k (Some m) ps, ms[m := x])"
        using o x(2,3) refs_pos [OF o(1), of m] by (cases "n = m") (auto simp: mutex_holding_def set_mux_nth nth_upd)
      ultimately show "i < length (fst (set_mux pi k (Some m) ps, ms[m := x])) \<and> Some n \<in> set (p_mutex (fst (set_mux pi k (Some m) ps, ms[m := x]) ! i)) \<and>
          mutex_holding i n (set_mux pi k (Some m) ps, ms[m := x])" using o by (simp add: set_mux_nth)
    qed
  next
    case refused
    with inv show ?thesis by blast
  qed
qed

lemma own_inv_del:
  assumes inv: "own_inv ((ps, ms), own)" and pi: "pi < length ps" and k: "k < MUX_MAXNUM" "p_mutex (ps ! pi) ! k = Some m"
    and x: "mux_inv (set_mux pi k None ps, ms[m := x])"
      "\<And>i. (i, m) \<in> own \<Longrightarrow> i \<noteq> pi \<Longrightarrow> m_locked x \<and> m_pid x = m_pid (ms ! m)"
  shows "own_inv ((set_mux pi k None ps, ms[m := x]), own - {(pi, m)})"
proof (rule own_invI)
  note mi = own_invD(1) [OF inv]
  have so: "slots_ok (p_mutex (ps ! pi))" using mi pi by (simp add: mux_inv_def)
  have m: "m < length ms" using so k mi nth_mem [of k "p_mutex (ps ! pi)"] by (auto simp: slots_ok_def mux_inv_def)
  show "mux_inv (set_mux pi k None ps, ms[m := x])" by (rule x(1))
  show "inj_on (\<lambda>i. p_pid (fst (set_mux pi k None ps, ms[m := x]) ! i)) {..<length (fst (set_mux pi k None ps, ms[m := x]))}"
    using own_invD(2) [OF inv] by (simp add: set_mux_nth)
  fix i n assume i: "(i, n) \<in> own - {(pi, m)}"
  then have "(i, n) \<in> own" by blast
  note o = own_invD(3-6) [OF inv this]
  have "Some n \<in> set (p_mutex (set_mux pi k None ps ! i))"
    using o i slots_del_set [OF so, of k m n] k so by (auto simp: set_mux_nth slots_ok_def)
  moreover have "mutex_holding i n (set_mux pi k None ps, ms[m := x])"
  proof (cases "n = m")
    case True
    then have "m_locked x \<and> m_pid x = m_pid (ms ! m)" using x(2) [of i] i by blast
    with o True m show ?thesis by (simp add: mutex_holding_def set_mux_nth)
  next
    case False
    with o show ?thesis by (simp add: mutex_holding_def set_mux_nth)
  qed
  ultimately show "i < length (fst (set_mux pi k None ps, ms[m := x])) \<and> Some n \<in> set (p_mutex (fst (set_mux pi k None ps, ms[m := x]) ! i)) \<and>
      mutex_holding i n (set_mux pi k None ps, ms[m := x])" using o by (simp add: set_mux_nth)
qed

lemma own_inv_delete:
  assumes inv: "own_inv ((ps, ms), own)" and pi: "pi < length ps" and at: "mux_at pi k ps = Inr (Some m)"
    and d: "mutex_delete pi k (ps, ms) = Inr s'"
  shows "own_inv (s', own - {(pi, m)})"
proof -
  note mi = own_invD(1) [OF inv]
  note a = mux_at_Some [OF mi pi at]
  have ok: "length (m_name (ms ! m)) = 20" "m_refcount (ms ! m) = int (refs ps m)" "0 < refs ps m"
    using mi a(5,6) by (auto simp: mux_inv_def mutex_ok_def)
  have lm: "m < length ms" using mi a(5) by (simp add: mux_inv_def)
  have hold: "mutex_holding pi m (set_mux pi (nat k) None ps, ms) = mutex_holding pi m (ps, ms)" by (simp add: mutex_holding_def set_mux_nth)
  show ?thesis
  proof (cases "m_refcount (ms ! m) = 1")
    case True
    let ?x = "(ms ! m)\<lparr>m_isAlloc := False, m_refcount := 0, m_container_id := 0, m_locked := False\<rparr>"
    have s': "s' = (set_mux pi (nat k) None ps, ms[m := ?x])" using d at True by (simp add: mutex_delete_def Let_def)
    have one: "refs ps m = 1" using True ok by simp
    show ?thesis unfolding s'
    proof (rule own_inv_del [OF inv pi a(2,3)])
      show "mux_inv (set_mux pi (nat k) None ps, ms[m := ?x])" by (rule mux_inv_del [OF mi pi a(2,3)]) (use ok one in simp_all)
      fix i assume "(i, m) \<in> own" "i \<noteq> pi"
      then show "m_locked ?x \<and> m_pid ?x = m_pid (ms ! m)" using refs_one [OF one] own_invD(3,4) [OF inv] pi a(4) by blast
    qed
  next
    case False
    let ?x = "(ms ! m)\<lparr>m_locked := m_locked (ms ! m) \<and> \<not> mutex_holding pi m (ps, ms), m_refcount := m_refcount (ms ! m) - 1\<rparr>"
    have s': "s' = (set_mux pi (nat k) None ps, ms[m := ?x])"
      using d at False hold lm by (cases "mutex_holding pi m (ps, ms)") (auto simp: mutex_delete_def Let_def)
    have al: "m_isAlloc (ms ! m)" "1 < refs ps m" using a(6) ok False by linarith+
    show ?thesis unfolding s'
    proof (rule own_inv_del [OF inv pi a(2,3)])
      show "mux_inv (set_mux pi (nat k) None ps, ms[m := ?x])" by (rule mux_inv_del [OF mi pi a(2,3)]) (use ok al in simp_all)
      fix i assume i: "(i, m) \<in> own" "i \<noteq> pi"
      then have "\<not> mutex_holding pi m (ps, ms)" using own_unique [OF inv i(1) pi] by (auto simp: mutex_holding_def)
      then show "m_locked ?x \<and> m_pid ?x = m_pid (ms ! m)" using own_invD(5) [OF inv i(1)] by simp
    qed
  qed
qed

lemma own_inv_lock:
  assumes inv: "own_inv ((ps, ms), own)" and pi: "pi < length ps" and at: "mux_at pi k ps = Inr (Some m)"
    and l: "mutex_lock pi k (ps, ms) = Inr s'"
  shows "own_inv (s', insert (pi, m) own)"
proof -
  note mi = own_invD(1) [OF inv]
  note a = mux_at_Some [OF mi pi at]
  show ?thesis
  proof (cases "mutex_holding pi m (ps, ms)")
    case True
    then have "s' = (ps, ms)" using l at by (simp add: mutex_lock_def)
    with inv True a pi show ?thesis by (auto simp: own_inv_def)
  next
    case False
    then have un: "\<not> m_locked (ms ! m)" and s': "s' = (ps, ms[m := (ms ! m)\<lparr>m_locked := True, m_pid := p_pid (ps ! pi)\<rparr>])"
      using l at by (auto simp: mutex_lock_def split: if_splits)
    have "i = pi" if "(i, m) \<in> insert (pi, m) own" for i using that own_invD(5) [OF inv] un by blast
    then show ?thesis unfolding s' using a pi by (intro own_inv_flags [OF inv same_slots_refl a(5)]) auto
  qed
qed

lemma own_inv_unlock:
  assumes inv: "own_inv ((ps, ms), own)" and pi: "pi < length ps" and at: "mux_at pi k ps = Inr (Some m)"
    and l: "mutex_unlock pi k (ps, ms) = Inr s'"
  shows "own_inv (s', own - {(pi, m)})"
proof -
  note a = mux_at_Some [OF own_invD(1) [OF inv] pi at]
  show ?thesis
  proof (cases "mutex_holding pi m (ps, ms)")
    case True
    then have s': "s' = (wakeup1 (CMutex m) ps, ms[m := (ms ! m)\<lparr>m_locked := False\<rparr>])" using l at by (simp add: mutex_unlock_def)
    have "(i, m) \<notin> own - {(pi, m)}" for i using own_unique [OF inv _ pi] True by (auto simp: mutex_holding_def)
    then show ?thesis unfolding s' by (intro own_inv_flags [OF inv same_slots_wakeup1 a(5)]) auto
  next
    case False
    then have "s' = (ps, ms)" using l at by (simp add: mutex_unlock_def)
    with inv show ?thesis unfolding own_inv_def by auto
  qed
qed

lemma own_inv_cv:
  assumes inv: "own_inv ((ps, ms), own)" and ps': "same_slots ps ps'" and m: "m < MUX_MAXNUM" "m_isAlloc (ms ! m)"
  shows "own_inv ((ps', ms[m := (ms ! m)\<lparr>m_cv := v\<rparr>]), own)"
  using own_invD(3-6) [OF inv] m by (intro own_inv_flags [OF inv ps' m(1)]) auto

lemma own_inv_step: "mstep c c' \<Longrightarrow> own_inv c \<Longrightarrow> own_inv c'"
proof (induction rule: mstep.induct)
  case (create pi s name r s' own)
  then show ?case using own_inv_create [of "fst s" "snd s"] by simp
next
  case (lock pi s k m s' own)
  then show ?case using own_inv_lock [of "fst s" "snd s"] by simp
next
  case (unlock pi s k m s' own)
  then show ?case using own_inv_unlock [of "fst s" "snd s"] by simp
next
  case (delete pi s k m s' own)
  then show ?case using own_inv_delete [of "fst s" "snd s"] by simp
next
  case (wait_try pi s k m ok ms' own)
  then have inv: "own_inv ((fst s, snd s), own)" by simp
  note a = mux_at_Some [OF own_invD(1) [OF inv] wait_try(1,2)]
  have "\<exists>v. ms' = (snd s)[m := (snd s ! m)\<lparr>m_cv := v\<rparr>]" using wait_try(3) by (auto simp: cv_try_def split: prod.splits)
  then show ?case using own_inv_cv [OF inv same_slots_refl a(5,6)] by auto
next
  case (signal pi s k m ok s' own)
  then have inv: "own_inv ((fst s, snd s), own)" by simp
  note a = mux_at_Some [OF own_invD(1) [OF inv] signal(1,2)]
  have same: "(snd s)[m := (snd s ! m)\<lparr>m_cv := True\<rparr>] = snd s" if "m_cv (snd s ! m)"
  proof -
    have "(snd s ! m)\<lparr>m_cv := True\<rparr> = snd s ! m" using that by (cases "snd s ! m") simp
    then show ?thesis by (metis list_update_id)
  qed
  have "s' = (wakeup1 (CMutex m) (fst s), (snd s)[m := (snd s ! m)\<lparr>m_cv := True\<rparr>])"
    using signal(3) same by (cases "m_cv (snd s ! m)") (auto simp: cv_signal_round_def cv_set_def)
  then show ?case using own_inv_cv [OF inv same_slots_wakeup1 a(5,6)] by auto
next
  case (others s ps' own)
  then have inv: "own_inv ((fst s, snd s), own)" by simp
  have z: "0 < MUX_MAXNUM" by (simp add: MUX_MAXNUM_def)
  then have "mutex_ok (fst s, snd s) 0" using own_invD(1) [OF inv] by (simp add: mux_inv_def)
  then have al: "m_locked (snd s ! 0) \<Longrightarrow> m_isAlloc (snd s ! 0)" by (auto simp: mutex_ok_def)
  have "own_inv ((ps', (snd s)[0 := snd s ! 0]), own)"
    using own_invD(3-6) [OF inv] al by (intro own_inv_flags [OF inv others(1) z]) auto
  then show ?case by simp
qed

definition mux_start :: "proc list \<Rightarrow> mst \<times> (nat \<times> nat) set" where
  "mux_start ps = ((ps, replicate MUX_MAXNUM zero_mutex), {})"

lemma own_inv_reach:
  assumes "\<forall>p\<in>set ps. p_mutex p = replicate MUX_MAXNUM None" "inj_on (\<lambda>i. p_pid (ps ! i)) {..<length ps}" "mstep\<^sup>*\<^sup>* (mux_start ps) c"
  shows "own_inv c"
  using assms(3)
proof (induction rule: rtranclp_induct)
  case base
  have e: "p_mutex (ps ! i) = replicate MUX_MAXNUM None" if "i < length ps" for i using assms(1) that by simp
  have "count_if (\<lambda>p. Some m \<in> set (p_mutex p)) ps = 0" for m
  proof -
    have "\<not> 0 < count_if (\<lambda>p. Some m \<in> set (p_mutex p)) ps" unfolding count_if_pos using assms(1) by auto
    then show ?thesis by simp
  qed
  then have "refs ps m = 0" for m by (simp add: refs_def)
  then show ?case using e assms(2)
    by (auto simp: own_inv_def mux_start_def mux_inv_def mutex_ok_def zero_mutex_def slots_ok_def)
qed (rule own_inv_step)



section \<open>A run\<close>

definition mux_procs :: "proc list" where
  "mux_procs = [zero_proc\<lparr>p_pid := 1, p_container_id := 1\<rparr>, zero_proc\<lparr>p_pid := 2, p_container_id := 1\<rparr>]"

definition mux_created :: mutex where
  "mux_created = zero_mutex\<lparr>m_isAlloc := True, m_name := 97 # replicate 19 0, m_refcount := 1, m_container_id := 1, m_cv := False\<rparr>"

definition mux_run :: "mst \<times> (nat \<times> nat) set" where
  "mux_run = ((set_mux 0 0 (Some 0) mux_procs, (replicate MUX_MAXNUM zero_mutex)[0 := mux_created\<lparr>m_locked := True, m_pid := 1\<rparr>]), {(0, 0)})"

lemma replicate_heads: "replicate 20 x = x # replicate 19 x" "replicate MUX_MAXNUM x = x # replicate 15 x"
  by (simp_all add: MUX_MAXNUM_def numeral_eq_Suc)

lemma mc_scan_fresh:
  assumes "cid \<noteq> 0"
  shows "mc_scan [97] cid i (Some u) (replicate n zero_mutex) = Inr (Unallocated (Some u))"
proof (induction n arbitrary: i)
  case (Suc n)
  have "strncmp_arr [97, 0] (replicate 20 0) (Suc 0) = Inr 97" by (simp add: replicate_heads)
  with Suc assms show ?case by (simp add: zero_mutex_def)
qed simp

lemma mux_create_fresh:
  "mutex_create 0 [97] (mux_procs, replicate MUX_MAXNUM zero_mutex) =
     Inr (0, (set_mux 0 0 (Some 0) mux_procs, (replicate MUX_MAXNUM zero_mutex)[0 := mux_created]))"
proof -
  note r = replicate_heads(2)
  have p: "p_container_id (mux_procs ! 0) = 1" "p_mutex (mux_procs ! 0) = replicate MUX_MAXNUM None" by (simp_all add: mux_procs_def zero_proc_def)
  have s: "mc_scan [97] 1 0 None (replicate MUX_MAXNUM zero_mutex) = Inr (Unallocated (Some 0))"
    using mc_scan_fresh [of 1 "Suc 0" 0 15] by (simp add: r zero_mutex_def)
  have c: "strncpy_arr (replicate 20 0) [97, 0] (Suc 0) = Inr (97 # replicate 19 0)" by (simp add: replicate_heads)
  have f: "scan (\<lambda>x. x = None) (replicate MUX_MAXNUM (None :: nat option)) = Some 0" by (simp add: r scan_def)
  show ?thesis unfolding mutex_create_def prod.case Let_def p s
    using c f by (simp add: mux_created_def r zero_mutex_def)
qed

lemma mux_run_reach: "mstep\<^sup>*\<^sup>* (mux_start mux_procs) mux_run"
proof -
  let ?ps = "set_mux 0 0 (Some 0) mux_procs" and ?ms = "(replicate MUX_MAXNUM zero_mutex)[0 := mux_created]"
  have "mstep (mux_start mux_procs) ((?ps, ?ms), {})"
    unfolding mux_start_def using mux_create_fresh by (intro create) (auto simp: mux_procs_def)
  moreover have at: "mux_at 0 0 ?ps = Inr (Some 0)"
    by (simp add: mux_at_def set_mux_def mux_procs_def zero_proc_def MUX_MAXNUM_def)
  have "mutex_lock 0 0 (?ps, ?ms) = Inr (fst mux_run)"
    using at by (simp add: mutex_lock_def mutex_holding_def mux_created_def zero_mutex_def mux_run_def MUX_MAXNUM_def set_mux_def mux_procs_def)
  then have "mstep ((?ps, ?ms), {}) (fst mux_run, insert (0, 0) {})"
    using at by (intro lock) (auto simp: set_mux_def mux_procs_def)
  then have "mstep ((?ps, ?ms), {}) mux_run" by (simp add: mux_run_def)
  ultimately show ?thesis by (meson converse_rtranclp_into_rtranclp rtranclp.rtrancl_refl)
qed

lemma mux_procs_start:
  "\<forall>p\<in>set mux_procs. p_mutex p = replicate MUX_MAXNUM None" "inj_on (\<lambda>i. p_pid (mux_procs ! i)) {..<length mux_procs}"
  by (auto simp: mux_procs_def zero_proc_def inj_on_def less_Suc_eq)



section \<open>Where the code does not keep its promise\<close>

text \<open>The table of a process outside every container, and the names b, c and d.\<close>

definition global_start :: mst where
  "global_start = ([zero_proc\<lparr>p_pid := 5\<rparr>], replicate MUX_MAXNUM zero_mutex)"

definition alias_run :: "mst res" where
  "alias_run =
     bindr (mutex_create 0 [97] global_start) (\<lambda>(a, s).
     bindr (mutex_create 0 [98] s) (\<lambda>(b, s).
     bindr (mutex_delete 0 a s) (\<lambda>s.
     bindr (mutex_delete 0 b s) (\<lambda>s.
     bindr (mutex_create 0 [98] s) (\<lambda>(b2, s).
     bindr (mutex_create 0 [99] s) (\<lambda>(c, s).
     bindr (mutex_create 0 [100] s) (\<lambda>(d, s). Inr s)))))))"

text \<open>
  Two names, one mutex: outside containers the name of a deleted mutex stays in the table and
  is still found, without the entry being marked allocated again.  After creating a and b,
  deleting both, and creating b, c and d, the ids of b and of d denote the same mutex.
\<close>

theorem mutex_create_aliases: "\<exists>s. alias_run = Inr s \<and> mux_at 0 0 (fst s) = Inr (Some 1) \<and> mux_at 0 2 (fst s) = Inr (Some 1)"
proof -
  have "case alias_run of Inl e \<Rightarrow> False | Inr s \<Rightarrow> mux_at 0 0 (fst s) = Inr (Some 1) \<and> mux_at 0 2 (fst s) = Inr (Some 1)"
    by code_simp
  then show ?thesis by (auto split: sum.splits)
qed

lemma kill_mutex_locked:
  "m_locked (snd (kill_mutex v i s) ! n) \<Longrightarrow> m_locked (snd s ! n) \<and> (n < length (snd s) \<longrightarrow> p_mutex (fst s ! v) ! i \<noteq> Some n)"
  "fst (kill_mutex v i s) = fst s" "length (snd (kill_mutex v i s)) = length (snd s)"
  by (cases s; auto simp: kill_mutex_def Let_def nth_upd split: option.splits if_splits)+

lemma kill_mutex_fold:
  "m_locked (snd (fold (kill_mutex v) is s) ! n) \<Longrightarrow> m_locked (snd s ! n) \<and> (n < length (snd s) \<longrightarrow> (\<forall>i\<in>set is. p_mutex (fst s ! v) ! i \<noteq> Some n))"
proof (induction "is" arbitrary: s)
  case (Cons i "is")
  from Cons.IH [of "kill_mutex v i s"] Cons.prems
  have "m_locked (snd (kill_mutex v i s) ! n)" "n < length (snd s) \<longrightarrow> (\<forall>i\<in>set is. p_mutex (fst s ! v) ! i \<noteq> Some n)"
    by (simp_all add: kill_mutex_locked)
  with kill_mutex_locked(1) [of v i s n] show ?case by simp
qed simp

lemma kill_mutex_fst: "fst (fold (kill_mutex v) is s) = fst s" "length (snd (fold (kill_mutex v) is s)) = length (snd s)"
  by (induction "is" arbitrary: s) (simp_all add: kill_mutex_locked)

text \<open>
  C26.  kill opens critical sections: when the victim v of kill has access to a mutex m that another
  process h is holding, kill clears the lock, and the next process q that calls mutex_lock on m
  enters its critical section while h is still inside.
\<close>

theorem kill_opens_critical_section:
  assumes v: "scan (\<lambda>p. p_pid p = pid \<and> p_container_id p = p_container_id (ps ! cp)) ps = Some v"
    and m: "m < length ms" "i < MUX_MAXNUM" "p_mutex (ps ! v) ! i = Some m" and h: "mutex_holding h m (ps, ms)" "h \<noteq> v"
    and q: "q < length ps" "q \<noteq> v" "mux_at q k ps = Inr (Some m)" "p_pid (ps ! q) \<noteq> p_pid (ps ! h)"
    and r: "kill cp pid (ps, ms) = (r, s1)"
  shows "r = 0 \<and> (\<exists>s2. mutex_lock q k s1 = Inr s2 \<and> mutex_holding q m s2)"
proof -
  have vl: "v < length ps" using v by (rule scan_SomeD)
  let ?s0 = "(ps[v := (ps ! v)\<lparr>p_killed := True\<rparr>], ms)"
  have s1: "snd s1 = snd (fold (kill_mutex v) [0..<MUX_MAXNUM] ?s0)" "r = 0"
    "\<And>j. j \<noteq> v \<Longrightarrow> fst s1 ! j = ps ! j" "length (snd s1) = length ms"
    using r v by (auto simp: kill_def Let_def kill_mutex_fst)
  have un: "\<not> m_locked (snd s1 ! m)"
    using kill_mutex_fold [of v "[0..<MUX_MAXNUM]" ?s0 m] m vl s1(1) by auto
  have at: "mux_at q k (fst s1) = Inr (Some m)" using q s1(3) by (simp add: mux_at_def split: if_splits)
  have "mutex_lock q k s1 = Inr (fst s1, (snd s1)[m := (snd s1 ! m)\<lparr>m_locked := True, m_pid := p_pid (fst s1 ! q)\<rparr>])"
    using at un by (cases s1) (simp add: mutex_lock_def mutex_holding_def)
  then show ?thesis using s1 m by (simp add: mutex_holding_def)
qed

definition kill_example :: mst where
  "kill_example = (map (\<lambda>i. zero_proc\<lparr>p_pid := int i + 1, p_mutex := (replicate MUX_MAXNUM None)[0 := Some 0]\<rparr>) [0..<3],
     (replicate MUX_MAXNUM zero_mutex)[0 := zero_mutex\<lparr>m_locked := True, m_isAlloc := True, m_pid := 1, m_refcount := 3\<rparr>])"

theorem kill_opens_critical_section_witness:
  "mutex_holding 0 0 kill_example \<and> (\<exists>s2. mutex_lock 2 0 (snd (kill 0 2 kill_example)) = Inr s2 \<and> mutex_holding 2 0 s2)"
proof -
  obtain ps ms where k: "kill_example = (ps, ms)" by fastforce
  then have ps: "ps = [zero_proc\<lparr>p_pid := 1, p_mutex := (replicate MUX_MAXNUM None)[0 := Some 0]\<rparr>,
      zero_proc\<lparr>p_pid := 2, p_mutex := (replicate MUX_MAXNUM None)[0 := Some 0]\<rparr>,
      zero_proc\<lparr>p_pid := 3, p_mutex := (replicate MUX_MAXNUM None)[0 := Some 0]\<rparr>]"
    and ms: "ms = (replicate MUX_MAXNUM zero_mutex)[0 := zero_mutex\<lparr>m_locked := True, m_isAlloc := True, m_pid := 1, m_refcount := 3\<rparr>]"
    by (auto simp: kill_example_def numeral_eq_Suc)
  have v: "scan (\<lambda>p. p_pid p = 2 \<and> p_container_id p = p_container_id (ps ! 0)) ps = Some 1"
    by (simp add: ps scan_def zero_proc_def)
  have h: "mutex_holding 0 0 (ps, ms)" by (simp add: mutex_holding_def ps ms MUX_MAXNUM_def)
  obtain r s1 where r: "kill 0 2 (ps, ms) = (r, s1)" by (rule prod.exhaust)
  have "r = 0 \<and> (\<exists>s2. mutex_lock 2 0 s1 = Inr s2 \<and> mutex_holding 2 0 s2)"
    by (rule kill_opens_critical_section [OF v _ _ _ h _ _ _ _ _ r, of 0])
      (simp_all add: ps ms MUX_MAXNUM_def mux_at_def)
  with h r k show ?thesis by simp
qed

text \<open>
  C27.  A signal can be lost in cv_wait: the flag is tested without a lock before the process goes to
  sleep, so when cv_signal runs between the two, its wakeup finds nobody, and the waiter goes to
  sleep although the flag is set.  A waiter that is asleep when cv_signal runs is woken, and its
  next test of the flag succeeds.
\<close>

theorem cv_wait_lost_wakeup:
  assumes "m < length ms" "pi < length ps" "p_state (ps ! pi) = RUNNING" "\<not> m_cv (ms ! m)"
  shows "(case cv_try m ms of (ok1, ms1) \<Rightarrow> case cv_signal_round m (ps, ms1) of (sent, (ps2, ms2)) \<Rightarrow>
            \<not> ok1 \<and> sent \<and> p_state (cv_sleep pi m ps2 ! pi) = SLEEPING \<and> p_chan (cv_sleep pi m ps2 ! pi) = Some (CMutex m) \<and> m_cv (ms2 ! m)) \<and>
         (case cv_signal_round m (cv_sleep pi m ps, ms) of (sent, (ps2, ms2)) \<Rightarrow>
            sent \<and> p_state (ps2 ! pi) = RUNNABLE \<and> fst (cv_try m ms2))"
  using assms by (simp add: cv_try_def cas_def cv_signal_round_def cv_set_def cv_sleep_def wakeup1_def)

theorem cv_wait_lost_wakeup_witness:
  "case cv_try 0 [zero_mutex] of (ok1, ms1) \<Rightarrow> case cv_signal_round 0 ([zero_proc\<lparr>p_state := RUNNING\<rparr>], ms1) of (sent, (ps2, ms2)) \<Rightarrow>
     \<not> ok1 \<and> sent \<and> p_state (cv_sleep 0 0 ps2 ! 0) = SLEEPING \<and> m_cv (ms2 ! 0)"
  using cv_wait_lost_wakeup [of 0 "[zero_mutex]" 0 "[zero_proc\<lparr>p_state := RUNNING\<rparr>]"]
  by (auto simp: zero_mutex_def split: prod.splits)

text \<open>mutex_delete releases a held mutex without waking the processes that wait for it.\<close>

theorem mutex_delete_strands_waiters:
  assumes "mux_at pi k ps = Inr (Some m)" "mutex_holding pi m (ps, ms)" "m_refcount (ms ! m) \<noteq> 1" "m < length ms" "q \<noteq> pi"
    "p_state (ps ! q) = SLEEPING" "p_chan (ps ! q) = Some (CMutex m)"
  shows "\<exists>ps' ms'. mutex_delete pi k (ps, ms) = Inr (ps', ms') \<and> \<not> m_locked (ms' ! m) \<and> p_state (ps' ! q) = SLEEPING"
  using assms by (simp add: mutex_delete_def Let_def mutex_holding_def set_mux_def nth_upd)

end
