(* ===== verification/Jsmn.thy ===== *)
theory Jsmn
  imports Prelude
begin

text \<open>
  The JSON tokenizer jsmn.h, as dockv6 compiles it (neither JSMN_STRICT nor JSMN_PARENT_LINKS).
  The text is a list of bytes and a read outside it is the fault Undefined, as is a write
  outside the token array.  A token array of None is the null pointer, with which the tokenizer
  only counts.  Positions are natural numbers: the text is shorter than 2^31 bytes.
\<close>

datatype jsmntype = JSMN_UNDEFINED | JSMN_OBJECT | JSMN_ARRAY | JSMN_STRING | JSMN_PRIMITIVE

definition JSMN_ERROR_NOMEM :: int where "JSMN_ERROR_NOMEM = -1"
definition JSMN_ERROR_INVAL :: int where "JSMN_ERROR_INVAL = -2"
definition JSMN_ERROR_PART :: int where "JSMN_ERROR_PART = -3"

record jsmntok =
  j_type :: jsmntype
  j_start :: int
  j_end :: int
  j_size :: int

record jsmn_parser =
  pos :: nat
  toknext :: nat
  toksuper :: int

type_synonym tokens = "jsmntok list option"

definition jsmn_init :: jsmn_parser where
  "jsmn_init = \<lparr>pos = 0, toknext = 0, toksuper = -1\<rparr>"

definition rd :: "u8 list \<Rightarrow> nat \<Rightarrow> u8 res" where
  "rd js i = (if i < length js then Inr (js ! i) else Inl (Undefined ''js''))"

text \<open>NULL is None; a slot beyond the array of the caller is a fault.\<close>

definition jsmn_alloc_token :: "jsmn_parser \<Rightarrow> jsmntok list \<Rightarrow> nat \<Rightarrow> (nat \<times> jsmn_parser \<times> jsmntok list) option res" where
  "jsmn_alloc_token p ts num_tokens =
     (if toknext p \<ge> num_tokens then Inr None
      else let k = toknext p in
           if k < length ts
           then Inr (Some (k, p\<lparr>toknext := Suc k\<rparr>, ts[k := (ts ! k)\<lparr>j_start := -1, j_end := -1, j_size := 0\<rparr>]))
           else Inl (Undefined ''tokens''))"

definition jsmn_fill_token :: "nat \<Rightarrow> jsmntype \<Rightarrow> int \<Rightarrow> int \<Rightarrow> jsmntok list \<Rightarrow> jsmntok list" where
  "jsmn_fill_token k type start end' ts =
     ts[k := (ts ! k)\<lparr>j_type := type, j_start := start, j_end := end', j_size := 0\<rparr>]"

section \<open>Primitives\<close>

text \<open>The bytes : tab CR LF space , ] and } end a primitive.\<close>

definition prim_stop :: "u8 \<Rightarrow> bool" where
  "prim_stop c \<longleftrightarrow> c \<in> {58, 9, 13, 10, 32, 44, 93, 125}"

function prim_scan :: "u8 list \<Rightarrow> nat \<Rightarrow> nat \<Rightarrow> nat option res" where
  "prim_scan js len k =
     (if k < len
      then bindr (rd js k) (\<lambda>c.
             if c = 0 \<or> prim_stop c then Inr (Some k)
             else if c < 32 \<or> c \<ge> 127 then Inr None
             else prim_scan js len (Suc k))
      else Inr (Some k))"
  by auto
termination by (relation "measure (\<lambda>(js, len, k). len - k)") auto

declare prim_scan.simps [simp del]

definition jsmn_parse_primitive :: "u8 list \<Rightarrow> nat \<Rightarrow> nat \<Rightarrow> jsmn_parser \<Rightarrow> tokens \<Rightarrow> (int \<times> jsmn_parser \<times> tokens) res" where
  "jsmn_parse_primitive js len num_tokens p tokens =
     (let start = pos p in
      bindr (prim_scan js len start) (\<lambda>e.
        case e of
          None \<Rightarrow> Inr (JSMN_ERROR_INVAL, p\<lparr>pos := start\<rparr>, tokens)
        | Some k \<Rightarrow>
            (case tokens of
               None \<Rightarrow> Inr (0, p\<lparr>pos := k - 1\<rparr>, None)
             | Some ts \<Rightarrow>
                 bindr (jsmn_alloc_token (p\<lparr>pos := k\<rparr>) ts num_tokens) (\<lambda>a.
                   case a of
                     None \<Rightarrow> Inr (JSMN_ERROR_NOMEM, p\<lparr>pos := start\<rparr>, tokens)
                   | Some (t, p', ts') \<Rightarrow>
                       Inr (0, p'\<lparr>pos := k - 1\<rparr>, Some (jsmn_fill_token t JSMN_PRIMITIVE (int start) (int k) ts'))))))"

section \<open>Strings\<close>

definition hex_digit :: "u8 \<Rightarrow> bool" where
  "hex_digit c \<longleftrightarrow> (c \<ge> 48 \<and> c \<le> 57) \<or> (c \<ge> 65 \<and> c \<le> 70) \<or> (c \<ge> 97 \<and> c \<le> 102)"

fun hex_scan :: "u8 list \<Rightarrow> nat \<Rightarrow> nat \<Rightarrow> nat \<Rightarrow> nat option res" where
  "hex_scan js len 0 k = Inr (Some k)"
| "hex_scan js len (Suc i) k =
     (if k < len
      then bindr (rd js k) (\<lambda>c.
             if c = 0 then Inr (Some k)
             else if \<not> hex_digit c then Inr None
             else hex_scan js len i (Suc k))
      else Inr (Some k))"

text \<open>The bytes " / backslash b f r n and t may follow a backslash.\<close>

definition esc_char :: "u8 \<Rightarrow> bool" where
  "esc_char c \<longleftrightarrow> c \<in> {34, 47, 92, 98, 102, 114, 110, 116}"

datatype str_end = SEnd nat | SInval | SPart

lemma hex_scan_ge: "hex_scan js len n k = Inr (Some q) \<Longrightarrow> k \<le> q"
proof (induction n arbitrary: k)
  case (Suc n)
  then show ?case by (auto simp: bindr_eq_Inr split: if_splits dest!: Suc.IH)
qed simp

function str_scan :: "u8 list \<Rightarrow> nat \<Rightarrow> nat \<Rightarrow> str_end res" where
  "str_scan js len k =
     (if k < len
      then bindr (rd js k) (\<lambda>c.
             if c = 0 then Inr SPart
             else if c = 34 then Inr (SEnd k)
             else if c = 92 \<and> k + 1 < len
             then bindr (rd js (k + 1)) (\<lambda>d.
                    if esc_char d then str_scan js len (k + 2)
                    else if d = 117
                    then bindr (hex_scan js len 4 (k + 2)) (\<lambda>e.
                           case e of None \<Rightarrow> Inr SInval | Some q \<Rightarrow> str_scan js len q)
                    else Inr SInval)
             else str_scan js len (k + 1))
      else Inr SPart)"
  by auto
termination by (relation "measure (\<lambda>(js, len, k). len - k)") (auto dest!: hex_scan_ge)

declare str_scan.simps [simp del]

definition jsmn_parse_string :: "u8 list \<Rightarrow> nat \<Rightarrow> nat \<Rightarrow> jsmn_parser \<Rightarrow> tokens \<Rightarrow> (int \<times> jsmn_parser \<times> tokens) res" where
  "jsmn_parse_string js len num_tokens p tokens =
     (let start = pos p in
      bindr (str_scan js len (start + 1)) (\<lambda>e.
        case e of
          SInval \<Rightarrow> Inr (JSMN_ERROR_INVAL, p\<lparr>pos := start\<rparr>, tokens)
        | SPart \<Rightarrow> Inr (JSMN_ERROR_PART, p\<lparr>pos := start\<rparr>, tokens)
        | SEnd k \<Rightarrow>
            (case tokens of
               None \<Rightarrow> Inr (0, p\<lparr>pos := k\<rparr>, None)
             | Some ts \<Rightarrow>
                 bindr (jsmn_alloc_token (p\<lparr>pos := k\<rparr>) ts num_tokens) (\<lambda>a.
                   case a of
                     None \<Rightarrow> Inr (JSMN_ERROR_NOMEM, p\<lparr>pos := start\<rparr>, tokens)
                   | Some (t, p', ts') \<Rightarrow>
                       Inr (0, p', Some (jsmn_fill_token t JSMN_STRING (int start + 1) (int k) ts'))))))"

section \<open>jsmn_parse\<close>

definition tok_open :: "jsmntok \<Rightarrow> bool" where
  "tok_open t \<longleftrightarrow> j_start t \<noteq> -1 \<and> j_end t = -1"

text \<open>The loops for (i = n - 1; i >= 0; i--) that look for a token.\<close>

fun find_down :: "(jsmntok \<Rightarrow> bool) \<Rightarrow> jsmntok list \<Rightarrow> nat \<Rightarrow> nat option" where
  "find_down P ts 0 = None"
| "find_down P ts (Suc i) = (if P (ts ! i) then Some i else find_down P ts i)"

definition bump_size :: "int \<Rightarrow> jsmntok list \<Rightarrow> jsmntok list" where
  "bump_size k ts = (if k = -1 then ts else ts[nat k := (ts ! nat k)\<lparr>j_size := j_size (ts ! nat k) + 1\<rparr>])"

text \<open>The state of the loop is the count, the parser and the tokens; a body goes on or returns.\<close>

type_synonym jstate = "int \<times> jsmn_parser \<times> tokens"

datatype ctl = Next jstate | Ret jstate

definition jsmn_open :: "u8 \<Rightarrow> nat \<Rightarrow> jstate \<Rightarrow> ctl res" where
  "jsmn_open c num_tokens = (\<lambda>(count, p, tokens).
     case tokens of
       None \<Rightarrow> Inr (Next (count + 1, p, None))
     | Some ts \<Rightarrow>
         bindr (jsmn_alloc_token p ts num_tokens) (\<lambda>a.
           case a of
             None \<Rightarrow> Inr (Ret (JSMN_ERROR_NOMEM, p, tokens))
           | Some (t, p', ts') \<Rightarrow>
               let ts2 = bump_size (toksuper p') ts';
                   ts3 = ts2[t := (ts2 ! t)\<lparr>j_type := (if c = 123 then JSMN_OBJECT else JSMN_ARRAY), j_start := int (pos p')\<rparr>]
               in Inr (Next (count + 1, p'\<lparr>toksuper := int (toknext p') - 1\<rparr>, Some ts3))))"

definition jsmn_close :: "u8 \<Rightarrow> jstate \<Rightarrow> ctl res" where
  "jsmn_close c = (\<lambda>(count, p, tokens).
     case tokens of
       None \<Rightarrow> Inr (Next (count, p, None))
     | Some ts \<Rightarrow>
         (case find_down tok_open ts (toknext p) of
            None \<Rightarrow> Inr (Ret (JSMN_ERROR_INVAL, p, tokens))
          | Some i \<Rightarrow>
              if j_type (ts ! i) \<noteq> (if c = 125 then JSMN_OBJECT else JSMN_ARRAY) then Inr (Ret (JSMN_ERROR_INVAL, p, tokens))
              else let ts2 = ts[i := (ts ! i)\<lparr>j_end := int (pos p) + 1\<rparr>];
                       sup = (case find_down tok_open ts2 (Suc i) of None \<Rightarrow> -1 | Some j \<Rightarrow> int j)
                   in Inr (Next (count, p\<lparr>toksuper := sup\<rparr>, Some ts2))))"

text \<open>After a string or a primitive: count it and add it to the size of the superior token.\<close>

definition jsmn_item :: "int \<Rightarrow> int \<times> jsmn_parser \<times> tokens \<Rightarrow> ctl" where
  "jsmn_item count = (\<lambda>(r, p, tokens).
     if r < 0 then Ret (r, p, tokens)
     else Next (count + 1, p, case tokens of None \<Rightarrow> None | Some ts \<Rightarrow> Some (bump_size (toksuper p) ts)))"

definition jsmn_comma :: "jstate \<Rightarrow> jstate" where
  "jsmn_comma = (\<lambda>(count, p, tokens).
     case tokens of
       None \<Rightarrow> (count, p, tokens)
     | Some ts \<Rightarrow>
         if toksuper p \<noteq> -1 \<and> j_type (ts ! nat (toksuper p)) \<noteq> JSMN_ARRAY \<and> j_type (ts ! nat (toksuper p)) \<noteq> JSMN_OBJECT
         then (case find_down (\<lambda>t. (j_type t = JSMN_ARRAY \<or> j_type t = JSMN_OBJECT) \<and> tok_open t) ts (toknext p) of
                 None \<Rightarrow> (count, p, tokens)
               | Some i \<Rightarrow> (count, p\<lparr>toksuper := int i\<rparr>, tokens))
         else (count, p, tokens))"

definition jsmn_body :: "u8 list \<Rightarrow> nat \<Rightarrow> nat \<Rightarrow> u8 \<Rightarrow> jstate \<Rightarrow> ctl res" where
  "jsmn_body js len num_tokens c st =
     (case st of (count, p, tokens) \<Rightarrow>
      if c = 123 \<or> c = 91 then jsmn_open c num_tokens st
      else if c = 125 \<or> c = 93 then jsmn_close c st
      else if c = 34 then bindr (jsmn_parse_string js len num_tokens p tokens) (\<lambda>x. Inr (jsmn_item count x))
      else if c = 9 \<or> c = 13 \<or> c = 10 \<or> c = 32 then Inr (Next st)
      else if c = 58 then Inr (Next (count, p\<lparr>toksuper := int (toknext p) - 1\<rparr>, tokens))
      else if c = 44 then Inr (Next (jsmn_comma st))
      else bindr (jsmn_parse_primitive js len num_tokens p tokens) (\<lambda>x. Inr (jsmn_item count x)))"

definition jsmn_finish :: "jstate \<Rightarrow> jstate" where
  "jsmn_finish = (\<lambda>(count, p, tokens).
     case tokens of
       None \<Rightarrow> (count, p, tokens)
     | Some ts \<Rightarrow> if find_down tok_open ts (toknext p) \<noteq> None then (JSMN_ERROR_PART, p, tokens) else (count, p, tokens))"

text \<open>The first argument bounds the rounds of the loop, and Blocked stands for more rounds than that.\<close>

fun jsmn_loop :: "nat \<Rightarrow> u8 list \<Rightarrow> nat \<Rightarrow> nat \<Rightarrow> jstate \<Rightarrow> jstate res" where
  "jsmn_loop 0 js len num_tokens st = Inl Blocked"
| "jsmn_loop (Suc n) js len num_tokens st =
     (case st of (count, p, tokens) \<Rightarrow>
      if pos p < len
      then bindr (rd js (pos p)) (\<lambda>c.
             if c = 0 then Inr (jsmn_finish st)
             else bindr (jsmn_body js len num_tokens c st) (\<lambda>x.
                    case x of
                      Ret st' \<Rightarrow> Inr st'
                    | Next (count', p', tokens') \<Rightarrow> jsmn_loop n js len num_tokens (count', p'\<lparr>pos := Suc (pos p')\<rparr>, tokens')))
      else Inr (jsmn_finish st))"

definition jsmn_parse :: "jsmn_parser \<Rightarrow> u8 list \<Rightarrow> nat \<Rightarrow> tokens \<Rightarrow> nat \<Rightarrow> jstate res" where
  "jsmn_parse p js len tokens num_tokens = jsmn_loop (Suc len) js len num_tokens (int (toknext p), p, tokens)"

section \<open>The scanners\<close>

lemma prim_scan_ok:
  assumes "len \<le> length js" "k \<le> len"
  shows "\<exists>e. prim_scan js len k = Inr e \<and> (\<forall>q. e = Some q \<longrightarrow> k \<le> q \<and> q \<le> len)"
  using assms
proof (induction js len k rule: prim_scan.induct)
  case (1 js len k)
  show ?case
  proof (cases "k < len")
    case True
    then have "rd js k = Inr (js ! k)" using "1.prems" by (simp add: rd_def)
    with True "1.IH" [OF True this] "1.prems" show ?thesis by (subst prim_scan.simps) (auto simp: Suc_le_eq)
  qed (use "1.prems" in \<open>simp add: prim_scan.simps\<close>)
qed

lemma prim_scan_progress:
  assumes "prim_scan js len k = Inr (Some q)" "k < len" "rd js k = Inr c" "c \<noteq> 0" "\<not> prim_stop c"
  shows "k < q"
proof -
  have "prim_scan js len (Suc k) = Inr (Some q)"
    using assms by (subst (asm) prim_scan.simps) (auto split: if_splits)
  moreover have "Suc k \<le> q'" if "prim_scan js len (Suc k) = Inr (Some q')" for q'
    using that
  proof (induction js len "Suc k" arbitrary: k rule: prim_scan.induct)
    case (1 js len)
    then show ?case by (subst (asm) (2) prim_scan.simps) (auto simp: bindr_eq_Inr split: if_splits intro: Suc_leD)
  qed
  ultimately show ?thesis by (simp add: Suc_le_eq)
qed

lemma hex_scan_ok: "\<lbrakk>len \<le> length js; k \<le> len\<rbrakk> \<Longrightarrow> \<exists>e. hex_scan js len n k = Inr e \<and> (\<forall>q. e = Some q \<longrightarrow> q \<le> len)"
  by (induction n arbitrary: k) (auto simp: rd_def)

lemma str_scan_ok:
  assumes "len \<le> length js" "k \<le> len"
  shows "\<exists>e. str_scan js len k = Inr e \<and> (\<forall>q. e = SEnd q \<longrightarrow> k \<le> q \<and> q < len \<and> js ! q = 34)"
  using assms
proof (induction js len k rule: str_scan.induct)
  case (1 js len k)
  show ?case
  proof (cases "k < len")
    case True
    then have r: "rd js k = Inr (js ! k)" using "1.prems" by (simp add: rd_def)
    show ?thesis
    proof (cases "js ! k = 92 \<and> k + 1 < len")
      case esc: True
      then have r1: "rd js (k + 1) = Inr (js ! (k + 1))" using "1.prems" by (simp add: rd_def)
      obtain e where e: "hex_scan js len 4 (k + 2) = Inr e" "\<forall>q. e = Some q \<longrightarrow> q \<le> len"
        using hex_scan_ok [of len js "k + 2" 4] "1.prems" esc by auto
      have ih1: "\<exists>e. str_scan js len (k + 2) = Inr e \<and> (\<forall>q. e = SEnd q \<longrightarrow> k + 2 \<le> q \<and> q < len \<and> js ! q = 34)" if "esc_char (js ! (k + 1))"
        using "1.IH"(1) [OF True r _ _ esc r1 that] esc "1.prems" by simp
      have ih2: "\<exists>e. str_scan js len q = Inr e \<and> (\<forall>q'. e = SEnd q' \<longrightarrow> q \<le> q' \<and> q' < len \<and> js ! q' = 34)"
        if "\<not> esc_char (js ! (k + 1))" "js ! (k + 1) = 117" "e = Some q" for q
        using "1.IH"(2) [OF True r _ _ esc r1 that(1,2) e(1) that(3)] esc e(2) that(3) "1.prems" by simp
      have ge: "e = Some q \<Longrightarrow> k + 2 \<le> q" for q using hex_scan_ge e(1) by blast
      have u: "str_scan js len k = (if esc_char (js ! (k + 1)) then str_scan js len (k + 2)
          else if js ! (k + 1) = 117 then (case e of None \<Rightarrow> Inr SInval | Some q \<Rightarrow> str_scan js len q) else Inr SInval)"
        using True r esc r1 e(1) by (subst str_scan.simps) simp
      show ?thesis
      proof (cases "esc_char (js ! (k + 1))")
        case True
        with u ih1 show ?thesis by auto
      next
        case False
        with u ih2 ge show ?thesis by (cases e) (auto intro: order_trans)
      qed
    next
      case no: False
      then have u: "str_scan js len k = (if js ! k = 0 then Inr SPart else if js ! k = 34 then Inr (SEnd k) else str_scan js len (k + 1))"
        using True r by (subst str_scan.simps) auto
      have "\<exists>e. str_scan js len (k + 1) = Inr e \<and> (\<forall>q. e = SEnd q \<longrightarrow> k + 1 \<le> q \<and> q < len \<and> js ! q = 34)"
        if "js ! k \<noteq> 0" "js ! k \<noteq> 34"
        using "1.IH"(3) [OF True r that no] True "1.prems" by simp
      with u True show ?thesis by auto
    qed
  qed (simp add: str_scan.simps)
qed

section \<open>What the tokens say\<close>

definition tok_shape :: "u8 list \<Rightarrow> jsmntype \<Rightarrow> nat \<Rightarrow> nat \<Rightarrow> bool" where
  "tok_shape js ty a b = (case ty of
       JSMN_OBJECT \<Rightarrow> a < b \<and> js ! a = 123 \<and> js ! (b - 1) = 125
     | JSMN_ARRAY \<Rightarrow> a < b \<and> js ! a = 91 \<and> js ! (b - 1) = 93
     | JSMN_STRING \<Rightarrow> 0 < a \<and> js ! (a - 1) = 34 \<and> js ! b = 34
     | JSMN_PRIMITIVE \<Rightarrow> a < b
     | JSMN_UNDEFINED \<Rightarrow> False)"

text \<open>A finished token delimits a piece of the text before position k that has the form of its type.\<close>

definition tok_closed :: "u8 list \<Rightarrow> nat \<Rightarrow> jsmntok \<Rightarrow> bool" where
  "tok_closed js k t \<longleftrightarrow> 0 \<le> j_start t \<and> j_start t \<le> j_end t \<and> j_end t \<le> int k \<and>
     tok_shape js (j_type t) (nat (j_start t)) (nat (j_end t))"

definition tok_begun :: "u8 list \<Rightarrow> nat \<Rightarrow> jsmntok \<Rightarrow> bool" where
  "tok_begun js k t \<longleftrightarrow> j_end t = -1 \<and> 0 \<le> j_start t \<and> j_start t < int k \<and>
     (j_type t = JSMN_OBJECT \<and> js ! nat (j_start t) = 123 \<or> j_type t = JSMN_ARRAY \<and> js ! nat (j_start t) = 91)"

definition jinv :: "u8 list \<Rightarrow> nat \<Rightarrow> nat \<Rightarrow> int \<Rightarrow> jsmn_parser \<Rightarrow> jsmntok list \<Rightarrow> bool" where
  "jinv js k num count p ts \<longleftrightarrow> toknext p \<le> num \<and> num \<le> length ts \<and> count = int (toknext p) \<and>
     (toksuper p = -1 \<or> 0 \<le> toksuper p \<and> toksuper p < int (toknext p)) \<and>
     (\<forall>i<toknext p. tok_closed js k (ts ! i) \<or> tok_begun js k (ts ! i))"

lemma tok_mono: "\<lbrakk>tok_closed js k t; k \<le> k'\<rbrakk> \<Longrightarrow> tok_closed js k' t" "\<lbrakk>tok_begun js k t; k \<le> k'\<rbrakk> \<Longrightarrow> tok_begun js k' t"
  by (auto simp: tok_closed_def tok_begun_def)

lemma jinv_mono: "\<lbrakk>jinv js k num count p ts; k \<le> k'\<rbrakk> \<Longrightarrow> jinv js k' num count p ts"
  using tok_mono unfolding jinv_def by blast

lemma length_bump [simp]: "length (bump_size k ts) = length ts"
  by (simp add: bump_size_def)

lemma tok_bump [simp]: "tok_closed js k (bump_size j ts ! i) = tok_closed js k (ts ! i)" "tok_begun js k (bump_size j ts ! i) = tok_begun js k (ts ! i)"
  by (auto simp: bump_size_def nth_upd tok_closed_def tok_begun_def)

lemma jinv_bump: "jinv js k num count p ts \<Longrightarrow> jinv js k num count p (bump_size j ts)"
  by (simp add: jinv_def)

lemma find_down_Some: "find_down P ts n = Some i \<Longrightarrow> i < n \<and> P (ts ! i)"
  by (induction n) (auto split: if_splits)

lemma find_down_None: "find_down P ts n = None \<longleftrightarrow> (\<forall>i<n. \<not> P (ts ! i))"
  by (induction n) (auto simp: less_Suc_eq)

text \<open>Adding a finished token.\<close>

lemma jinv_item:
  assumes inv: "jinv js k num count p ts" and room: "toknext p < num" and kk: "k \<le> k'"
    and t: "tok_closed js k' t"
  shows "jinv js k' num (count + 1) (p\<lparr>pos := q, toknext := Suc (toknext p)\<rparr>) (ts[toknext p := t])"
  using inv room t tok_mono [OF _ kk] unfolding jinv_def by (auto simp: nth_list_update less_Suc_eq)

lemma jsmn_open_ok:
  assumes inv: "jinv js (pos p) num count p ts" and c: "c = 123 \<or> c = 91" "js ! pos p = c"
  shows "(\<exists>r. jsmn_open c num (count, p, Some ts) = Inr (Ret r)) \<or>
    (\<exists>count' p' ts'. jsmn_open c num (count, p, Some ts) = Inr (Next (count', p', Some ts')) \<and> pos p' = pos p \<and> jinv js (Suc (pos p)) num count' p' ts')"
proof (cases "toknext p < num")
  case True
  let ?n = "toknext p"
  let ?ts = "ts[?n := (ts ! ?n)\<lparr>j_start := -1, j_end := -1, j_size := 0\<rparr>]"
  let ?ts2 = "bump_size (toksuper p) ?ts"
  let ?t = "(?ts2 ! ?n)\<lparr>j_type := (if c = 123 then JSMN_OBJECT else JSMN_ARRAY), j_start := int (pos p)\<rparr>"
  have len: "?n < length ts" using inv True by (simp add: jinv_def)
  have e: "j_end ?t = -1" using len by (auto simp: bump_size_def nth_upd)
  have "tok_begun js (Suc (pos p)) ?t" using e c by (auto simp: tok_begun_def)
  moreover have "tok_closed js (Suc (pos p)) (?ts2 ! i) \<or> tok_begun js (Suc (pos p)) (?ts2 ! i)" if "i < ?n" for i
    using inv that tok_mono [of js "pos p" "ts ! i" "Suc (pos p)"] by (auto simp: jinv_def)
  ultimately have "jinv js (Suc (pos p)) num (count + 1) (p\<lparr>toknext := Suc ?n, toksuper := int ?n\<rparr>) (?ts2[?n := ?t])"
    using inv True len by (auto simp: jinv_def nth_list_update less_Suc_eq)
  then show ?thesis using True len by (simp add: jsmn_open_def jsmn_alloc_token_def Let_def)
qed (simp add: jsmn_open_def jsmn_alloc_token_def)

lemma jsmn_close_ok:
  assumes inv: "jinv js (pos p) num count p ts" and c: "c = 125 \<or> c = 93" "js ! pos p = c"
  shows "(\<exists>r. jsmn_close c (count, p, Some ts) = Inr (Ret r)) \<or>
    (\<exists>count' p' ts'. jsmn_close c (count, p, Some ts) = Inr (Next (count', p', Some ts')) \<and> pos p' = pos p \<and> jinv js (Suc (pos p)) num count' p' ts')"
proof (cases "find_down tok_open ts (toknext p)")
  case (Some i)
  show ?thesis
  proof (cases "j_type (ts ! i) = (if c = 125 then JSMN_OBJECT else JSMN_ARRAY)")
    case ty: True
    let ?t = "(ts ! i)\<lparr>j_end := int (pos p) + 1\<rparr>"
    let ?ts = "ts[i := ?t]"
    have i: "i < toknext p" "tok_open (ts ! i)" using find_down_Some [OF Some] by auto
    then have b: "tok_begun js (pos p) (ts ! i)" using inv by (auto simp: jinv_def tok_closed_def tok_open_def)
    then have "tok_closed js (Suc (pos p)) ?t" using ty c by (auto simp: tok_begun_def tok_closed_def tok_shape_def nat_add_distrib)
    then have good: "tok_closed js (Suc (pos p)) (?ts ! j) \<or> tok_begun js (Suc (pos p)) (?ts ! j)" if "j < toknext p" for j
      using inv that tok_mono [of js "pos p" "ts ! j" "Suc (pos p)"] by (auto simp: jinv_def nth_upd)
    define sup where "sup = (case find_down tok_open ?ts (Suc i) of None \<Rightarrow> -1 | Some j \<Rightarrow> int j)"
    have "sup = -1 \<or> 0 \<le> sup \<and> sup < int (toknext p)"
      using find_down_Some [of tok_open ?ts "Suc i"] i by (auto simp: sup_def simp del: find_down.simps split: option.splits)
    then have "jinv js (Suc (pos p)) num count (p\<lparr>toksuper := sup\<rparr>) ?ts" using inv good by (simp add: jinv_def)
    then show ?thesis using Some ty by (simp add: jsmn_close_def Let_def sup_def del: find_down.simps)
  qed (simp add: jsmn_close_def Some)
qed (simp add: jsmn_close_def)

lemma jsmn_string_ok:
  assumes inv: "jinv js (pos p) num count p ts" and c: "js ! pos p = 34" and l: "pos p < len" "len \<le> length js"
  shows "\<exists>x. bindr (jsmn_parse_string js len num p (Some ts)) (\<lambda>x. Inr (jsmn_item count x)) = Inr x \<and> (case x of Ret r \<Rightarrow> True
    | Next (count', p', toks') \<Rightarrow> \<exists>ts'. toks' = Some ts' \<and> pos p \<le> pos p' \<and> pos p' < len \<and> jinv js (Suc (pos p')) num count' p' ts')"
proof -
  obtain e where e: "str_scan js len (pos p + 1) = Inr e" "\<forall>q. e = SEnd q \<longrightarrow> pos p + 1 \<le> q \<and> q < len \<and> js ! q = 34"
    using str_scan_ok [of len js "pos p + 1"] l by auto
  show ?thesis
  proof (cases e)
    case (SEnd q)
    show ?thesis
    proof (cases "toknext p < num")
      case True
      let ?n = "toknext p"
      let ?t = "(ts ! ?n)\<lparr>j_type := JSMN_STRING, j_start := int (pos p) + 1, j_end := int q, j_size := 0\<rparr>"
      have len: "?n < length ts" using inv True by (simp add: jinv_def)
      have "tok_closed js (Suc q) ?t" using SEnd e c by (auto simp: tok_closed_def tok_shape_def nat_add_distrib)
      then have "jinv js (Suc q) num (count + 1) (p\<lparr>pos := q, toknext := Suc ?n\<rparr>) (ts[?n := ?t])"
        using SEnd e by (intro jinv_item [OF inv True]) auto
      then have j: "jinv js (Suc q) num (count + 1) (p\<lparr>pos := q, toknext := Suc ?n\<rparr>) (bump_size (toksuper p) (ts[?n := ?t]))" by (rule jinv_bump)
      show ?thesis using SEnd e True len j
        by (simp add: jsmn_parse_string_def Let_def jsmn_alloc_token_def jsmn_fill_token_def jsmn_item_def)
    qed (use SEnd e in \<open>simp add: jsmn_parse_string_def Let_def jsmn_alloc_token_def jsmn_item_def JSMN_ERROR_NOMEM_def\<close>)
  qed (use e in \<open>simp_all add: jsmn_parse_string_def Let_def jsmn_item_def JSMN_ERROR_INVAL_def JSMN_ERROR_PART_def\<close>)
qed

lemma jsmn_primitive_ok:
  assumes inv: "jinv js (pos p) num count p ts" and c: "js ! pos p = c" "c \<noteq> 0" "\<not> prim_stop c" and l: "pos p < len" "len \<le> length js"
  shows "\<exists>x. bindr (jsmn_parse_primitive js len num p (Some ts)) (\<lambda>x. Inr (jsmn_item count x)) = Inr x \<and> (case x of Ret r \<Rightarrow> True
    | Next (count', p', toks') \<Rightarrow> \<exists>ts'. toks' = Some ts' \<and> pos p \<le> pos p' \<and> pos p' < len \<and> jinv js (Suc (pos p')) num count' p' ts')"
proof -
  obtain e where e: "prim_scan js len (pos p) = Inr e" "\<forall>q. e = Some q \<longrightarrow> pos p \<le> q \<and> q \<le> len"
    using prim_scan_ok [of len js "pos p"] l by auto
  show ?thesis
  proof (cases e)
    case (Some q)
    have q: "pos p < q" "q \<le> len" using prim_scan_progress [of js len "pos p" q c] e Some l c by (auto simp: rd_def)
    show ?thesis
    proof (cases "toknext p < num")
      case True
      let ?n = "toknext p"
      let ?t = "(ts ! ?n)\<lparr>j_type := JSMN_PRIMITIVE, j_start := int (pos p), j_end := int q, j_size := 0\<rparr>"
      have len: "?n < length ts" using inv True by (simp add: jinv_def)
      have "tok_closed js q ?t" using q by (auto simp: tok_closed_def tok_shape_def)
      then have "jinv js q num (count + 1) (p\<lparr>pos := q - 1, toknext := Suc ?n\<rparr>) (ts[?n := ?t])"
        using q by (intro jinv_item [OF inv True]) auto
      then have "jinv js q num (count + 1) (p\<lparr>pos := q - 1, toknext := Suc ?n\<rparr>) (bump_size (toksuper p) (ts[?n := ?t]))" by (rule jinv_bump)
      then have j: "jinv js q num (count + 1) (p\<lparr>toknext := Suc ?n, pos := q - 1\<rparr>) (bump_size (toksuper p) (ts[?n := ?t]))"
        by (simp add: jinv_def)
      have "Suc (q - 1) = q" "pos p \<le> q - 1" "q - 1 < len" using q by simp_all
      with Some e True len j show ?thesis
        by (simp add: jsmn_parse_primitive_def Let_def jsmn_alloc_token_def jsmn_fill_token_def jsmn_item_def)
    qed (use Some e in \<open>simp add: jsmn_parse_primitive_def Let_def jsmn_alloc_token_def jsmn_item_def JSMN_ERROR_NOMEM_def\<close>)
  qed (use e in \<open>simp add: jsmn_parse_primitive_def Let_def jsmn_item_def JSMN_ERROR_INVAL_def\<close>)
qed

lemma jsmn_comma_ok:
  assumes "jinv js k num count p ts"
  shows "\<exists>p'. jsmn_comma (count, p, Some ts) = (count, p', Some ts) \<and> pos p' = pos p \<and> jinv js k num count p' ts"
proof (cases "find_down (\<lambda>t. (j_type t = JSMN_ARRAY \<or> j_type t = JSMN_OBJECT) \<and> tok_open t) ts (toknext p)")
  case None
  then show ?thesis using assms by (simp add: jsmn_comma_def)
next
  case (Some i)
  then have "i < toknext p" using find_down_Some by blast
  then have "jinv js k num count (p\<lparr>toksuper := int i\<rparr>) ts" using assms by (simp add: jinv_def)
  with Some assms show ?thesis by (simp add: jsmn_comma_def)
qed

lemma jsmn_body_ok:
  assumes inv: "jinv js (pos p) num count p ts" and l: "pos p < len" "len \<le> length js" and c: "js ! pos p = c" "c \<noteq> 0"
  shows "\<exists>x. jsmn_body js len num c (count, p, Some ts) = Inr x \<and> (case x of Ret r \<Rightarrow> True
    | Next (count', p', toks') \<Rightarrow> \<exists>ts'. toks' = Some ts' \<and> pos p \<le> pos p' \<and> pos p' < len \<and> jinv js (Suc (pos p')) num count' p' ts')"
proof -
  have up: "jinv js (Suc (pos p)) num count p ts" using jinv_mono [OF inv, of "Suc (pos p)"] by simp
  consider (obr) "c = 123 \<or> c = 91" | (cbr) "c = 125 \<or> c = 93" | (str) "c = 34" | (white) "c = 9 \<or> c = 13 \<or> c = 10 \<or> c = 32"
    | (colon) "c = 58" | (comma) "c = 44" | (prim) "\<not> prim_stop c" "c \<noteq> 123" "c \<noteq> 91" "c \<noteq> 34"
    by (auto simp: prim_stop_def)
  then show ?thesis
  proof cases
    case obr
    then have "jsmn_body js len num c (count, p, Some ts) = jsmn_open c num (count, p, Some ts)" by (simp add: jsmn_body_def)
    with jsmn_open_ok [OF inv obr c(1)] l show ?thesis by fastforce
  next
    case cbr
    then have "jsmn_body js len num c (count, p, Some ts) = jsmn_close c (count, p, Some ts)" by (auto simp: jsmn_body_def)
    with jsmn_close_ok [OF inv cbr c(1)] l show ?thesis by fastforce
  next
    case str
    with jsmn_string_ok [OF inv _ l] c show ?thesis by (simp add: jsmn_body_def)
  next
    case white
    with up l show ?thesis by (auto simp: jsmn_body_def)
  next
    case colon
    have "jinv js (Suc (pos p)) num count (p\<lparr>toksuper := int (toknext p) - 1\<rparr>) ts" using up by (auto simp: jinv_def)
    with colon l show ?thesis by (simp add: jsmn_body_def)
  next
    case comma
    with jsmn_comma_ok [OF up] l show ?thesis by (fastforce simp: jsmn_body_def)
  next
    case prim
    have "jsmn_body js len num c (count, p, Some ts) = bindr (jsmn_parse_primitive js len num p (Some ts)) (\<lambda>x. Inr (jsmn_item count x))"
      using prim by (auto simp: jsmn_body_def prim_stop_def)
    with jsmn_primitive_ok [OF inv c prim(1) l] show ?thesis by simp
  qed
qed

lemma jsmn_body_ret:
  assumes "jsmn_body js len num c (count, p, Some ts) = Inr (Ret (r, p', toks'))"
  shows "r < 0"
  using assms
  by (auto simp: jsmn_body_def jsmn_open_def jsmn_close_def jsmn_item_def bindr_eq_Inr JSMN_ERROR_NOMEM_def JSMN_ERROR_INVAL_def Let_def
      split: if_splits option.splits prod.splits)

lemma jsmn_finish_ok:
  assumes "jinv js k num count p ts" "k \<le> len"
  shows "\<exists>r. jsmn_finish (count, p, Some ts) = (r, p, Some ts) \<and>
    (0 \<le> r \<longrightarrow> r = int (toknext p) \<and> toknext p \<le> num \<and> (\<forall>i<toknext p. tok_closed js len (ts ! i)))"
proof (cases "find_down tok_open ts (toknext p)")
  case None
  have "tok_closed js len (ts ! i)" if i: "i < toknext p" for i
  proof -
    have "\<not> tok_begun js k (ts ! i)" using None i by (auto simp: find_down_None tok_open_def tok_begun_def)
    with assms i tok_mono(1) show ?thesis unfolding jinv_def by blast
  qed
  with None assms show ?thesis by (simp add: jsmn_finish_def jinv_def)
next
  case (Some i)
  then show ?thesis by (simp add: jsmn_finish_def JSMN_ERROR_PART_def)
qed

lemma jsmn_loop_ok:
  assumes "jinv js (pos p) num count p ts" "pos p \<le> len" "len \<le> length js" "len - pos p < n"
  shows "\<exists>r p' toks'. jsmn_loop n js len num (count, p, Some ts) = Inr (r, p', toks') \<and>
    (0 \<le> r \<longrightarrow> (\<exists>ts'. toks' = Some ts' \<and> r = int (toknext p') \<and> toknext p' \<le> num \<and> (\<forall>i<toknext p'. tok_closed js len (ts' ! i))))"
  using assms
proof (induction n arbitrary: count p ts)
  case (Suc n)
  have fin: "\<exists>r. jsmn_finish (count, p, Some ts) = (r, p, Some ts) \<and>
      (0 \<le> r \<longrightarrow> r = int (toknext p) \<and> toknext p \<le> num \<and> (\<forall>i<toknext p. tok_closed js len (ts ! i)))"
    by (rule jsmn_finish_ok [OF Suc.prems(1,2)])
  show ?case
  proof (cases "pos p < len \<and> js ! pos p \<noteq> 0")
    case True
    then have r: "rd js (pos p) = Inr (js ! pos p)" using Suc.prems(3) by (simp add: rd_def)
    obtain x where x: "jsmn_body js len num (js ! pos p) (count, p, Some ts) = Inr x"
      "case x of Ret r \<Rightarrow> True | Next (count', p', toks') \<Rightarrow> \<exists>ts'. toks' = Some ts' \<and> pos p \<le> pos p' \<and> pos p' < len \<and> jinv js (Suc (pos p')) num count' p' ts'"
      using jsmn_body_ok [OF Suc.prems(1) _ Suc.prems(3) refl] True by blast
    show ?thesis
    proof (cases x)
      case (Ret st)
      obtain r' p' toks' where st: "st = (r', p', toks')" by (cases st)
      have "r' < 0" using jsmn_body_ret x(1) unfolding Ret st by blast
      then show ?thesis using True r x(1) Ret st by simp
    next
      case (Next st)
      then obtain count' p' ts' where st: "st = (count', p', Some ts')" "pos p \<le> pos p'" "pos p' < len" "jinv js (Suc (pos p')) num count' p' ts'"
        using x(2) by (cases st) auto
      have "jinv js (pos (p'\<lparr>pos := Suc (pos p')\<rparr>)) num count' (p'\<lparr>pos := Suc (pos p')\<rparr>) ts'" using st(4) by (simp add: jinv_def)
      from Suc.IH [OF this] st(2,3) Suc.prems(3,4) True
      show ?thesis using r x(1) Next st(1) by simp
    qed
  next
    case False
    then have "jsmn_loop (Suc n) js len num (count, p, Some ts) = Inr (jsmn_finish (count, p, Some ts))"
      using Suc.prems(3) by (auto simp: rd_def)
    with fin show ?thesis by auto
  qed
qed simp



section \<open>Configuration files\<close>

text \<open>
  The texts dockv6 is given: one object whose members are strings.  The strings hold no quote,
  backslash or NUL.
\<close>

definition plain :: "u8 list \<Rightarrow> bool" where
  "plain s \<longleftrightarrow> (\<forall>c\<in>set s. c \<noteq> 0 \<and> c \<noteq> 34 \<and> c \<noteq> 92)"

definition pair_text :: "u8 list \<times> u8 list \<Rightarrow> u8 list" where
  "pair_text q = 34 # fst q @ [34, 58, 34] @ snd q @ [34]"

fun body_text :: "(u8 list \<times> u8 list) list \<Rightarrow> u8 list" where
  "body_text [] = []"
| "body_text [q] = pair_text q"
| "body_text (q # r # qs) = pair_text q @ 44 # body_text (r # qs)"

definition config_text :: "(u8 list \<times> u8 list) list \<Rightarrow> u8 list" where
  "config_text qs = 123 # body_text qs @ [125]"

definition tok_text :: "u8 list \<Rightarrow> jsmntok \<Rightarrow> u8 list" where
  "tok_text js t = take (nat (j_end t) - nat (j_start t)) (drop (nat (j_start t)) js)"

text \<open>Rounds of the loop that lead from one state to another.\<close>

definition jruns :: "u8 list \<Rightarrow> nat \<Rightarrow> nat \<Rightarrow> jstate \<Rightarrow> jstate \<Rightarrow> bool" where
  "jruns js len num st st' \<longleftrightarrow> (\<forall>n. len - pos (fst (snd st)) < n \<longrightarrow>
     (\<exists>n'. len - pos (fst (snd st')) < n' \<and> jsmn_loop n js len num st = jsmn_loop n' js len num st'))"

lemma jruns_trans: "jruns js len num a b \<Longrightarrow> jruns js len num b c \<Longrightarrow> jruns js len num a c"
  unfolding jruns_def by metis

lemma jruns_body:
  assumes "pos p < len" "rd js (pos p) = Inr c" "c \<noteq> 0" "jsmn_body js len num c (count, p, toks) = Inr (Next (count', p', toks'))"
    "pos p \<le> pos p'"
  shows "jruns js len num (count, p, toks) (count', p'\<lparr>pos := Suc (pos p')\<rparr>, toks')"
  unfolding jruns_def
proof (intro allI impI)
  fix n assume n: "len - pos (fst (snd (count, p, toks))) < n"
  then obtain m where m: "n = Suc m" by (cases n) auto
  show "\<exists>n'. len - pos (fst (snd (count', p'\<lparr>pos := Suc (pos p')\<rparr>, toks'))) < n' \<and>
      jsmn_loop n js len num (count, p, toks) = jsmn_loop n' js len num (count', p'\<lparr>pos := Suc (pos p')\<rparr>, toks')"
    using assms n m by (intro exI [of _ m]) auto
qed

lemma rd_at: "js = pre @ c # rest \<Longrightarrow> rd js (length pre) = Inr c"
  by (simp add: rd_def)

lemma str_scan_plain:
  assumes "js = pre @ s @ 34 # rest" "plain s" "len = length js"
  shows "str_scan js len (length pre) = Inr (SEnd (length pre + length s))"
  using assms
proof (induction s arbitrary: pre)
  case Nil
  then show ?case by (subst str_scan.simps) (simp add: rd_def)
next
  case (Cons c s)
  have "str_scan js len (length (pre @ [c])) = Inr (SEnd (length (pre @ [c]) + length s))"
    using Cons.prems by (intro Cons.IH) (auto simp: plain_def)
  then show ?case using Cons.prems by (subst str_scan.simps) (simp add: rd_def plain_def)
qed

lemma jruns_string:
  assumes js: "js = pre @ 34 # s @ 34 # rest" "plain s" "len = length js" and p: "pos p = length pre" "toknext p < num" "num \<le> length ts"
  shows "jruns js len num (count, p, Some ts)
    (count + 1, p\<lparr>pos := length pre + length s + 2, toknext := Suc (toknext p)\<rparr>,
     Some (bump_size (toksuper p) (ts[toknext p := (ts ! toknext p)\<lparr>j_type := JSMN_STRING, j_start := int (length pre) + 1,
       j_end := int (length pre + 1 + length s), j_size := 0\<rparr>])))"
proof -
  have "str_scan js len (Suc (length pre)) = Inr (SEnd (Suc (length pre) + length s))"
    using str_scan_plain [of js "pre @ [34]" s rest len] js by simp
  then have b: "jsmn_body js len num 34 (count, p, Some ts) =
    Inr (Next (count + 1, p\<lparr>pos := length pre + 1 + length s, toknext := Suc (toknext p)\<rparr>,
     Some (bump_size (toksuper p) (ts[toknext p := (ts ! toknext p)\<lparr>j_type := JSMN_STRING, j_start := int (length pre) + 1,
       j_end := int (length pre + 1 + length s), j_size := 0\<rparr>]))))"
    using p by (simp add: jsmn_body_def jsmn_parse_string_def Let_def jsmn_alloc_token_def jsmn_fill_token_def jsmn_item_def)
  from jruns_body [OF _ _ _ b] rd_at [of js pre 34 "s @ 34 # rest"] js p show ?thesis by (cases p) simp
qed

lemma tok_text_piece: "js = pre @ s @ rest \<Longrightarrow> j_start t = int (length pre) \<Longrightarrow> j_end t = int (length pre + length s) \<Longrightarrow> tok_text js t = s"
  by (simp add: tok_text_def)

lemma bump_sel [simp]:
  "j_type (bump_size k ts ! i) = j_type (ts ! i)" "j_start (bump_size k ts ! i) = j_start (ts ! i)" "j_end (bump_size k ts ! i) = j_end (ts ! i)"
  by (auto simp: bump_size_def nth_upd)

text \<open>What is left of a token when its size is forgotten.\<close>

definition span :: "jsmntok \<Rightarrow> jsmntype \<times> int \<times> int" where
  "span t = (j_type t, j_start t, j_end t)"

lemma span_bump [simp]: "span (bump_size k ts ! i) = span (ts ! i)"
  by (simp add: span_def)

lemma jruns_pair:
  assumes js: "js = pre @ pair_text (k, v) @ rest" "plain k" "plain v" "len = length js"
    and p: "pos p = length pre" "toknext p + 2 \<le> num" "num \<le> length ts"
  obtains p' ts' where "jruns js len num (count, p, Some ts) (count + 2, p', Some ts')" "pos p' = length pre + length (pair_text (k, v))"
     "toknext p' = toknext p + 2" "toksuper p' = int (toknext p)" "length ts' = length ts" "\<forall>i<toknext p. span (ts' ! i) = span (ts ! i)"
     "j_type (ts' ! toknext p) = JSMN_STRING" "tok_text js (ts' ! toknext p) = k" "\<not> tok_open (ts' ! toknext p)"
     "j_type (ts' ! Suc (toknext p)) = JSMN_STRING" "tok_text js (ts' ! Suc (toknext p)) = v" "\<not> tok_open (ts' ! Suc (toknext p))"
proof -
  define n where "n = toknext p"
  define pre3 where "pre3 = pre @ 34 # k @ [34, 58]"
  define ts1 where "ts1 = bump_size (toksuper p) (ts[n := (ts ! n)\<lparr>j_type := JSMN_STRING, j_start := int (length pre) + 1,
    j_end := int (length pre + 1 + length k), j_size := 0\<rparr>])"
  define p1 where "p1 = p\<lparr>pos := length pre + length k + 2, toknext := Suc n\<rparr>"
  define p2 where "p2 = p1\<lparr>toksuper := int n, pos := length pre3\<rparr>"
  define ts3 where "ts3 = bump_size (int n) (ts1[Suc n := (ts1 ! Suc n)\<lparr>j_type := JSMN_STRING, j_start := int (length pre3) + 1,
    j_end := int (length pre3 + 1 + length v), j_size := 0\<rparr>])"
  define p3 where "p3 = p2\<lparr>pos := length pre3 + length v + 2, toknext := Suc (Suc n)\<rparr>"
  have len: "n < length ts" "Suc n < length ts" "length ts1 = length ts" using p by (simp_all add: n_def ts1_def)
  have s1: "js = pre @ 34 # k @ 34 # (58 # 34 # v @ 34 # rest)" using js by (simp add: pair_text_def)
  have r1: "jruns js len num (count, p, Some ts) (count + 1, p1, Some ts1)"
    using jruns_string [OF s1 js(2,4), of p num ts count] p by (simp add: n_def p1_def ts1_def)
  have s2: "js = (pre @ 34 # k @ [34]) @ 58 # (34 # v @ 34 # rest)" using s1 by simp
  have "rd js (pos p1) = Inr 58" using rd_at [OF s2] by (simp add: p1_def)
  moreover have "jsmn_body js len num 58 (count + 1, p1, Some ts1) = Inr (Next (count + 1, p1\<lparr>toksuper := int n\<rparr>, Some ts1))"
    by (simp add: jsmn_body_def p1_def)
  moreover have "pos p1 < len" "pos p1 \<le> pos (p1\<lparr>toksuper := int n\<rparr>)" using s1 js(4) by (simp_all add: p1_def)
  ultimately have r2: "jruns js len num (count + 1, p1, Some ts1) (count + 1, p1\<lparr>toksuper := int n, pos := Suc (pos p1)\<rparr>, Some ts1)"
    using jruns_body [of p1 len js 58 num "count + 1" "Some ts1" "count + 1" "p1\<lparr>toksuper := int n\<rparr>" "Some ts1"] by simp
  have p2: "p1\<lparr>toksuper := int n, pos := Suc (pos p1)\<rparr> = p2" by (simp add: p1_def p2_def pre3_def)
  have s3: "js = pre3 @ 34 # v @ 34 # rest" using s1 by (simp add: pre3_def)
  have sel2: "pos p2 = length pre3" "toknext p2 = Suc n" "toksuper p2 = int n" by (simp_all add: p2_def p1_def)
  have r3: "jruns js len num (count + 1, p2, Some ts1) (count + 2, p3, Some ts3)"
    using jruns_string [OF s3 js(3,4) sel2(1), of num ts1 "count + 1"] p len by (simp add: sel2 n_def [symmetric] p3_def ts3_def add.commute)
  have r: "jruns js len num (count, p, Some ts) (count + 2, p3, Some ts3)"
    using jruns_trans [OF jruns_trans [OF r1 r2 [unfolded p2]] r3] .
  have sp: "span (ts3 ! n) = (JSMN_STRING, int (length (pre @ [34])), int (length (pre @ [34]) + length k))"
    "span (ts3 ! Suc n) = (JSMN_STRING, int (length (pre3 @ [34])), int (length (pre3 @ [34]) + length v))"
    "i < n \<Longrightarrow> span (ts3 ! i) = span (ts ! i)" for i
    using len by (simp_all add: ts3_def ts1_def span_def)
  have "tok_text js (ts3 ! n) = k"
    by (rule tok_text_piece [of js "pre @ [34]" k "34 # 58 # 34 # v @ 34 # rest"]) (use sp(1) s1 in \<open>simp_all add: span_def\<close>)
  moreover have "tok_text js (ts3 ! Suc n) = v"
    by (rule tok_text_piece [of js "pre3 @ [34]" v "34 # rest"]) (use sp(2) s3 in \<open>simp_all add: span_def\<close>)
  ultimately have t: "tok_text js (ts3 ! n) = k" "tok_text js (ts3 ! Suc n) = v" by simp_all
  have "pos p3 = length pre + length (pair_text (k, v))" "toknext p3 = toknext p + 2" "toksuper p3 = int (toknext p)"
    "length ts3 = length ts" by (simp_all add: p3_def p2_def pair_text_def pre3_def n_def ts3_def ts1_def)
  moreover have "\<not> tok_open (ts3 ! n)" "\<not> tok_open (ts3 ! Suc n)" "j_type (ts3 ! n) = JSMN_STRING" "j_type (ts3 ! Suc n) = JSMN_STRING"
    using sp(1,2) by (simp_all add: span_def tok_open_def)
  ultimately show thesis using that [OF r] sp(3) t unfolding n_def by blast
qed

text \<open>Between the members: the object is open, everything after it is finished.\<close>

definition in_object :: "jsmn_parser \<Rightarrow> jsmntok list \<Rightarrow> bool" where
  "in_object p ts \<longleftrightarrow> 0 < toknext p \<and> span (ts ! 0) = (JSMN_OBJECT, 0, -1) \<and> (\<forall>i. 0 < i \<and> i < toknext p \<longrightarrow> \<not> tok_open (ts ! i))"

lemma tok_open_span: "span t = span t' \<Longrightarrow> tok_open t = tok_open t'"
  by (simp add: span_def tok_open_def)

lemma in_object_extend:
  assumes "in_object p ts" "\<forall>i<toknext p. span (ts' ! i) = span (ts ! i)" "toknext p' = toknext p + 2"
    "\<not> tok_open (ts' ! toknext p)" "\<not> tok_open (ts' ! Suc (toknext p))"
  shows "in_object p' ts'"
proof -
  have "\<not> tok_open (ts' ! i)" if i: "0 < i" "i < toknext p'" for i
  proof (cases "i < toknext p")
    case True
    then have "tok_open (ts' ! i) = tok_open (ts ! i)" using assms(2) by (intro tok_open_span) simp
    with True i assms(1) show ?thesis by (simp add: in_object_def)
  next
    case False
    with i assms(3) have "i = toknext p \<or> i = Suc (toknext p)" by linarith
    with assms(4,5) show ?thesis by blast
  qed
  with assms show ?thesis by (simp add: in_object_def)
qed

lemma find_down_only:
  "\<lbrakk>i < n; P (ts ! i); \<And>j. j < n \<Longrightarrow> j \<noteq> i \<Longrightarrow> \<not> P (ts ! j)\<rbrakk> \<Longrightarrow> find_down P ts n = Some i"
proof (induction n)
  case (Suc n)
  then show ?case by (cases "i = n") auto
qed simp

lemma find_down_object:
  assumes "in_object p ts"
  shows "find_down tok_open ts (toknext p) = Some 0"
    "find_down (\<lambda>t. (j_type t = JSMN_ARRAY \<or> j_type t = JSMN_OBJECT) \<and> tok_open t) ts (toknext p) = Some 0"
  using assms by (auto simp: in_object_def span_def tok_open_def intro!: find_down_only)

definition members_done :: "u8 list \<Rightarrow> jsmntok list \<Rightarrow> nat \<Rightarrow> (u8 list \<times> u8 list) list \<Rightarrow> bool" where
  "members_done js ts n qs \<longleftrightarrow> (\<forall>i<length qs. j_type (ts ! (n + 2 * i)) = JSMN_STRING \<and> tok_text js (ts ! (n + 2 * i)) = fst (qs ! i) \<and>
     j_type (ts ! Suc (n + 2 * i)) = JSMN_STRING \<and> tok_text js (ts ! Suc (n + 2 * i)) = snd (qs ! i))"

lemma tok_text_span: "span t = span t' \<Longrightarrow> tok_text js t = tok_text js t' \<and> j_type t = j_type t'"
  by (simp add: span_def tok_text_def)

lemma pair_text_len: "0 < length (pair_text q)"
  by (simp add: pair_text_def)

lemma jruns_members:
  assumes "js = pre @ body_text qs @ rest" "qs \<noteq> []" "\<forall>q\<in>set qs. plain (fst q) \<and> plain (snd q)" "len = length js"
    "pos p = length pre" "toknext p + 2 * length qs \<le> num" "num \<le> length ts" "in_object p ts"
  shows "\<exists>p' ts'. jruns js len num (count, p, Some ts) (count + 2 * int (length qs), p', Some ts') \<and> pos p' = length pre + length (body_text qs) \<and>
     toknext p' = toknext p + 2 * length qs \<and> length ts' = length ts \<and> (\<forall>i<toknext p. span (ts' ! i) = span (ts ! i)) \<and>
     in_object p' ts' \<and> members_done js ts' (toknext p) qs"
  using assms
proof (induction qs arbitrary: pre p ts count rule: body_text.induct)
  case (2 q)
  obtain k v where q: "q = (k, v)" by fastforce
  have js1: "js = pre @ pair_text (k, v) @ rest" "plain k" "plain v" "toknext p + 2 \<le> num" using "2.prems" q by simp_all
  obtain p' ts' where
    r: "jruns js len num (count, p, Some ts) (count + 2, p', Some ts')" "pos p' = length pre + length (pair_text (k, v))"
     "toknext p' = toknext p + 2" "toksuper p' = int (toknext p)" "length ts' = length ts" "\<forall>i<toknext p. span (ts' ! i) = span (ts ! i)"
     "j_type (ts' ! toknext p) = JSMN_STRING" "tok_text js (ts' ! toknext p) = k" "\<not> tok_open (ts' ! toknext p)"
     "j_type (ts' ! Suc (toknext p)) = JSMN_STRING" "tok_text js (ts' ! Suc (toknext p)) = v" "\<not> tok_open (ts' ! Suc (toknext p))"
    by (rule jruns_pair [OF js1(1-3) "2.prems"(4,5) js1(4) "2.prems"(7)])
  have "in_object p' ts'" by (rule in_object_extend [OF "2.prems"(8) r(6,3,9,12)])
  with r q show ?case by (intro exI [of _ p'] exI [of _ ts']) (simp add: members_done_def)
next
  case (3 q q2 qs)
  obtain k v where q: "q = (k, v)" by fastforce
  let ?n = "toknext p" and ?rest = "44 # body_text (q2 # qs) @ rest"
  have js1: "js = pre @ pair_text (k, v) @ ?rest" using "3.prems"(1) q by simp
  have pl: "plain k" "plain v" "toknext p + 2 \<le> num" using "3.prems" q by simp_all
  obtain p' ts' where
    r: "jruns js len num (count, p, Some ts) (count + 2, p', Some ts')" "pos p' = length pre + length (pair_text (k, v))"
     "toknext p' = ?n + 2" "toksuper p' = int ?n" "length ts' = length ts" "\<forall>i<?n. span (ts' ! i) = span (ts ! i)"
     "j_type (ts' ! ?n) = JSMN_STRING" "tok_text js (ts' ! ?n) = k" "\<not> tok_open (ts' ! ?n)"
     "j_type (ts' ! Suc ?n) = JSMN_STRING" "tok_text js (ts' ! Suc ?n) = v" "\<not> tok_open (ts' ! Suc ?n)"
    by (rule jruns_pair [OF js1 pl(1,2) "3.prems"(4,5) pl(3) "3.prems"(7)])
  have o: "in_object p' ts'" by (rule in_object_extend [OF "3.prems"(8) r(6,3,9,12)])
  let ?p2 = "p'\<lparr>toksuper := 0, pos := Suc (pos p')\<rparr>" and ?pre = "pre @ pair_text (k, v) @ [44]"
  have "rd js (pos p') = Inr 44" using rd_at [of js "pre @ pair_text (k, v)" 44 "body_text (q2 # qs) @ rest"] js1 r(2) by simp
  moreover have "jsmn_body js len num 44 (count + 2, p', Some ts') = Inr (Next (count + 2, p'\<lparr>toksuper := 0\<rparr>, Some ts'))"
    using r(4,7) find_down_object(2) [OF o] by (simp add: jsmn_body_def jsmn_comma_def)
  ultimately have r2: "jruns js len num (count + 2, p', Some ts') (count + 2, ?p2, Some ts')"
    using jruns_body [of p' len js 44 num "count + 2" "Some ts'" "count + 2" "p'\<lparr>toksuper := 0\<rparr>" "Some ts'"] js1 r(2) "3.prems"(4) by simp
  have o2: "in_object ?p2 ts'" using o by (simp add: in_object_def)
  have "\<exists>p3 ts3. jruns js len num (count + 2, ?p2, Some ts') (count + 2 + 2 * int (length (q2 # qs)), p3, Some ts3) \<and>
     pos p3 = length ?pre + length (body_text (q2 # qs)) \<and> toknext p3 = toknext ?p2 + 2 * length (q2 # qs) \<and> length ts3 = length ts' \<and>
     (\<forall>i<toknext ?p2. span (ts3 ! i) = span (ts' ! i)) \<and> in_object p3 ts3 \<and> members_done js ts3 (toknext ?p2) (q2 # qs)"
    using "3.prems" js1 r o2 by (intro "3.IH") auto
  then obtain p3 ts3 where r3: "jruns js len num (count + 2, ?p2, Some ts') (count + 2 + 2 * int (length (q2 # qs)), p3, Some ts3)"
     "pos p3 = length ?pre + length (body_text (q2 # qs))" "toknext p3 = toknext ?p2 + 2 * length (q2 # qs)" "length ts3 = length ts'"
     "\<And>i. i < ?n + 2 \<Longrightarrow> span (ts3 ! i) = span (ts' ! i)" "in_object p3 ts3" "members_done js ts3 (?n + 2) (q2 # qs)"
    using r(3) by auto
  have "members_done js ts3 ?n (q # q2 # qs)"
    unfolding members_done_def
  proof (intro allI impI)
    fix i assume i: "i < length (q # q2 # qs)"
    show "j_type (ts3 ! (?n + 2 * i)) = JSMN_STRING \<and> tok_text js (ts3 ! (?n + 2 * i)) = fst ((q # q2 # qs) ! i) \<and>
      j_type (ts3 ! Suc (?n + 2 * i)) = JSMN_STRING \<and> tok_text js (ts3 ! Suc (?n + 2 * i)) = snd ((q # q2 # qs) ! i)"
    proof (cases i)
      case 0
      with r q tok_text_span [OF r3(5) [of ?n], of js] tok_text_span [OF r3(5) [of "Suc ?n"], of js] show ?thesis by simp
    next
      case (Suc j)
      with i r3(7) [unfolded members_done_def] show ?thesis by simp
    qed
  qed
  moreover have "jruns js len num (count, p, Some ts) (count + 2 * int (length (q # q2 # qs)), p3, Some ts3)"
    using jruns_trans [OF jruns_trans [OF r(1) r2] r3(1)] by (simp add: algebra_simps)
  ultimately show ?case using r3 r q by (intro exI [of _ p3] exI [of _ ts3]) auto
qed simp

lemma jruns_open:
  assumes "js = 123 # rest" "len = length js" "0 < num" "num \<le> length ts"
  shows "\<exists>ts'. jruns js len num (0, jsmn_init, Some ts) (1, \<lparr>pos = 1, toknext = 1, toksuper = 0\<rparr>, Some ts') \<and> length ts' = length ts \<and>
    in_object \<lparr>pos = 1, toknext = 1, toksuper = 0\<rparr> ts'"
proof -
  let ?ts = "ts[0 := (ts ! 0)\<lparr>j_start := 0, j_end := -1, j_size := 0, j_type := JSMN_OBJECT\<rparr>]"
  have b: "jsmn_body js len num 123 (0, jsmn_init, Some ts) = Inr (Next (1, \<lparr>pos = 0, toknext = 1, toksuper = 0\<rparr>, Some ?ts))"
    using assms(3,4) by (cases "ts ! 0") (auto simp: jsmn_body_def jsmn_open_def jsmn_alloc_token_def jsmn_init_def Let_def bump_size_def)
  have "jruns js len num (0, jsmn_init, Some ts) (1, \<lparr>pos = 0, toknext = 1, toksuper = 0\<rparr>\<lparr>pos := Suc (pos \<lparr>pos = 0, toknext = 1, toksuper = 0\<rparr>)\<rparr>, Some ?ts)"
    by (rule jruns_body [OF _ _ _ b]) (use assms in \<open>auto simp: jsmn_init_def rd_def\<close>)
  moreover have "0 < length ts" using assms(3,4) by linarith
  then have "in_object \<lparr>pos = 1, toknext = 1, toksuper = 0\<rparr> ?ts" by (simp add: in_object_def span_def)
  ultimately show ?thesis by (intro exI [of _ ?ts]) simp
qed

lemma jruns_close:
  assumes js: "js = pre @ [125]" "len = length js" and p: "pos p = length pre" and o: "in_object p ts" "toknext p \<le> length ts"
  shows "\<exists>p' ts'. jruns js len num (count, p, Some ts) (count, p', Some ts') \<and> pos p' = len \<and> toknext p' = toknext p \<and>
    span (ts' ! 0) = (JSMN_OBJECT, 0, int len) \<and> (\<forall>i. 0 < i \<longrightarrow> ts' ! i = ts ! i) \<and> find_down tok_open ts' (toknext p') = None"
proof -
  let ?ts = "ts[0 := (ts ! 0)\<lparr>j_end := int (pos p) + 1\<rparr>]"
  have l: "0 < toknext p" "0 < length ts" "j_type (ts ! 0) = JSMN_OBJECT" "j_start (ts ! 0) = 0" using o by (auto simp: in_object_def span_def)
  have f: "find_down tok_open ts (toknext p) = Some 0" by (rule find_down_object [OF o(1)])
  have c: "\<not> tok_open (?ts ! i)" if "i < toknext p" for i using o(1) l that by (cases i) (auto simp: in_object_def tok_open_def)
  have "find_down tok_open ?ts (Suc 0) = None" using c [OF l(1)] by (simp only: find_down_None less_Suc0) blast
  then have b: "jsmn_body js len num 125 (count, p, Some ts) = Inr (Next (count, p\<lparr>toksuper := -1\<rparr>, Some ?ts))"
    using f l by (simp add: jsmn_body_def jsmn_close_def Let_def del: find_down.simps)
  have "jruns js len num (count, p, Some ts) (count, (p\<lparr>toksuper := -1\<rparr>)\<lparr>pos := Suc (pos (p\<lparr>toksuper := -1\<rparr>))\<rparr>, Some ?ts)"
    by (rule jruns_body [OF _ _ _ b]) (use assms in \<open>auto simp: rd_def\<close>)
  moreover have "find_down tok_open ?ts (toknext p) = None" using c by (simp add: find_down_None)
  moreover have "span (?ts ! 0) = (JSMN_OBJECT, 0, int len)" using l js p by (simp add: span_def)
  ultimately show ?thesis using js p
    by (intro exI [of _ "(p\<lparr>toksuper := -1\<rparr>)\<lparr>pos := Suc (pos (p\<lparr>toksuper := -1\<rparr>))\<rparr>"] exI [of _ ?ts]) simp
qed

text \<open>
  C31.  Configuration files are read back as they were written: for every object of string members
  written out as JSON, the tokenizer returns one token for the object, which spans the whole text,
  and for each member in order two string tokens that delimit exactly its name and its value.
\<close>

theorem jsmn_config_roundtrip:
  assumes qs: "qs \<noteq> []" "\<forall>q\<in>set qs. plain (fst q) \<and> plain (snd q)" and n: "2 * length qs + 1 \<le> num" "num \<le> length ts"
  shows "\<exists>p' ts'. jsmn_parse jsmn_init (config_text qs) (length (config_text qs)) (Some ts) num = Inr (2 * int (length qs) + 1, p', Some ts') \<and>
    span (ts' ! 0) = (JSMN_OBJECT, 0, int (length (config_text qs))) \<and> members_done (config_text qs) ts' 1 qs"
proof -
  define js where "js = config_text qs"
  define len where "len = length js"
  let ?p1 = "\<lparr>pos = 1, toknext = 1, toksuper = 0\<rparr>"
  obtain ts1 where 1: "jruns js len num (0, jsmn_init, Some ts) (1, ?p1, Some ts1)" "length ts1 = length ts" "in_object ?p1 ts1"
    using jruns_open [of js "body_text qs @ [125]" len num ts] n by (auto simp: js_def config_text_def len_def)
  have j1: "js = [123] @ body_text qs @ [125]" by (simp add: js_def config_text_def)
  have "pos ?p1 = length [123 :: u8]" "toknext ?p1 + 2 * length qs \<le> num" "num \<le> length ts1" using n 1(2) by simp_all
  from jruns_members [OF j1 qs len_def this 1(3), of 1] obtain p2 ts2 where
    2: "jruns js len num (1, ?p1, Some ts1) (1 + 2 * int (length qs), p2, Some ts2)" "pos p2 = length [123 :: u8] + length (body_text qs)"
      "toknext p2 = 1 + 2 * length qs" "length ts2 = length ts1" "in_object p2 ts2" "members_done js ts2 1 qs"
    by auto
  have j2: "js = (123 # body_text qs) @ [125]" by (simp add: j1)
  have "pos p2 = length (123 # body_text qs)" "toknext p2 \<le> length ts2" using 1(2) 2(2-4) n by simp_all
  from jruns_close [OF j2 len_def this(1) 2(5) this(2), of num "1 + 2 * int (length qs)"] obtain p3 ts3 where
    3: "jruns js len num (1 + 2 * int (length qs), p2, Some ts2) (1 + 2 * int (length qs), p3, Some ts3)" "pos p3 = len"
      "span (ts3 ! 0) = (JSMN_OBJECT, 0, int len)" "\<forall>i. 0 < i \<longrightarrow> ts3 ! i = ts2 ! i" "find_down tok_open ts3 (toknext p3) = None"
    by blast
  have m: "members_done js ts3 1 qs" using 2(6) 3(4) by (simp add: members_done_def)
  have "jruns js len num (0, jsmn_init, Some ts) (1 + 2 * int (length qs), p3, Some ts3)"
    by (rule jruns_trans [OF jruns_trans [OF 1(1) 2(1)] 3(1)])
  then obtain n' where n': "0 < n'" "jsmn_loop (Suc len) js len num (0, jsmn_init, Some ts) = jsmn_loop n' js len num (1 + 2 * int (length qs), p3, Some ts3)"
    unfolding jruns_def using 3(2) by (auto simp: jsmn_init_def)
  obtain n'' where n'': "n' = Suc n''" using n'(1) by (cases n') auto
  have "jsmn_loop n' js len num (1 + 2 * int (length qs), p3, Some ts3) = Inr (1 + 2 * int (length qs), p3, Some ts3)"
    using 3(2,5) by (simp add: n'' jsmn_finish_def)
  with n' have "jsmn_parse jsmn_init js len (Some ts) num = Inr (2 * int (length qs) + 1, p3, Some ts3)"
    by (simp add: jsmn_parse_def jsmn_init_def add.commute del: jsmn_loop.simps)
  with 3(3) m show ?thesis unfolding js_def len_def by blast
qed

theorem jsmn_config_roundtrip_witness:
  "\<exists>p' ts'. jsmn_parse jsmn_init (config_text [([102, 115], [47])]) (length (config_text [([102, 115], [47])]))
      (Some (replicate 3 \<lparr>j_type = JSMN_UNDEFINED, j_start = 0, j_end = 0, j_size = 0\<rparr>)) 3 = Inr (3, p', Some ts') \<and>
    tok_text (config_text [([102, 115], [47])]) (ts' ! Suc 1) = [47]"
  using jsmn_config_roundtrip [of "[([102, 115], [47])]" 3 "replicate 3 \<lparr>j_type = JSMN_UNDEFINED, j_start = 0, j_end = 0, j_size = 0\<rparr>"]
  by (auto simp: plain_def members_done_def)

end
