(* ===== verification/Printf.thy ===== *)
theory Printf
  imports CString Carray
begin

text \<open>
  The user library's string and number routines (ulib.c, printf.c) and the kernel's printing
  routines (console.c: printint, cprintf).  Output is the list of bytes handed to putc or
  consputc.  Loops over strings in memory that need not end are partial functions, whose
  value None is a loop that does not end.
\<close>

section \<open>ulib.c\<close>

partial_function (option) strcpy :: "mem \<Rightarrow> u32 \<Rightarrow> u32 \<Rightarrow> mem option" where
  "strcpy m s t = (let c = m t; m' = m(s := c) in if c \<noteq> 0 then strcpy m' (s + 1) (t + 1) else Some m')"

partial_function (option) strcmp :: "mem \<Rightarrow> u32 \<Rightarrow> u32 \<Rightarrow> int option" where
  "strcmp m p q = (if m p \<noteq> 0 \<and> m p = m q then strcmp m (p + 1) (q + 1) else Some (uint (m p) - uint (m q)))"

partial_function (option) strchr :: "mem \<Rightarrow> u32 \<Rightarrow> u8 \<Rightarrow> u32 option option" where
  "strchr m s c = (if m s = 0 then Some None else if m s = c then Some (Some s) else strchr m (s + 1) c)"

definition is_digit :: "u8 \<Rightarrow> bool" where
  "is_digit c \<longleftrightarrow> 48 \<le> c \<and> c \<le> 57"

partial_function (option) atoi_loop :: "mem \<Rightarrow> u32 \<Rightarrow> u32 \<Rightarrow> u32 option" where
  "atoi_loop m s n = (if is_digit (m s) then atoi_loop m (s + 1) (n * 10 + ucast (m s) - 48) else Some n)"

definition atoi :: "mem \<Rightarrow> u32 \<Rightarrow> u32 option" where
  "atoi m s = atoi_loop m s 0"

definition umemset :: "mem \<Rightarrow> u32 \<Rightarrow> u32 \<Rightarrow> u32 \<Rightarrow> mem" where
  "umemset m dst c n = stosb m dst (ucast c) (unat n)"

definition umemmove :: "mem \<Rightarrow> u32 \<Rightarrow> u32 \<Rightarrow> int \<Rightarrow> mem" where
  "umemmove m vdst vsrc n = copy_up m vdst vsrc (nat n)"

text \<open>gets: the bytes read one at a time from the input, until a line end, the end of input or max.\<close>

fun gets_loop :: "int \<Rightarrow> u8 list \<Rightarrow> u8 list \<Rightarrow> u8 list \<times> u8 list" where
  "gets_loop maxn acc [] = (acc, [])"
| "gets_loop maxn acc (c # cs) =
     (if \<not> int (length acc) + 1 < maxn then (acc, c # cs)
      else if c = 10 \<or> c = 13 then (acc @ [c], cs)
      else gets_loop maxn (acc @ [c]) cs)"

definition gets :: "int \<Rightarrow> u8 list \<Rightarrow> u8 list \<times> u8 list" where
  "gets maxn input = (case gets_loop maxn [] input of (line, rest) \<Rightarrow> (line @ [0], rest))"

section \<open>Printing numbers\<close>

definition digits_upper :: "u8 list" where "digits_upper = bytes_of ''0123456789ABCDEF''"
definition digits_lower :: "u8 list" where "digits_lower = bytes_of ''0123456789abcdef''"

text \<open>The do loop that fills buf from its first entry; the first argument is the room left in buf.\<close>

fun printint_loop :: "u8 list \<Rightarrow> nat \<Rightarrow> u32 \<Rightarrow> u32 \<Rightarrow> u8 list res" where
  "printint_loop digits 0 base x = Inl (Undefined ''buf'')"
| "printint_loop digits (Suc room) base x =
     (if base = 0 then Inl (Undefined ''division'')
      else if \<not> unat (x mod base) < length digits then Inl (Undefined ''digits'')
      else let d = digits ! unat (x mod base); x' = x div base in
           if x' \<noteq> 0 then bindr (printint_loop digits room base x') (\<lambda>ds. Inr (d # ds)) else Inr [d])"

definition printint_buf :: "u8 list \<Rightarrow> u32 \<Rightarrow> u32 \<Rightarrow> bool \<Rightarrow> u8 list res" where
  "printint_buf digits xx base sg =
     (let neg = sg \<and> xx <s 0; x = (if neg then - xx else xx) in
      bindr (printint_loop digits 16 base x) (\<lambda>ds.
        if \<not> neg then Inr ds
        else if length ds < 16 then Inr (ds @ [45]) else Inl (Undefined ''buf'')))"

definition printint :: "u32 \<Rightarrow> u32 \<Rightarrow> bool \<Rightarrow> u8 list res" where
  "printint xx base sg = bindr (printint_buf digits_upper xx base sg) (\<lambda>buf. Inr (rev buf))"

definition cons_printint :: "u32 \<Rightarrow> u32 \<Rightarrow> bool \<Rightarrow> u8 list res" where
  "cons_printint xx base sign = bindr (printint_buf digits_lower xx base sign) (\<lambda>buf. Inr (rev buf))"

section \<open>Formats\<close>

partial_function (option) str_from :: "mem \<Rightarrow> u32 \<Rightarrow> u8 list option" where
  "str_from m s = (if m s = 0 then Some [] else Option.bind (str_from m (s + 1)) (\<lambda>r. Some (m s # r)))"

definition puts_arg :: "mem \<Rightarrow> u32 \<Rightarrow> u8 list res" where
  "puts_arg m s = (if s = 0 then Inr (bytes_of ''(null)'') else case str_from m s of None \<Rightarrow> Inl Blocked | Some r \<Rightarrow> Inr r)"

definition next_arg :: "u32 list \<Rightarrow> (u32 \<times> u32 list) res" where
  "next_arg ap = (case ap of [] \<Rightarrow> Inl (Undefined ''argument'') | a # r \<Rightarrow> Inr (a, r))"

text \<open>The body of printf for a byte after a percent sign: what it prints and the arguments left.\<close>

definition printf_conv :: "mem \<Rightarrow> u8 \<Rightarrow> u32 list \<Rightarrow> (u8 list \<times> u32 list) res" where
  "printf_conv m c ap =
     (if c = 100 then bindr (next_arg ap) (\<lambda>(a, r). bindr (printint a 10 True) (\<lambda>out. Inr (out, r)))
      else if c = 120 \<or> c = 112 then bindr (next_arg ap) (\<lambda>(a, r). bindr (printint a 16 False) (\<lambda>out. Inr (out, r)))
      else if c = 115 then bindr (next_arg ap) (\<lambda>(a, r). bindr (puts_arg m a) (\<lambda>out. Inr (out, r)))
      else if c = 99 then bindr (next_arg ap) (\<lambda>(a, r). Inr ([ucast a], r))
      else if c = 37 then Inr ([c], ap)
      else Inr ([37, c], ap))"

fun printf_loop :: "mem \<Rightarrow> bool \<Rightarrow> u8 list \<Rightarrow> u32 list \<Rightarrow> u8 list res" where
  "printf_loop m state [] ap = Inr []"
| "printf_loop m state (c # fmt) ap =
     (if \<not> state
      then if c = 37 then printf_loop m True fmt ap
           else bindr (printf_loop m False fmt ap) (\<lambda>out. Inr (c # out))
      else bindr (printf_conv m c ap) (\<lambda>(o1, r). bindr (printf_loop m False fmt r) (\<lambda>out. Inr (o1 @ out))))"

definition printf :: "mem \<Rightarrow> u8 list \<Rightarrow> u32 list \<Rightarrow> u8 list res" where
  "printf m fmt ap = printf_loop m False fmt ap"

text \<open>cprintf differs in %c, which it does not know, and in a percent sign at the end.\<close>

definition cprintf_conv :: "mem \<Rightarrow> u8 \<Rightarrow> u32 list \<Rightarrow> (u8 list \<times> u32 list) res" where
  "cprintf_conv m c ap =
     (if c = 100 then bindr (next_arg ap) (\<lambda>(a, r). bindr (cons_printint a 10 True) (\<lambda>out. Inr (out, r)))
      else if c = 120 \<or> c = 112 then bindr (next_arg ap) (\<lambda>(a, r). bindr (cons_printint a 16 False) (\<lambda>out. Inr (out, r)))
      else if c = 115 then bindr (next_arg ap) (\<lambda>(a, r). bindr (puts_arg m a) (\<lambda>out. Inr (out, r)))
      else if c = 37 then Inr ([37], ap)
      else Inr ([37, c], ap))"

fun cprintf :: "mem \<Rightarrow> u8 list \<Rightarrow> u32 list \<Rightarrow> u8 list res" where
  "cprintf m [] argp = Inr []"
| "cprintf m [c] argp = (if c \<noteq> 37 then Inr [c] else Inr [])"
| "cprintf m (c # d # fmt) argp =
     (if c \<noteq> 37 then bindr (cprintf m (d # fmt) argp) (\<lambda>out. Inr (c # out))
      else bindr (cprintf_conv m d argp) (\<lambda>(o1, r). bindr (cprintf m fmt r) (\<lambda>out. Inr (o1 @ out))))"

section \<open>The digits of a number\<close>

fun digits_val :: "nat \<Rightarrow> nat list \<Rightarrow> nat" where
  "digits_val b [] = 0"
| "digits_val b (d # ds) = d + b * digits_val b ds"

lemma printint_loop_ok:
  assumes "unat x < b ^ room" "1 < b" "b \<le> length digits" "b < 2 ^ 32" "0 < room"
  shows "\<exists>ks. printint_loop digits room (of_nat b) x = Inr (map ((!) digits) ks) \<and> 1 \<le> length ks \<and> length ks \<le> room \<and>
    set ks \<subseteq> {..<b} \<and> digits_val b ks = unat x"
  using assms(1,5)
proof (induction room arbitrary: x)
  case 0
  then show ?case by simp
next
  case (Suc room)
  have ub: "unat (of_nat b :: u32) = b" using assms(4) by simp
  then have b0: "(of_nat b :: u32) \<noteq> 0" using assms(2) by (metis not_one_less_zero unat_0)
  have md: "unat (x mod of_nat b) = unat x mod b" "unat (x div of_nat b) = unat x div b"
    using ub by (simp_all add: unat_mod unat_div)
  have lt: "unat x mod b < b" using assms(2) by simp
  show ?case
  proof (cases "x div of_nat b = 0")
    case True
    then have "unat x div b = 0" using md(2) by (metis unat_0)
    then have "unat x < b" using assms(2) by (simp add: div_eq_0_iff)
    then show ?thesis using b0 md lt assms(3) True
      by (intro exI [of _ "[unat x]"]) (simp add: Let_def)
  next
    case False
    have "unat (x div of_nat b) < b ^ room"
      using Suc.prems assms(2) md(2) by (simp add: less_mult_imp_div_less mult.commute)
    moreover have "0 < room"
    proof (rule ccontr)
      assume "\<not> 0 < room"
      with calculation have "unat (x div of_nat b) = 0" by simp
      with False show False by (simp add: unat_eq_zero)
    qed
    ultimately obtain ks where k: "printint_loop digits room (of_nat b) (x div of_nat b) = Inr (map ((!) digits) ks)"
      "1 \<le> length ks" "length ks \<le> room" "set ks \<subseteq> {..<b}" "digits_val b ks = unat (x div of_nat b)" using Suc.IH by blast
    then show ?thesis using b0 md lt assms(3) False
      by (intro exI [of _ "(unat x mod b) # ks"]) (simp add: Let_def)
  qed
qed

text \<open>
  Printing a number never leaves the buffer: printint in base 10, signed or not, and in base 16
  returns for every value, with at most 11 bytes in the buffer of 16, both in the user library
  and in the kernel.
\<close>

theorem printint_fits:
  assumes "base = 10 \<or> base = 16"
  shows "(\<exists>out. printint xx base sg = Inr out \<and> 1 \<le> length out \<and> length out \<le> 11) \<and>
         (\<exists>out. cons_printint xx base sg = Inr out \<and> 1 \<le> length out \<and> length out \<le> 11)"
proof -
  have "\<exists>ds. printint_buf digits xx base sg = Inr ds \<and> 1 \<le> length ds \<and> length ds \<le> 11" if d: "16 \<le> length digits" for digits
  proof -
    define b :: nat where "b = unat base"
    have b: "b = 10 \<or> b = 16" "base = of_nat b" using assms by (auto simp: b_def)
    have fin: "\<exists>ks. printint_loop digits 16 base x = Inr (map ((!) digits) ks) \<and> 1 \<le> length ks \<and> length ks \<le> 10" for x
    proof -
      have "4294967296 \<le> b ^ 10" using b(1) by auto
      with unat_lt_u32 [of x] have x: "unat x < b ^ 10" by (rule less_le_trans)
      from printint_loop_ok [of x b 10 digits] x b d obtain ks where
        k: "printint_loop digits 10 base x = Inr (map ((!) digits) ks)" "1 \<le> length ks" "length ks \<le> 10" by auto
      have more: "printint_loop digits (n + m) base' x' = Inr r" if "printint_loop digits n base' x' = Inr r" for n m base' x' r
        using that by (induction n arbitrary: x' r) (auto simp: Let_def bindr_eq_Inr split: if_splits)
      show ?thesis using more [OF k(1), of 6] k by auto
    qed
    show ?thesis using fin [of xx] fin [of "- xx"] by (fastforce simp: printint_buf_def Let_def)
  qed
  from this [of digits_upper] this [of digits_lower] show ?thesis
    by (auto simp: printint_def cons_printint_def digits_upper_def digits_lower_def bytes_of_def)
qed

theorem printint_fits_witness: "\<exists>out. printint (-2147483648) 10 True = Inr out \<and> length out \<le> 11"
  using printint_fits [of 10 "-2147483648" True] by auto

section \<open>Reading numbers back\<close>

lemma atoi_loop_string:
  "\<lbrakk>cstr_at m s xs; \<forall>c\<in>set xs. is_digit c\<rbrakk> \<Longrightarrow> atoi_loop m s n = Some (fold (\<lambda>c n. n * 10 + ucast c - 48) xs n)"
proof (induction xs arbitrary: s n)
  case Nil
  then show ?case by (subst atoi_loop.simps) (simp add: is_digit_def)
next
  case (Cons c xs)
  then show ?case by (subst atoi_loop.simps) simp
qed

lemma digit_byte: "k < 10 \<Longrightarrow> is_digit (digits_upper ! k) \<and> (ucast (digits_upper ! k) :: u32) = of_nat k + 48"
proof -
  have "list_all (\<lambda>k. is_digit (digits_upper ! k) \<and> (ucast (digits_upper ! k) :: u32) = of_nat k + 48) [0..<10]" by code_simp
  then show "k < 10 \<Longrightarrow> ?thesis" by (simp add: list_all_iff)
qed

lemma fold_digits:
  "set ks \<subseteq> {..<10} \<Longrightarrow>
     fold (\<lambda>c n. n * 10 + ucast c - 48) (rev (map ((!) digits_upper) ks)) (0 :: u32) = of_nat (digits_val 10 ks)"
proof (induction ks)
  case (Cons k ks)
  then have "(ucast (digits_upper ! k) :: u32) = of_nat k + 48" using digit_byte by simp
  with Cons show ?case by (simp add: algebra_simps)
qed simp

text \<open>
  Numbers are read back as they were printed: the string printint writes in base 10, for an
  unsigned value or a signed one that is not negative, is read by atoi as that value.
\<close>

theorem atoi_printint:
  assumes p: "printint xx 10 sg = Inr out" and sg: "\<not> (sg \<and> xx <s 0)" and m: "cstr_at m s out"
  shows "atoi m s = Some xx"
proof -
  have "unat xx < 10 ^ 16" using unat_lt_u32 [of xx] by (simp del: unat_lt_u32)
  then obtain ks where k: "printint_loop digits_upper 16 10 xx = Inr (map ((!) digits_upper) ks)" "set ks \<subseteq> {..<10}" "digits_val 10 ks = unat xx"
    using printint_loop_ok [of xx 10 16 digits_upper] by (auto simp: digits_upper_def bytes_of_def)
  then have out: "out = rev (map ((!) digits_upper) ks)" using p sg by (auto simp: printint_def printint_buf_def Let_def)
  have "\<forall>c\<in>set out. is_digit c" using out k(2) digit_byte by auto
  then show ?thesis using atoi_loop_string [OF m, of 0] fold_digits [OF k(2)] k(3) out by (simp add: atoi_def)
qed

definition num_mem :: "u8 list \<Rightarrow> mem" where
  "num_mem xs a = (if unat a < length xs then xs ! unat a else 0)"

theorem atoi_printint_witness: "printint 407 10 True = Inr [52, 48, 55] \<and> atoi (num_mem [52, 48, 55]) 0 = Some 407"
proof -
  have "printint 407 10 True = Inr [52, 48, 55]" by code_simp
  moreover from this have "atoi (num_mem [52, 48, 55]) 0 = Some 407"
    by (rule atoi_printint) (simp_all add: num_mem_def word_sless_alt)
  ultimately show ?thesis by simp
qed

section \<open>Comparing strings\<close>

lemma strcmp_strings:
  "\<lbrakk>cstr_at m p xs; cstr_at m q ys\<rbrakk> \<Longrightarrow> \<exists>r. strcmp m p q = Some r \<and> (r = 0 \<longleftrightarrow> xs = ys)"
proof (induction xs arbitrary: p q ys)
  case Nil
  then show ?case by (subst strcmp.simps) (cases ys; auto simp: uint_0_iff)
next
  case (Cons x xs)
  show ?case
  proof (cases ys)
    case Nil
    with Cons.prems show ?thesis by (subst strcmp.simps) (auto simp: uint_0_iff)
  next
    case (Cons y ys')
    with Cons.prems Cons.IH [of "p + 1" "q + 1" ys'] show ?thesis by (subst strcmp.simps) (auto simp: word_uint_eq_iff)
  qed
qed

end
