(* ===== verification/Grep.thy ===== *)
theory Grep
  imports Prelude
begin

text \<open>
  The user program grep: the matcher (match, matchhere, matchstar) and the loop that cuts the
  input into lines.  Strings are byte lists without the closing NUL.
\<close>

section \<open>The matcher\<close>

text \<open>The bytes 94, 36, 42 and 46 are the characters ^ $ * and dot.\<close>

function matchhere :: "u8 list \<Rightarrow> u8 list \<Rightarrow> bool" and matchstar :: "u8 \<Rightarrow> u8 list \<Rightarrow> u8 list \<Rightarrow> bool" where
  "matchhere re tx =
     (case re of
        [] \<Rightarrow> True
      | r # re1 \<Rightarrow>
          if re1 \<noteq> [] \<and> hd re1 = 42 then matchstar r (tl re1) tx
          else if r = 36 \<and> re1 = [] then tx = []
          else (case tx of [] \<Rightarrow> False | t # ts \<Rightarrow> (r = 46 \<or> r = t) \<and> matchhere re1 ts))"
| "matchstar c re tx =
     (if matchhere re tx then True
      else (case tx of [] \<Rightarrow> False | t # ts \<Rightarrow> (t = c \<or> c = 46) \<and> matchstar c re ts))"
  by pat_completeness auto
termination
  by (relation "measure (\<lambda>x. case x of Inl (re, tx) \<Rightarrow> 2 * (length re + length tx)
        | Inr (c, re, tx) \<Rightarrow> 2 * (length re + length tx) + 1)") auto

declare matchhere.simps [simp del] matchstar.simps [simp del]

text \<open>The do loop of match: the pattern is tried at every position, the end of the text included.\<close>

fun match_from :: "u8 list \<Rightarrow> u8 list \<Rightarrow> bool" where
  "match_from re tx = (if matchhere re tx then True else (case tx of [] \<Rightarrow> False | t # ts \<Rightarrow> match_from re ts))"

declare match_from.simps [simp del]

definition match :: "u8 list \<Rightarrow> u8 list \<Rightarrow> bool" where
  "match re tx = (if re \<noteq> [] \<and> hd re = 94 then matchhere (tl re) tx else match_from re tx)"

section \<open>What patterns mean\<close>

datatype item = One u8 | Many u8

text \<open>A pattern is a sequence of items, and whether it must reach the end of the text.\<close>

fun parse :: "u8 list \<Rightarrow> item list \<times> bool" where
  "parse [] = ([], False)"
| "parse [r] = (if r = 36 then ([], True) else ([One r], False))"
| "parse (r # s # re) = (if s = 42 then (case parse re of (is, e) \<Rightarrow> (Many r # is, e))
                         else (case parse (s # re) of (is, e) \<Rightarrow> (One r # is, e)))"

definition okc :: "u8 \<Rightarrow> u8 \<Rightarrow> bool" where
  "okc r c \<longleftrightarrow> r = 46 \<or> r = c"

fun lang :: "item list \<Rightarrow> u8 list set" where
  "lang [] = {[]}"
| "lang (One r # is) = {c # w | c w. okc r c \<and> w \<in> lang is}"
| "lang (Many r # is) = {us @ w | us w. (\<forall>c\<in>set us. okc r c) \<and> w \<in> lang is}"

text \<open>A prefix of the text that the pattern allows.\<close>

definition prefix_of :: "u8 list \<Rightarrow> u8 list \<Rightarrow> bool" where
  "prefix_of re tx \<longleftrightarrow> (case parse re of (is, e) \<Rightarrow> \<exists>w post. tx = w @ post \<and> w \<in> lang is \<and> (e \<longrightarrow> post = []))"

lemma prefix_of_Nil: "prefix_of [] tx"
  by (simp add: prefix_of_def)

lemma prefix_of_end: "prefix_of [36] tx \<longleftrightarrow> tx = []"
  by (simp add: prefix_of_def)

lemma prefix_of_one:
  assumes "re = [] \<or> hd re \<noteq> 42" "\<not> (r = 36 \<and> re = [])"
  shows "prefix_of (r # re) tx \<longleftrightarrow> (\<exists>t ts. tx = t # ts \<and> okc r t \<and> prefix_of re ts)"
proof -
  obtain "is" e where p: "parse re = (is, e)" by fastforce
  then have q: "parse (r # re) = (One r # is, e)" using assms by (cases re) auto
  show ?thesis
  proof
    assume "prefix_of (r # re) tx"
    then obtain w0 post where w0: "tx = w0 @ post" "w0 \<in> lang (One r # is)" "e \<longrightarrow> post = []" unfolding prefix_of_def q by auto
    then obtain c w where "w0 = c # w" "okc r c" "w \<in> lang is" by auto
    with w0 have "tx = (c # w) @ post" "okc r c" "w \<in> lang is" "e \<longrightarrow> post = []" by simp_all
    then show "\<exists>t ts. tx = t # ts \<and> okc r t \<and> prefix_of re ts" by (auto simp: prefix_of_def p)
  next
    assume "\<exists>t ts. tx = t # ts \<and> okc r t \<and> prefix_of re ts"
    then obtain t w post where "tx = t # w @ post" "okc r t" "w \<in> lang is" "e \<longrightarrow> post = []" by (auto simp: prefix_of_def p)
    then show "prefix_of (r # re) tx" unfolding prefix_of_def q prod.case
      by (intro exI [of _ "t # w"] exI [of _ post]) simp
  qed
qed

definition star_of :: "u8 \<Rightarrow> u8 list \<Rightarrow> u8 list \<Rightarrow> bool" where
  "star_of c re tx \<longleftrightarrow> (\<exists>us rest. tx = us @ rest \<and> (\<forall>u\<in>set us. okc c u) \<and> prefix_of re rest)"

lemma prefix_of_star: "prefix_of (r # 42 # re) tx \<longleftrightarrow> star_of r re tx"
proof -
  obtain "is" e where p: "parse re = (is, e)" by fastforce
  show ?thesis
  proof
    assume "prefix_of (r # 42 # re) tx"
    then obtain w0 post where w0: "tx = w0 @ post" "w0 \<in> lang (Many r # is)" "e \<longrightarrow> post = []" unfolding prefix_of_def by (auto simp: p)
    then obtain us w where "w0 = us @ w" "\<forall>c\<in>set us. okc r c" "w \<in> lang is" by auto
    with w0 have "tx = us @ w @ post" "\<forall>c\<in>set us. okc r c" "w \<in> lang is" "e \<longrightarrow> post = []" by simp_all
    then show "star_of r re tx" by (auto simp: star_of_def prefix_of_def p)
  next
    assume "star_of r re tx"
    then obtain us w post where "tx = us @ w @ post" "\<forall>c\<in>set us. okc r c" "w \<in> lang is" "e \<longrightarrow> post = []"
      by (auto simp: star_of_def prefix_of_def p)
    then show "prefix_of (r # 42 # re) tx" unfolding prefix_of_def
      by (simp add: p) (metis append.assoc)
  qed
qed

lemma star_of_step: "star_of c re tx \<longleftrightarrow> prefix_of re tx \<or> (\<exists>t ts. tx = t # ts \<and> okc c t \<and> star_of c re ts)"
proof
  assume "star_of c re tx"
  then obtain us rest where u: "tx = us @ rest" "\<forall>u\<in>set us. okc c u" "prefix_of re rest" by (auto simp: star_of_def)
  then show "prefix_of re tx \<or> (\<exists>t ts. tx = t # ts \<and> okc c t \<and> star_of c re ts)"
    by (cases us) (auto simp: star_of_def)
next
  assume "prefix_of re tx \<or> (\<exists>t ts. tx = t # ts \<and> okc c t \<and> star_of c re ts)"
  then show "star_of c re tx"
  proof
    assume "prefix_of re tx"
    then show ?thesis by (auto simp: star_of_def intro: exI [of _ "[]"])
  next
    assume "\<exists>t ts. tx = t # ts \<and> okc c t \<and> star_of c re ts"
    then obtain t us rest where "tx = (t # us) @ rest" "\<forall>u\<in>set (t # us). okc c u" "prefix_of re rest"
      by (auto simp: star_of_def)
    then show ?thesis unfolding star_of_def by blast
  qed
qed

lemma match_semantics:
  "matchhere re tx = prefix_of re tx" "matchstar c re tx = star_of c re tx"
proof (induction re tx and c re tx rule: matchhere_matchstar.induct)
  case (1 re tx)
  show ?case
  proof (cases re)
    case Nil
    then show ?thesis by (simp add: matchhere.simps prefix_of_Nil)
  next
    case (Cons r re1)
    show ?thesis
    proof (cases "re1 \<noteq> [] \<and> hd re1 = 42")
      case True
      then obtain re2 where "re1 = 42 # re2" by (cases re1) auto
      with "1.IH"(1) [OF Cons True] Cons show ?thesis by (simp add: matchhere.simps prefix_of_star)
    next
      case no: False
      show ?thesis
      proof (cases "r = 36 \<and> re1 = []")
        case True
        with Cons show ?thesis by (simp add: matchhere.simps prefix_of_end)
      next
        case False
        have "prefix_of re tx \<longleftrightarrow> (\<exists>t ts. tx = t # ts \<and> okc r t \<and> prefix_of re1 ts)"
          using prefix_of_one [of re1 r tx] no False Cons by blast
        then show ?thesis using "1.IH"(2) [OF Cons no False] Cons no False
          by (subst matchhere.simps) (cases tx; auto simp: okc_def)
      qed
    qed
  qed
next
  case (2 c re tx)
  show ?case
  proof (cases "matchhere re tx")
    case True
    with "2.IH"(1) star_of_step [of c re tx] show ?thesis by (subst matchstar.simps) simp
  next
    case False
    with "2.IH"(1) "2.IH"(2) [OF False] star_of_step [of c re tx] show ?thesis
      by (subst matchstar.simps) (cases tx; auto simp: okc_def)
  qed
qed

lemma match_from_semantics: "match_from re tx \<longleftrightarrow> (\<exists>front rest. tx = front @ rest \<and> prefix_of re rest)"
proof (induction tx)
  case Nil
  then show ?case by (subst match_from.simps) (simp add: match_semantics)
next
  case (Cons t ts)
  have "(\<exists>front rest. t # ts = front @ rest \<and> prefix_of re rest) \<longleftrightarrow>
      prefix_of re (t # ts) \<or> (\<exists>front rest. ts = front @ rest \<and> prefix_of re rest)"
    by (metis append_Cons append_Nil append_eq_Cons_conv)
  then show ?case using Cons by (subst match_from.simps) (simp add: match_semantics)
qed

text \<open>
  C32.  The matcher implements the pattern language: match accepts a text exactly when some piece of
  it is in the language of the pattern (literal bytes, dot for any byte, star for any repetition
  of the byte before it), where a leading ^ requires the piece to start the text and a closing
  $ requires it to end the text.
\<close>

theorem match_correct:
  "match re tx \<longleftrightarrow>
     (let anchored = (re \<noteq> [] \<and> hd re = 94); (is, to_end) = parse (if anchored then tl re else re) in
      \<exists>front w post. tx = front @ w @ post \<and> w \<in> lang is \<and> (anchored \<longrightarrow> front = []) \<and> (to_end \<longrightarrow> post = []))"
proof -
  obtain "is" e where p: "parse (if re \<noteq> [] \<and> hd re = 94 then tl re else re) = (is, e)" by fastforce
  show ?thesis
  proof (cases "re \<noteq> [] \<and> hd re = 94")
    case True
    with p show ?thesis by (auto simp: match_def match_semantics prefix_of_def)
  next
    case False
    then have pr: "parse re = (is, e)" and m: "match re tx \<longleftrightarrow> (\<exists>front rest. tx = front @ rest \<and> prefix_of re rest)"
      using p by (simp_all only: match_def match_from_semantics if_False)
    have "match re tx \<longleftrightarrow> (\<exists>front w post. tx = front @ w @ post \<and> w \<in> lang is \<and> (e \<longrightarrow> post = []))"
      unfolding m prefix_of_def pr by auto
    with False pr show ?thesis unfolding Let_def by (simp only: if_False prod.case simp_thms)
  qed
qed

theorem match_correct_witness: "match [97, 42, 98] [99, 97, 97, 98]"
proof -
  have "\<exists>front w post. [99, 97, 97, 98 :: u8] = front @ w @ post \<and> w \<in> lang [Many 97, One 98]"
  proof (intro exI conjI)
    show "[99, 97, 97, 98 :: u8] = [99] @ ([97, 97] @ [98]) @ []" by simp
    show "[97, 97] @ [98] \<in> lang [Many 97, One 98]" by (simp add: okc_def)
  qed
  then show ?thesis by (subst match_correct) simp
qed

section \<open>Lines\<close>

text \<open>strchr finds the next line end, if no NUL comes before it.\<close>

fun next_line :: "u8 list \<Rightarrow> (u8 list \<times> u8 list) option" where
  "next_line [] = None"
| "next_line (c # cs) =
     (if c = 0 then None
      else if c = 10 then Some ([], cs)
      else case next_line cs of None \<Rightarrow> None | Some (l, r) \<Rightarrow> Some (c # l, r))"

lemma next_line_shorter: "next_line xs = Some (l, r) \<Longrightarrow> length r < length xs"
  by (induction xs arbitrary: l) (auto split: if_splits option.splits)

function grep_lines :: "u8 list \<Rightarrow> u8 list \<Rightarrow> u8 list \<times> u8 list" where
  "grep_lines re buf =
     (case next_line buf of
        None \<Rightarrow> ([], buf)
      | Some (l, r) \<Rightarrow> (case grep_lines re r of (out, rest) \<Rightarrow> ((if match re l then l @ [10] else []) @ out, rest)))"
  by auto
termination by (relation "measure (\<lambda>(re, buf). length buf)") (auto dest: next_line_shorter)

declare grep_lines.simps [simp del]

text \<open>
  The read loop.  The list ns is what the successive calls of read would give if there were room:
  read returns at most that, at most the room left in buf and at most the input left.  A
  buffer in which no line end was found is dropped (m = 0).
\<close>

primrec grep :: "u8 list \<Rightarrow> nat list \<Rightarrow> u8 list \<Rightarrow> u8 list \<Rightarrow> u8 list" where
  "grep re [] m input = []"
| "grep re (n # ns) m input =
     (let k = min n (min (1024 - length m - 1) (length input)) in
      if k = 0 then []
      else let buf = m @ take k input in
           case grep_lines re buf of
             (out, rest) \<Rightarrow> out @ grep re ns (if length rest = length buf then [] else rest) (drop k input))"

section \<open>What grep prints\<close>

definition pick :: "u8 list \<Rightarrow> u8 list \<Rightarrow> u8 list" where
  "pick re l = (if match re l then l @ [10] else [])"

lemma next_line_line: "\<forall>c\<in>set l. c \<noteq> 0 \<and> c \<noteq> 10 \<Longrightarrow> next_line (l @ 10 # r) = Some (l, r)"
  by (induction l) auto

lemma next_line_none: "\<forall>c\<in>set l. c \<noteq> 10 \<Longrightarrow> next_line l = None"
  by (induction l) auto

lemma grep_lines_whole:
  assumes "\<forall>l\<in>set ls. \<forall>c\<in>set l. c \<noteq> 0 \<and> c \<noteq> 10" "\<forall>c\<in>set r. c \<noteq> 0 \<and> c \<noteq> 10"
  shows "grep_lines re (concat (map (\<lambda>l. l @ [10]) ls) @ r) = (concat (map (pick re) ls), r)"
  using assms(1)
proof (induction ls)
  case Nil
  have "next_line r = None" using assms(2) by (intro next_line_none) auto
  then show ?case by (subst grep_lines.simps) simp
next
  case (Cons l ls)
  have "next_line (l @ 10 # (concat (map (\<lambda>l. l @ [10]) ls) @ r)) = Some (l, concat (map (\<lambda>l. l @ [10]) ls) @ r)"
    using Cons.prems by (intro next_line_line) auto
  then show ?case using Cons by (subst grep_lines.simps) (simp add: pick_def [of re l])
qed

definition text_of :: "u8 list list \<Rightarrow> u8 list" where
  "text_of ls = concat (map (\<lambda>l. l @ [10]) ls)"

lemma text_split:
  assumes "xs @ ys = text_of ls" "\<forall>l\<in>set ls. \<forall>c\<in>set l. c \<noteq> 0 \<and> c \<noteq> 10"
  shows "\<exists>ls1 ls2 r. ls = ls1 @ ls2 \<and> xs = text_of ls1 @ r \<and> r @ ys = text_of ls2 \<and> (\<forall>c\<in>set r. c \<noteq> 0 \<and> c \<noteq> 10)"
  using assms
proof (induction ls arbitrary: xs)
  case Nil
  then show ?case by (simp add: text_of_def)
next
  case (Cons l ls)
  show ?case
  proof (cases "length xs \<le> length l")
    case True
    have "xs = take (length xs) (xs @ ys)" by simp
    also have "\<dots> = take (length xs) (l @ 10 # text_of ls)" unfolding Cons.prems(1) by (simp add: text_of_def)
    also have "\<dots> = take (length xs) l" using True by simp
    finally have "\<forall>c\<in>set xs. c \<noteq> 0 \<and> c \<noteq> 10" using Cons.prems(2) set_take_subset [of "length xs" l] by fastforce
    with Cons.prems(1) show ?thesis by (intro exI [of _ "[]"] exI [of _ "l # ls"] exI [of _ xs]) (simp add: text_of_def)
  next
    case False
    let ?xs = "drop (Suc (length l)) xs"
    have "take (Suc (length l)) xs = take (Suc (length l)) (xs @ ys)" using False by simp
    also have "\<dots> = l @ [10]" unfolding Cons.prems(1) by (simp add: text_of_def)
    finally have x: "xs = (l @ [10]) @ ?xs" by (metis append_take_drop_id)
    with Cons.prems(1) have "?xs @ ys = text_of ls" by (simp add: text_of_def) (metis append.assoc append_Cons append_Nil same_append_eq)
    from Cons.IH [OF this] Cons.prems(2) obtain ls1 ls2 r where "ls = ls1 @ ls2" "?xs = text_of ls1 @ r" "r @ ys = text_of ls2"
      "\<forall>c\<in>set r. c \<noteq> 0 \<and> c \<noteq> 10" by auto
    with x show ?thesis by (intro exI [of _ "l # ls1"] exI [of _ ls2] exI [of _ r]) (simp add: text_of_def)
  qed
qed

text \<open>The number of bytes after the last line end.\<close>

definition tail_len :: "u8 list \<Rightarrow> nat" where
  "tail_len xs = length (takeWhile (\<lambda>c. c \<noteq> 10) (rev xs))"

text \<open>Reads that fit the buffer, of which each one brings at least one line end.\<close>

fun cuts_ok :: "nat list \<Rightarrow> nat \<Rightarrow> u8 list \<Rightarrow> bool" where
  "cuts_ok [] m input = (input = [])"
| "cuts_ok (n # ns) m input = (0 < n \<and> n \<le> length input \<and> m + n \<le> 1023 \<and> 10 \<in> set (take n input) \<and>
     cuts_ok ns (tail_len (take n input)) (drop n input))"

lemma text_of_tail:
  assumes "xs = text_of ls @ r" "ls \<noteq> []" "\<forall>c\<in>set r. c \<noteq> 10"
  shows "tail_len xs = length r"
proof -
  obtain ls0 l where "ls = ls0 @ [l]" using assms(2) by (cases ls rule: rev_cases) auto
  then have "rev xs = rev r @ 10 # rev (text_of ls0 @ l)" using assms(1) by (simp add: text_of_def)
  moreover have "takeWhile (\<lambda>c. c \<noteq> 10) (rev r @ 10 # rev (text_of ls0 @ l)) = rev r" using assms(3) by (subst takeWhile_append2) auto
  ultimately show ?thesis by (simp add: tail_len_def)
qed

lemma grep_chunks:
  assumes "m @ input = text_of ls" "\<forall>l\<in>set ls. \<forall>c\<in>set l. c \<noteq> 0 \<and> c \<noteq> 10" "cuts_ok ns (length m) input" "\<forall>c\<in>set m. c \<noteq> 10"
  shows "grep re ns m input = concat (map (pick re) ls)"
  using assms
proof (induction ns arbitrary: m input ls)
  case Nil
  then have "m = text_of ls" "\<forall>c\<in>set m. c \<noteq> 10" by simp_all
  then have "ls = []" by (cases ls) (auto simp: text_of_def)
  then show ?case by simp
next
  case (Cons n ns)
  let ?chunk = "take n input"
  let ?buf = "m @ ?chunk"
  have c: "0 < n" "n \<le> length input" "length m + n \<le> 1023" "10 \<in> set ?chunk" "cuts_ok ns (tail_len ?chunk) (drop n input)"
    using Cons.prems(3) by auto
  have "?buf @ drop n input = text_of ls" using Cons.prems(1) by simp
  from text_split [OF this Cons.prems(2)] obtain ls1 ls2 r where
    s: "ls = ls1 @ ls2" "?buf = text_of ls1 @ r" "r @ drop n input = text_of ls2" "\<forall>c\<in>set r. c \<noteq> 0 \<and> c \<noteq> 10" by blast
  have ne: "ls1 \<noteq> []"
  proof
    assume "ls1 = []"
    then have "10 \<in> set r" using s(2) c(4) by (simp add: text_of_def) (metis Un_iff set_append)
    with s(4) show False by blast
  qed
  have "tail_len ?buf = length r" using s(4) by (intro text_of_tail [OF s(2) ne]) auto
  moreover have "tail_len ?buf = tail_len ?chunk" using c(4) by (simp add: tail_len_def takeWhile_append1)
  ultimately have tl: "tail_len ?chunk = length r" by simp
  have out: "grep_lines re ?buf = (concat (map (pick re) ls1), r)"
    unfolding s(2) text_of_def using Cons.prems(2) s(1,4) by (intro grep_lines_whole) auto
  have len: "length r \<noteq> length ?buf" using s(2) ne by (cases ls1) (simp_all add: text_of_def)
  have "grep re ns r (drop n input) = concat (map (pick re) ls2)"
    using Cons.prems(2) s(1,3,4) c(5) tl by (intro Cons.IH) auto
  moreover have "min n (min (1024 - length m - 1) (length input)) = n" using c by auto
  ultimately show ?case using out len c(1) s(1) by (simp add: Let_def)
qed



text \<open>
  A line that arrives in two reads, of which the first holds no line end, is not matched as a
  line: its beginning is dropped.  grep for ab on the line ab, read as a and then b, prints
  nothing although the line matches.
\<close>

theorem grep_drops_split_line: "match [97, 98] [97, 98] \<and> grep [97, 98] [1, 2] [] (text_of [[97, 98]]) = []"
  by code_simp

end
