(* ===== verification/Kbd.thy ===== *)
theory Kbd
  imports Prelude
begin

text \<open>
  The keyboard driver (kbd.c, kbd.h): the key maps and kbdgetc, which turns scan codes into
  bytes and keeps the state of the modifier keys.
\<close>

definition NO :: u8 where "NO = 0"
definition SHIFT :: u32 where "SHIFT = 1"
definition CTL :: u32 where "CTL = 2"
definition ALT :: u32 where "ALT = 4"
definition CAPSLOCK :: u32 where "CAPSLOCK = 8"
definition NUMLOCK :: u32 where "NUMLOCK = 16"
definition SCROLLLOCK :: u32 where "SCROLLLOCK = 32"
definition E0ESC :: u32 where "E0ESC = 64"
definition KEY_HOME :: u8 where "KEY_HOME = 224"
definition KEY_END :: u8 where "KEY_END = 225"
definition KEY_UP :: u8 where "KEY_UP = 226"
definition KEY_DN :: u8 where "KEY_DN = 227"
definition KEY_LF :: u8 where "KEY_LF = 228"
definition KEY_RT :: u8 where "KEY_RT = 229"
definition KEY_PGUP :: u8 where "KEY_PGUP = 230"
definition KEY_PGDN :: u8 where "KEY_PGDN = 231"
definition KEY_INS :: u8 where "KEY_INS = 232"
definition KEY_DEL :: u8 where "KEY_DEL = 233"

definition Ctl :: "u8 \<Rightarrow> u8" where "Ctl x = x - 64"

text \<open>An array of 256 bytes given by its first entries and by designated entries.\<close>

definition designated :: "u8 list \<Rightarrow> (nat \<times> u8) list \<Rightarrow> u8 list" where
  "designated xs ds = fold (\<lambda>(i, v) t. t[i := v]) ds (xs @ replicate (256 - length xs) 0)"

definition shiftcode :: "u8 list" where
  "shiftcode = designated [] [(29, ucast CTL), (42, ucast SHIFT), (54, ucast SHIFT), (56, ucast ALT), (157, ucast CTL), (184, ucast ALT)]"

definition togglecode :: "u8 list" where
  "togglecode = designated [] [(58, ucast CAPSLOCK), (69, ucast NUMLOCK), (70, ucast SCROLLLOCK)]"

definition normalmap :: "u8 list" where
  "normalmap = designated
     [NO, 27, 49, 50, 51, 52, 53, 54, 55, 56, 57, 48, 45, 61, 8, 9, 113, 119, 101, 114, 116, 121, 117, 105,
      111, 112, 91, 93, 10, NO, 97, 115, 100, 102, 103, 104, 106, 107, 108, 59, 39, 96, NO, 92, 122, 120,
      99, 118, 98, 110, 109, 44, 46, 47, NO, 42, NO, 32, NO, NO, NO, NO, NO, NO, NO, NO, NO, NO, NO, NO,
      NO, 55, 56, 57, 45, 52, 53, 54, 43, 49, 50, 51, 48, 46, NO, NO, NO, NO]
     [(156, 10), (181, 47), (200, KEY_UP), (208, KEY_DN), (201, KEY_PGUP), (209, KEY_PGDN), (203, KEY_LF),
      (205, KEY_RT), (151, KEY_HOME), (207, KEY_END), (210, KEY_INS), (211, KEY_DEL)]"

definition shiftmap :: "u8 list" where
  "shiftmap = designated
     [NO, 27, 33, 64, 35, 36, 37, 94, 38, 42, 40, 41, 95, 43, 8, 9, 81, 87, 69, 82, 84, 89, 85, 73, 79, 80,
      123, 125, 10, NO, 65, 83, 68, 70, 71, 72, 74, 75, 76, 58, 34, 126, NO, 124, 90, 88, 67, 86, 66, 78,
      77, 60, 62, 63, NO, 42, NO, 32, NO, NO, NO, NO, NO, NO, NO, NO, NO, NO, NO, NO, NO, 55, 56, 57, 45,
      52, 53, 54, 43, 49, 50, 51, 48, 46, NO, NO, NO, NO]
     [(156, 10), (181, 47), (200, KEY_UP), (208, KEY_DN), (201, KEY_PGUP), (209, KEY_PGDN), (203, KEY_LF),
      (205, KEY_RT), (151, KEY_HOME), (207, KEY_END), (210, KEY_INS), (211, KEY_DEL)]"

definition ctlmap :: "u8 list" where
  "ctlmap = designated
     [NO, NO, NO, NO, NO, NO, NO, NO, NO, NO, NO, NO, NO, NO, NO, NO, Ctl 81, Ctl 87, Ctl 69, Ctl 82,
      Ctl 84, Ctl 89, Ctl 85, Ctl 73, Ctl 79, Ctl 80, NO, NO, 13, NO, Ctl 65, Ctl 83, Ctl 68, Ctl 70,
      Ctl 71, Ctl 72, Ctl 74, Ctl 75, Ctl 76, NO, NO, NO, NO, Ctl 92, Ctl 90, Ctl 88, Ctl 67, Ctl 86,
      Ctl 66, Ctl 78, Ctl 77, NO, NO, Ctl 47, NO, NO]
     [(156, 13), (181, Ctl 47), (200, KEY_UP), (208, KEY_DN), (201, KEY_PGUP), (209, KEY_PGDN),
      (203, KEY_LF), (205, KEY_RT), (151, KEY_HOME), (207, KEY_END), (210, KEY_INS), (211, KEY_DEL)]"

definition charcode :: "u32 \<Rightarrow> u8 list" where
  "charcode i = [normalmap, shiftmap, ctlmap, ctlmap] ! unat i"

text \<open>kbdgetc after data was read from the port: what it returns and the new modifier state.\<close>

definition kbd_key :: "u8 \<Rightarrow> u32 \<Rightarrow> u32 \<times> u32" where
  "kbd_key data shift =
     (let shift = shift OR ucast (shiftcode ! unat data);
          shift = shift XOR ucast (togglecode ! unat data);
          c = ucast (charcode (shift AND (CTL OR SHIFT)) ! unat data) :: u32;
          c = (if shift AND CAPSLOCK \<noteq> 0
               then if 97 \<le> c \<and> c \<le> 122 then c + (65 - 97)
                    else if 65 \<le> c \<and> c \<le> 90 then c + (97 - 65) else c
               else c)
      in (c, shift))"

definition kbdgetc :: "u8 option \<Rightarrow> u32 \<Rightarrow> int \<times> u32" where
  "kbdgetc port shift =
     (case port of
        None \<Rightarrow> (-1, shift)
      | Some data \<Rightarrow>
          if data = 224 then (0, shift OR E0ESC)
          else if data AND 128 \<noteq> 0
          then let data = (if shift AND E0ESC \<noteq> 0 then data else data AND 127)
               in (0, shift AND NOT (ucast (shiftcode ! unat data) OR E0ESC))
          else let (data, shift) = (if shift AND E0ESC \<noteq> 0 then (data OR 128, shift AND NOT E0ESC) else (data, shift));
                   (c, shift) = kbd_key data shift
               in (int (unat c), shift))"

section \<open>Letters\<close>

definition letter :: "u8 \<Rightarrow> bool" where
  "letter c \<longleftrightarrow> 97 \<le> c \<and> c \<le> 122"

text \<open>The maps agree on letter keys: the shift map has the capital, the control map the control byte.\<close>

lemma letter_table: "list_all (\<lambda>(n, m, c, s, t). letter n \<longrightarrow> s = 0 \<and> t = 0 \<and> m = n - 32 \<and> c = n - 96)
    (zip normalmap (zip shiftmap (zip ctlmap (zip shiftcode togglecode))))"
  by code_simp

lemma length_designated [simp]: "length (designated xs ds) = max 256 (length xs)"
proof -
  have "length (fold (\<lambda>(i, v) t. t[i := v]) ds t) = length t" for t :: "u8 list"
    by (induction ds arbitrary: t) auto
  then show ?thesis by (simp add: designated_def)
qed

lemma table_lengths [simp]:
  "length normalmap = 256" "length shiftmap = 256" "length ctlmap = 256" "length shiftcode = 256" "length togglecode = 256"
  by (simp_all add: normalmap_def shiftmap_def ctlmap_def shiftcode_def togglecode_def)

lemma letter_keys:
  assumes "d < 256" "letter (normalmap ! d)"
  shows "shiftcode ! d = 0" "togglecode ! d = 0" "shiftmap ! d = normalmap ! d - 32" "ctlmap ! d = normalmap ! d - 96"
  using letter_table assms by (auto simp: list_all_length)

lemma letter_bounds: "letter c \<Longrightarrow> 97 \<le> unat c \<and> unat c \<le> 122"
  by (simp add: letter_def word_le_nat_alt)

lemma letter_sub: "letter c \<Longrightarrow> k \<le> 97 \<Longrightarrow> unat (c - of_nat k) = unat c - k"
  by (subst unat_sub) (auto simp: letter_def word_le_nat_alt unat_of_nat take_bit_eq_mod)

lemma mod_bits: "shift AND (CTL OR SHIFT) = (shift AND CTL) OR (shift AND SHIFT)" for shift :: u32
  by (simp add: bit.conj_disj_distrib)

lemma and_SHIFT: "shift AND SHIFT = 0 \<or> shift AND SHIFT = 1" for shift :: u32
  by (simp add: SHIFT_def and_one_eq mod_2_eq_odd)

text \<open>
  Typing a letter: with no control key held and no escape pending, the key of a letter gives the
  small letter, and the capital exactly when one of Shift and Caps Lock is on and the other is
  off; the modifier state does not change.
\<close>

theorem kbd_letter_case:
  assumes d: "d < 128" "letter (normalmap ! d)" and s: "shift AND E0ESC = 0" "shift AND CTL = 0"
  shows "kbdgetc (Some (of_nat d)) shift =
    (int (unat (normalmap ! d)) - (if (shift AND SHIFT \<noteq> 0) \<noteq> (shift AND CAPSLOCK \<noteq> 0) then 32 else 0), shift)"
proof -
  have d': "d < 256" using d(1) by simp
  note k = letter_keys [OF d' d(2)] and b = letter_bounds [OF d(2)]
  have ud: "unat (of_nat d :: u8) = d" using d(1) by (simp add: unat_of_nat take_bit_eq_mod)
  have nd: "(of_nat d :: u8) \<noteq> 224" using d(1) ud by auto
  have hi: "(of_nat d :: u8) AND 128 = 0"
  proof -
    have "bit (unat (of_nat d :: u8)) 7 \<longleftrightarrow> bit (of_nat d :: u8) 7" by (simp only: bit_unsigned_iff) simp
    then have "\<not> bit (of_nat d :: u8) 7" unfolding ud using d(1) by (simp add: bit_iff_odd [of d])
    then show ?thesis using and_exp_eq_0_iff_not_bit [of "of_nat d :: u8" 7] by simp
  qed
  have up: "unat (normalmap ! d - 32) = unat (normalmap ! d) - 32" using letter_sub [OF d(2), of 32] by simp
  have key: "kbdgetc (Some (of_nat d)) shift = (case kbd_key (of_nat d) shift of (c, s) \<Rightarrow> (int (unat c), s))"
    using nd hi s(1) by (simp add: kbdgetc_def del: of_nat_unat)
  from and_SHIFT [of shift] show ?thesis
  proof
    assume sh: "shift AND SHIFT = 0"
    let ?c = "ucast (normalmap ! d) :: u32"
    have c: "unat ?c = unat (normalmap ! d)" using b by (simp add: unsigned_ucast_eq take_bit_nat_eq_self)
    have "kbd_key (of_nat d) shift = (if shift AND CAPSLOCK \<noteq> 0 then ?c - 32 else ?c, shift)"
      using sh s(2) k b c by (simp add: kbd_key_def mod_bits charcode_def ud word_le_nat_alt Let_def)
    moreover have "unat (?c - 32) = unat (normalmap ! d) - 32"
      using b c by (subst unat_sub) (auto simp: word_le_nat_alt)
    ultimately show ?thesis using key sh b c by (auto simp: of_nat_diff simp del: of_nat_unat)
  next
    assume sh: "shift AND SHIFT = 1"
    let ?c = "ucast (normalmap ! d - 32) :: u32"
    have c: "unat ?c = unat (normalmap ! d) - 32" using up b by (auto simp: unsigned_ucast_eq intro!: take_bit_nat_eq_self)
    have r: "\<not> 97 \<le> unat (normalmap ! d) - 32" "65 \<le> unat (normalmap ! d) - 32" "unat (normalmap ! d) - 32 \<le> 90"
      using b by auto
    have "kbd_key (of_nat d) shift = (if shift AND CAPSLOCK \<noteq> 0 then ?c + 32 else ?c, shift)"
      using sh s(2) k r c by (simp add: kbd_key_def mod_bits charcode_def ud word_le_nat_alt Let_def)
    moreover have "unat (?c + 32) = unat (normalmap ! d)"
      using b c by (subst unat_add_lem [THEN iffD1]) auto
    ultimately show ?thesis using key sh b c by (auto simp: of_nat_diff simp del: of_nat_unat)
  qed
qed

theorem kbd_letter_case_witness:
  "kbdgetc (Some 30) SHIFT = (65, SHIFT)"
proof -
  have "kbdgetc (Some (of_nat 30)) SHIFT = (int (unat (normalmap ! 30)) -
      (if (SHIFT AND SHIFT \<noteq> 0) \<noteq> (SHIFT AND CAPSLOCK \<noteq> 0) then 32 else 0), SHIFT)"
    by (rule kbd_letter_case; code_simp)
  moreover have "normalmap ! 30 = 97" by code_simp
  ultimately show ?thesis by (simp add: SHIFT_def CAPSLOCK_def)
qed

end
