(* ===== verification/Console.thy ===== *)
theory Console
  imports Ring Kbd
begin

text \<open>
  The console (console.c): the line-edited input buffer fed by keyboard and serial interrupts,
  the reads of processes from it, and output to the serial port (uart.c) and the CGA screen.
  Every routine runs under cons.lock until it returns or sleeps.
\<close>

section \<open>Output\<close>

definition BACKSPACE :: int where "BACKSPACE = 256"

text \<open>
  The machine's side of the console: the cells of the screen memory, the cursor registers 14 and
  15 of the CRT controller, whether there is a serial port, and the bytes sent to it.
\<close>

record screen =
  crt :: "u16 list"
  crt_hi :: u8
  crt_lo :: u8
  uart :: bool
  uart_out :: "u8 list"
  panicked :: bool

definition cursor :: "screen \<Rightarrow> nat" where
  "cursor s = push_bit 8 (unat (crt_hi s)) OR unat (crt_lo s)"

definition crt_store :: "nat \<Rightarrow> u16 \<Rightarrow> screen \<Rightarrow> screen res" where
  "crt_store i v s = (if i < length (crt s) then Inr (s\<lparr>crt := (crt s)[i := v]\<rparr>) else Inl (Undefined ''crt''))"

text \<open>memmove and memset on the screen memory: the lines move up by one and the rest of the last is cleared.\<close>

definition crt_scroll :: "nat \<Rightarrow> screen \<Rightarrow> screen res" where
  "crt_scroll p s =
     (if 24 * 80 \<le> length (crt s) \<and> p \<le> 24 * 80
      then let c = take (23 * 80) (drop 80 (crt s)) @ drop (23 * 80) (crt s)
           in Inr (s\<lparr>crt := take p c @ replicate (24 * 80 - p) 0 @ drop (24 * 80) c\<rparr>)
      else Inl (Undefined ''crt''))"

text \<open>The second half of cgaputc: the check, the scroll and the cursor at the new position p.\<close>

definition cga_finish :: "nat \<Rightarrow> screen \<Rightarrow> screen res" where
  "cga_finish p s =
     (if p > 25 * 80 then Inl (Panic ''pos under/overflow'')
      else bindr (if p div 80 \<ge> 24 then bindr (crt_scroll (p - 80) s) (\<lambda>s. Inr (p - 80, s)) else Inr (p, s)) (\<lambda>(p, s).
           crt_store p (32 OR 0x700) (s\<lparr>crt_hi := of_nat (drop_bit 8 p), crt_lo := of_nat p\<rparr>)))"

definition cgaputc :: "int \<Rightarrow> screen \<Rightarrow> screen res" where
  "cgaputc c s =
     (let p = cursor s in
      if c = 10 then cga_finish (p + (80 - p mod 80)) s
      else if c = BACKSPACE then cga_finish (if p > 0 then p - 1 else p) s
      else bindr (crt_store p ((of_int c AND 255) OR 0x700) s) (cga_finish (p + 1)))"

definition uartputc :: "int \<Rightarrow> screen \<Rightarrow> screen" where
  "uartputc c s = (if uart s then s\<lparr>uart_out := uart_out s @ [of_int c]\<rparr> else s)"

text \<open>After a panic a processor that prints loops for ever.\<close>

definition consputc :: "int \<Rightarrow> screen \<Rightarrow> screen res" where
  "consputc c s =
     (if panicked s then Inl Blocked
      else cgaputc c (if c = BACKSPACE then uartputc 8 (uartputc 32 (uartputc 8 s)) else uartputc c s))"

fun consputs :: "int list \<Rightarrow> screen \<Rightarrow> screen res" where
  "consputs [] s = Inr s"
| "consputs (c # cs) s = bindr (consputc c s) (consputs cs)"

text \<open>
  consolewrite: the bytes of the caller's buffer in order.  The caller has the console's inode
  locked; the lock is given up before cons.lock is taken and taken again at the end.
\<close>

definition consolewrite :: "bool \<Rightarrow> u8 list \<Rightarrow> int \<Rightarrow> screen \<Rightarrow> (int \<times> screen) res" where
  "consolewrite ip_locked buf n s =
     (if \<not> ip_locked then Inl (Panic ''iunlock'')
      else if nat n \<le> length buf
      then bindr (consputs (map (\<lambda>b. int (unat b)) (take (nat n) buf)) s) (\<lambda>s. Inr (n, s))
      else Inl (Undefined ''buf''))"

section \<open>Input\<close>

definition INPUT_BUF :: nat where "INPUT_BUF = 128"

record inbuf =
  i_buf :: "u8 list"
  i_r :: u32
  i_w :: u32
  i_e :: u32

text \<open>The loop of Control-U: characters are taken back until the line is empty.\<close>

function kill_line :: "inbuf \<Rightarrow> screen \<Rightarrow> (inbuf \<times> screen) res" where
  "kill_line b s =
     (if i_e b \<noteq> i_w b \<and> i_buf b ! (unat (i_e b - 1) mod INPUT_BUF) \<noteq> 10
      then bindr (consputc BACKSPACE s) (kill_line (b\<lparr>i_e := i_e b - 1\<rparr>))
      else Inr (b, s))"
  by auto
termination
proof (relation "measure (\<lambda>(b, s). unat (i_e b - i_w b))", goal_cases)
  case (2 b s x)
  then have "i_e b - i_w b \<noteq> 0" by simp
  then have "unat (i_e b - i_w b - 1) < unat (i_e b - i_w b)"
    by (metis unat_minus_one_nz unat_nonzero diff_less zero_less_one)
  then show ?case by (simp add: diff_right_commute)
qed simp

declare kill_line.simps [simp del]

text \<open>
  consoleintr for one character: the new buffer and screen, whether a process listing was asked
  for, and whether wakeup(&input.r) was called.
\<close>

definition intr_char :: "int \<Rightarrow> inbuf \<Rightarrow> screen \<Rightarrow> (inbuf \<times> screen \<times> bool \<times> bool) res" where
  "intr_char c b s =
     (if c = 16 then Inr (b, s, True, False)
      else if c = 21 then bindr (kill_line b s) (\<lambda>(b, s). Inr (b, s, False, False))
      else if c = 8 \<or> c = 127
      then if i_e b \<noteq> i_w b
           then bindr (consputc BACKSPACE s) (\<lambda>s. Inr (b\<lparr>i_e := i_e b - 1\<rparr>, s, False, False))
           else Inr (b, s, False, False)
      else if c \<noteq> 0 \<and> i_e b - i_r b < of_nat INPUT_BUF
      then let c = (if c = 13 then 10 else c);
               b = b\<lparr>i_buf := (i_buf b)[unat (i_e b) mod INPUT_BUF := of_int c], i_e := i_e b + 1\<rparr>
           in bindr (consputc c s) (\<lambda>s.
                if c = 10 \<or> c = 4 \<or> i_e b = i_r b + of_nat INPUT_BUF
                then Inr (b\<lparr>i_w := i_e b\<rparr>, s, False, True)
                else Inr (b, s, False, False))
      else Inr (b, s, False, False))"

text \<open>consoleintr on the results of the calls of getc; a negative one ends the loop.\<close>

fun consoleintr :: "int list \<Rightarrow> inbuf \<Rightarrow> screen \<Rightarrow> (inbuf \<times> screen \<times> bool \<times> bool) res" where
  "consoleintr [] b s = Inr (b, s, False, False)"
| "consoleintr (c # cs) b s =
     (if c < 0 then Inr (b, s, False, False)
      else bindr (intr_char c b s) (\<lambda>(b, s, d1, w1).
           bindr (consoleintr cs b s) (\<lambda>(b, s, d2, w2). Inr (b, s, d1 \<or> d2, w1 \<or> w2))))"

text \<open>kbdintr: getc is kbdgetc, reading the keyboard port until it has no more data.\<close>

fun kbd_chars :: "u8 list \<Rightarrow> u32 \<Rightarrow> int list \<times> u32" where
  "kbd_chars [] shift = ([fst (kbdgetc None shift)], snd (kbdgetc None shift))"
| "kbd_chars (d # ds) shift =
     (case kbdgetc (Some d) shift of (c, shift) \<Rightarrow> case kbd_chars ds shift of (cs, shift) \<Rightarrow> (c # cs, shift))"

definition kbdintr :: "u8 list \<Rightarrow> u32 \<Rightarrow> inbuf \<Rightarrow> screen \<Rightarrow> (u32 \<times> inbuf \<times> screen \<times> bool \<times> bool) res" where
  "kbdintr ds shift b s = (case kbd_chars ds shift of (cs, shift) \<Rightarrow> bindr (consoleintr cs b s) (\<lambda>x. Inr (shift, x)))"

text \<open>uartintr: getc is uartgetc, reading the serial port while its status says there is data.\<close>

definition uartgetc :: "bool \<Rightarrow> u8 option \<Rightarrow> int" where
  "uartgetc present port = (if \<not> present then -1 else case port of None \<Rightarrow> -1 | Some d \<Rightarrow> int (unat d))"

definition uartintr :: "u8 list \<Rightarrow> inbuf \<Rightarrow> screen \<Rightarrow> (inbuf \<times> screen \<times> bool \<times> bool) res" where
  "uartintr ds b s = consoleintr (map (\<lambda>d. uartgetc (uart s) (Some d)) ds @ [uartgetc (uart s) None]) b s"

text \<open>
  consoleread: the loop for n more bytes of the target requested.  It ends with what it stored,
  the bytes still wanted and how it stopped: done, interrupted because the process was killed,
  or asleep on input.r.
\<close>

datatype rstop = RDone | RKilled | RSleep

fun read_loop :: "bool \<Rightarrow> nat \<Rightarrow> nat \<Rightarrow> inbuf \<Rightarrow> inbuf \<times> u8 list \<times> nat \<times> rstop" where
  "read_loop killed target 0 b = (b, [], 0, RDone)"
| "read_loop killed target (Suc n) b =
     (if i_r b = i_w b then (b, [], Suc n, if killed then RKilled else RSleep)
      else let c = i_buf b ! (unat (i_r b) mod INPUT_BUF); b1 = b\<lparr>i_r := i_r b + 1\<rparr>
           in if c = 4
              then (if Suc n < target then b1\<lparr>i_r := i_r b1 - 1\<rparr> else b1, [], Suc n, RDone)
              else if c = 10 then (b1, [c], n, RDone)
              else case read_loop killed target n b1 of (b2, out, m, st) \<Rightarrow> (b2, c # out, m, st))"

text \<open>
  A call from the start, with the inode locked: the buffer, what was stored at dst, whether the
  inode is locked again and the value returned, if the call does not sleep.
\<close>

definition consoleread :: "bool \<Rightarrow> bool \<Rightarrow> int \<Rightarrow> inbuf \<Rightarrow> (inbuf \<times> u8 list \<times> bool \<times> int option) res" where
  "consoleread ip_locked killed n b =
     (if \<not> ip_locked then Inl (Panic ''iunlock'')
      else if n > 0
      then case read_loop killed (nat n) (nat n) b of
             (b, out, m, st) \<Rightarrow>
               Inr (b, out, case st of RDone \<Rightarrow> (True, Some (n - int m)) | RKilled \<Rightarrow> (True, Some (-1)) | RSleep \<Rightarrow> (False, None))
      else Inr (b, [], True, Some 0))"

section \<open>The screen\<close>

definition screen_ok :: "screen \<Rightarrow> bool" where
  "screen_ok s \<longleftrightarrow> \<not> panicked s \<and> 24 * 80 \<le> length (crt s) \<and> cursor s < 24 * 80"

lemma join_bytes: "push_bit 8 a OR (b :: nat) = 256 * a + b" if "b < 256"
proof -
  have "push_bit 8 a AND b = 0"
  proof (rule bit_eqI)
    fix n
    have "\<not> bit b n" if "8 \<le> n" 
    proof -
      have "b < 2 ^ n" using \<open>b < 256\<close> power_increasing [OF that, of "2::nat"] by simp
      then show ?thesis by (simp add: bit_iff_odd)
    qed
    then show "bit (push_bit 8 a AND b) n \<longleftrightarrow> bit (0 :: nat) n" by (auto simp: bit_simps)
  qed
  then have "push_bit 8 a OR b = push_bit 8 a + b" by (simp add: disjunctive_add_eq_or)
  then show ?thesis by (simp add: push_bit_eq_mult)
qed

lemma cursor_set: "p < 65536 \<Longrightarrow> cursor (s\<lparr>crt_hi := of_nat (drop_bit 8 p), crt_lo := of_nat p\<rparr>) = p"
  by (simp add: cursor_def unat_of_nat take_bit_eq_mod drop_bit_eq_div join_bytes)

lemma cursor_crt [simp]: "cursor (s\<lparr>crt := x\<rparr>) = cursor s" "cursor (s\<lparr>uart_out := y\<rparr>) = cursor s"
  by (simp_all add: cursor_def)

lemma crt_store_ok: "i < length (crt s) \<Longrightarrow> crt_store i v s = Inr (s\<lparr>crt := (crt s)[i := v]\<rparr>)"
  by (simp add: crt_store_def)

definition scrolled :: "nat \<Rightarrow> u16 list \<Rightarrow> u16 list" where
  "scrolled p c = take p (take 1840 (drop 80 c) @ drop 1840 c) @ replicate (1920 - p) 0 @ drop 1920 c"

lemma crt_scroll_ok: "1920 \<le> length (crt s) \<Longrightarrow> p \<le> 1920 \<Longrightarrow> crt_scroll p s = Inr (s\<lparr>crt := scrolled p (crt s)\<rparr>)"
  by (simp add: crt_scroll_def scrolled_def Let_def)

lemma length_scrolled [simp]: "1920 \<le> length c \<Longrightarrow> p \<le> 1920 \<Longrightarrow> length (scrolled p c) = length c"
  by (simp add: scrolled_def)

lemma nth_scrolled:
  assumes "1920 \<le> length c" "1840 \<le> p" "p \<le> 1920" "i < length c"
  shows "scrolled p c ! i = (if i < 1840 then c ! (i + 80) else if i < p then c ! i else if i < 1920 then 0 else c ! i)"
  using assms by (auto simp: scrolled_def nth_append add.commute)

lemma cursor_newline: "cursor s < 1920 \<Longrightarrow> cursor s + (80 - cursor s mod 80) \<le> 1920"
proof -
  assume "cursor s < 1920"
  then have "cursor s div 80 < 24" by simp
  then have "80 * (cursor s div 80) + 80 \<le> 1920" by simp
  moreover have "cursor s = 80 * (cursor s div 80) + cursor s mod 80" by simp
  moreover have "cursor s mod 80 < 80" by simp
  ultimately show ?thesis by linarith
qed

text \<open>What cgaputc does once the new position is known.\<close>

definition cga_move :: "nat \<Rightarrow> screen \<Rightarrow> screen" where
  "cga_move p s =
     (if p < 1920 then s\<lparr>crt := (crt s)[p := 0x720], crt_hi := of_nat (drop_bit 8 p), crt_lo := of_nat p\<rparr>
      else s\<lparr>crt := (scrolled 1840 (crt s))[1840 := 0x720], crt_hi := 7, crt_lo := 48\<rparr>)"

lemma cgaputc_cases:
  assumes "screen_ok s"
  shows "cgaputc c s = Inr (
    if c = 10 then cga_move (cursor s + (80 - cursor s mod 80)) s
    else if c = BACKSPACE then cga_move (cursor s - 1) s
    else cga_move (cursor s + 1) (s\<lparr>crt := (crt s)[cursor s := (of_int c AND 255) OR 0x700]\<rparr>))"
proof -
  have len: "1920 \<le> length (crt s)" and cur: "cursor s < 1920" using assms by (simp_all add: screen_ok_def)
  have move: "cga_finish p t = Inr (cga_move p t)"
    if "p \<le> 1920" "1920 \<le> length (crt t)" for p t
  proof (cases "p < 1920")
    case True
    then have "\<not> p div 80 \<ge> 24" by simp
    with True that show ?thesis by (simp add: cga_finish_def cga_move_def crt_store_ok)
  next
    case False
    with that have "p = 1920" by simp
    with that show ?thesis by (simp add: cga_finish_def cga_move_def crt_store_ok crt_scroll_ok drop_bit_eq_div)
  qed
  have m: "cursor s + (80 - cursor s mod 80) \<le> 1920" by (rule cursor_newline [OF cur])
  show ?thesis
    using len cur m unfolding cgaputc_def Let_def
    by (auto simp: crt_store_ok intro!: move)
qed

lemma cursor_cga_move [simp]: "p \<le> 1920 \<Longrightarrow> cursor (cga_move p s) = (if p < 1920 then p else 1840)"
  using cursor_set [of p "s\<lparr>crt := x\<rparr>" for x] by (simp add: cga_move_def cursor_def push_bit_eq_mult)

lemma crt_cga_move:
  "crt (cga_move p s) = (if p < 1920 then (crt s)[p := 0x720] else (scrolled 1840 (crt s))[1840 := 0x720])"
  by (simp add: cga_move_def)

lemma screen_ok_cga_move:
  assumes "p \<le> 1920" "1920 \<le> length (crt s)" "\<not> panicked s"
  shows "screen_ok (cga_move p s)" and "crt (cga_move p s) ! cursor (cga_move p s) = 0x720"
    and "drop 1920 (crt (cga_move p s)) = drop 1920 (crt s)"
proof -
  show "screen_ok (cga_move p s)" using assms by (simp add: screen_ok_def crt_cga_move) (simp add: cga_move_def)
  show "crt (cga_move p s) ! cursor (cga_move p s) = 0x720" using assms by (simp add: crt_cga_move)
  show "drop 1920 (crt (cga_move p s)) = drop 1920 (crt s)"
    using assms by (simp add: crt_cga_move) (simp add: scrolled_def)
qed

text \<open>
  The screen driver stays inside the 24 lines it manages: from a cursor among them, printing any
  character or a backspace returns without the panic, leaves the cursor among them and on a
  blank, and touches no cell beyond them.  A printed character appears where the cursor was, and
  all other cells but the one under the new cursor are as before; at the last cell the screen
  moves up by a line, the character with it.
\<close>

theorem cgaputc_ok:
  assumes "screen_ok s"
  shows "\<exists>s'. cgaputc c s = Inr s' \<and> screen_ok s' \<and> crt s' ! cursor s' = 0x720 \<and>
    drop 1920 (crt s') = drop 1920 (crt s) \<and>
    (c \<noteq> 10 \<and> c \<noteq> BACKSPACE \<longrightarrow>
      (if cursor s < 1919
       then cursor s' = cursor s + 1 \<and> crt s' ! cursor s = (of_int c AND 255) OR 0x700 \<and>
         (\<forall>i. i \<noteq> cursor s \<and> i \<noteq> cursor s' \<longrightarrow> crt s' ! i = crt s ! i)
       else cursor s' = 1840 \<and> crt s' ! 1839 = (of_int c AND 255) OR 0x700 \<and> (\<forall>i<1839. crt s' ! i = crt s ! (i + 80))))"
proof -
  let ?t = "s\<lparr>crt := (crt s)[cursor s := (of_int c AND 255) OR 0x700]\<rparr>"
  have s: "1920 \<le> length (crt s)" "cursor s < 1920" "\<not> panicked s" using assms by (simp_all add: screen_ok_def)
  have ch: "screen_ok (cga_move (cursor s + 1) ?t)" "drop 1920 (crt (cga_move (cursor s + 1) ?t)) = drop 1920 (crt s)"
    "crt (cga_move (cursor s + 1) ?t) ! cursor (cga_move (cursor s + 1) ?t) = 0x720"
    using s screen_ok_cga_move [of "cursor s + 1" ?t] by simp_all
  have nl: "screen_ok (cga_move p s)" "drop 1920 (crt (cga_move p s)) = drop 1920 (crt s)"
    "crt (cga_move p s) ! cursor (cga_move p s) = 0x720" if "p \<le> 1920" for p
    using s that screen_ok_cga_move [of p s] by simp_all
  show ?thesis
  proof (cases "c = 10 \<or> c = BACKSPACE")
    case True
    then show ?thesis using nl [OF cursor_newline [OF s(2)]] nl [of "cursor s - 1"] s(2)
      by (auto simp: cgaputc_cases [OF assms])
  next
    case False
    have "if cursor s < 1919
       then cursor (cga_move (cursor s + 1) ?t) = cursor s + 1 \<and> crt (cga_move (cursor s + 1) ?t) ! cursor s = (of_int c AND 255) OR 0x700 \<and>
         (\<forall>i. i \<noteq> cursor s \<and> i \<noteq> cursor s + 1 \<longrightarrow> crt (cga_move (cursor s + 1) ?t) ! i = crt s ! i)
       else cursor (cga_move (cursor s + 1) ?t) = 1840 \<and> crt (cga_move (cursor s + 1) ?t) ! 1839 = (of_int c AND 255) OR 0x700 \<and>
         (\<forall>i<1839. crt (cga_move (cursor s + 1) ?t) ! i = crt s ! (i + 80))"
    proof (cases "cursor s < 1919")
      case True
      with s show ?thesis by (simp add: crt_cga_move)
    next
      case False
      with s have "cursor s = 1919" by simp
      with s show ?thesis by (simp add: crt_cga_move nth_scrolled)
    qed
    then show ?thesis using False ch by (intro exI [of _ "cga_move (cursor s + 1) ?t"]) (auto simp: cgaputc_cases [OF assms] split: if_splits)
  qed
qed

theorem cgaputc_ok_witness:
  "\<exists>s'. cgaputc 65 \<lparr>crt = replicate 1920 0, crt_hi = 0, crt_lo = 0, uart = False, uart_out = [], panicked = False\<rparr> = Inr s' \<and>
     crt s' ! 0 = 0x741 \<and> cursor s' = 1"
  using cgaputc_ok [of "\<lparr>crt = replicate 1920 0, crt_hi = 0, crt_lo = 0, uart = False, uart_out = [], panicked = False\<rparr>" 65]
  by (auto simp: screen_ok_def cursor_def BACKSPACE_def)

lemma consputc_ok: "screen_ok s \<Longrightarrow> \<exists>s'. consputc c s = Inr s' \<and> screen_ok s'"
proof -
  assume s: "screen_ok s"
  have cga: "\<exists>s'. cgaputc k t = Inr s' \<and> screen_ok s'" if "screen_ok t" for k t
  proof -
    have t: "1920 \<le> length (crt t)" "cursor t < 1920" "\<not> panicked t" using that by (simp_all add: screen_ok_def)
    then show ?thesis using cursor_newline [OF t(2)] by (auto simp: cgaputc_cases [OF that] intro!: screen_ok_cga_move)
  qed
  have u: "screen_ok (uartputc k t)" if "screen_ok t" for k t using that by (simp add: uartputc_def screen_ok_def)
  have "\<not> panicked s" using s by (simp add: screen_ok_def)
  then show ?thesis using cga [OF u [OF u [OF u [OF s]]]] cga [OF u [OF s]] by (simp add: consputc_def)
qed

section \<open>The input buffer\<close>

interpretation cring: ring_size INPUT_BUF
  by unfold_locales (simp_all add: INPUT_BUF_def)

text \<open>The bytes processes may read, and the line being edited.\<close>

definition pending :: "inbuf \<Rightarrow> u8 list" where
  "pending b = ring_contents INPUT_BUF (i_buf b) (i_r b) (i_w b)"

definition editing :: "inbuf \<Rightarrow> u8 list" where
  "editing b = ring_contents INPUT_BUF (i_buf b) (i_w b) (i_e b)"

definition in_ok :: "inbuf \<Rightarrow> bool" where
  "in_ok b \<longleftrightarrow> ring_ok INPUT_BUF (i_buf b) (i_r b) (i_e b) \<and> unat (i_w b - i_r b) \<le> unat (i_e b - i_r b) \<and> 10 \<notin> set (editing b)"

lemma in_ok_sizes:
  assumes "in_ok b"
  shows "length (i_buf b) = 128" and "unat (i_e b - i_r b) = length (pending b) + length (editing b)"
    and "length (pending b) + length (editing b) \<le> 128"
    and "ring_contents INPUT_BUF (i_buf b) (i_r b) (i_e b) = pending b @ editing b"
  using assms cring.ring_split [of "i_w b" "i_r b" "i_e b"]
  by (auto simp: in_ok_def ring_ok_def pending_def editing_def INPUT_BUF_def)

lemma in_ok_edit_ring: "in_ok b \<Longrightarrow> ring_ok INPUT_BUF (i_buf b) (i_w b) (i_e b)"
  using cring.ring_split(1) [of "i_w b" "i_r b" "i_e b"] by (auto simp: in_ok_def ring_ok_def)

lemma in_ok_pending_ring: "in_ok b \<Longrightarrow> ring_ok INPUT_BUF (i_buf b) (i_r b) (i_w b)"
  by (auto simp: in_ok_def ring_ok_def)

lemma edit_empty_iff: "in_ok b \<Longrightarrow> i_e b = i_w b \<longleftrightarrow> editing b = []"
proof -
  have "length (editing b) = unat (i_e b - i_w b)" by (simp add: editing_def)
  then show ?thesis by (metis length_0_conv right_minus_eq unat_eq_0)
qed

lemma in_take_back:
  assumes "in_ok b" "i_e b \<noteq> i_w b"
  defines "b' \<equiv> b\<lparr>i_e := i_e b - 1\<rparr>"
  shows "in_ok b'" "pending b' = pending b" "editing b' = butlast (editing b)"
    and "i_buf b ! (unat (i_e b - 1) mod INPUT_BUF) = last (editing b)"
proof -
  note u = cring.ring_unput [OF in_ok_edit_ring [OF assms(1)] assms(2) [symmetric]]
  show p: "pending b' = pending b" and e: "editing b' = butlast (editing b)"
    using u by (simp_all add: b'_def pending_def editing_def)
  show "i_buf b ! (unat (i_e b - 1) mod INPUT_BUF) = last (editing b)" using u by (simp add: editing_def)
  have "unat (i_w b - i_r b) \<noteq> unat (i_e b - i_r b)"
    using assms(2) by (simp flip: word_unat_eq_iff)
  with assms(1) have lt: "unat (i_w b - i_r b) < unat (i_e b - i_r b)" by (simp add: in_ok_def)
  then have ne: "i_e b \<noteq> i_r b" by auto
  then have "unat (i_e b - 1 - i_r b) = unat (i_e b - i_r b) - 1"
    using unat_minus_one_nz [of "i_e b - i_r b"] by (simp add: diff_right_commute)
  with lt show "in_ok b'" using assms(1) e
    by (auto simp: in_ok_def b'_def ring_ok_def dest: in_set_butlastD)
qed

lemma in_put:
  fixes b :: inbuf and x :: u8
  assumes "in_ok b" "length (pending b) + length (editing b) < 128"
  defines "b' \<equiv> b\<lparr>i_buf := (i_buf b)[unat (i_e b) mod INPUT_BUF := x], i_e := i_e b + 1\<rparr>"
  shows "pending b' = pending b" "editing b' = editing b @ [x]" "x \<noteq> 10 \<Longrightarrow> in_ok b'"
    and "unat (i_e b + 1 - i_r b) = length (pending b) + length (editing b) + 1"
    and "in_ok (b'\<lparr>i_w := i_e b'\<rparr>)" "pending (b'\<lparr>i_w := i_e b'\<rparr>) = pending b @ editing b @ [x]"
    "editing (b'\<lparr>i_w := i_e b'\<rparr>) = []"
proof -
  have ring: "ring_ok INPUT_BUF (i_buf b) (i_r b) (i_e b)" "unat (i_e b - i_r b) < INPUT_BUF"
    "unat (i_w b - i_r b) \<le> unat (i_e b - i_r b)"
    using assms(1,2) in_ok_sizes(2) [OF assms(1)] by (simp_all add: in_ok_def INPUT_BUF_def)
  note put = cring.ring_put [OF ring(1,2), of x]
  have n: "unat (i_e b + 1 - i_r b) = unat (i_e b - i_r b) + 1"
    using ring(2) unat_plus_one [of "i_e b - i_r b"] by (simp add: INPUT_BUF_def diff_add_eq)
  then have le: "unat (i_w b - i_r b) \<le> unat (i_e b + 1 - i_r b)" using ring(3) by simp
  have whole: "ring_contents INPUT_BUF (i_buf b') (i_r b') (i_e b') = pending b @ editing b @ [x]"
    using put(1) in_ok_sizes(4) [OF assms(1)] by (simp add: b'_def)
  have sp: "ring_contents INPUT_BUF (i_buf b') (i_r b') (i_e b') = pending b' @ editing b'"
    using cring.ring_split(2) [OF le, of "i_buf b'"] by (simp add: pending_def editing_def b'_def)
  have eq: "pending b' @ editing b' = pending b @ editing b @ [x]" using whole unfolding sp .
  moreover have "length (pending b') = length (pending b)" by (simp add: pending_def b'_def)
  ultimately show pe: "pending b' = pending b" "editing b' = editing b @ [x]" by (simp_all add: append_eq_append_conv)
  show "unat (i_e b + 1 - i_r b) = length (pending b) + length (editing b) + 1"
    using n in_ok_sizes(2) [OF assms(1)] by simp
  show "in_ok b'" if "x \<noteq> 10"
    using assms(1) that put(2) le pe(2) by (simp add: in_ok_def) (simp add: b'_def)
  show "pending (b'\<lparr>i_w := i_e b'\<rparr>) = pending b @ editing b @ [x]" using whole by (simp add: pending_def)
  show e: "editing (b'\<lparr>i_w := i_e b'\<rparr>) = []" by (simp add: editing_def)
  show "in_ok (b'\<lparr>i_w := i_e b'\<rparr>)" using put(2) e by (simp add: in_ok_def) (simp add: b'_def)
qed

text \<open>The effect of a typed character on the readable bytes and the edited line.\<close>

definition typed :: "int \<Rightarrow> u8 list \<times> u8 list \<Rightarrow> u8 list \<times> u8 list" where
  "typed c = (\<lambda>(p, e).
     if c = 16 then (p, e)
     else if c = 21 then (p, [])
     else if c = 8 \<or> c = 127 then (p, butlast e)
     else if c \<noteq> 0 \<and> length p + length e < 128
     then let x = of_int (if c = 13 then 10 else c)
          in if c = 10 \<or> c = 13 \<or> c = 4 \<or> length p + length e = 127 then (p @ e @ [x], []) else (p, e @ [x])
     else (p, e))"

definition lines :: "inbuf \<Rightarrow> u8 list \<times> u8 list" where
  "lines b = (pending b, editing b)"

lemma kill_line_ok:
  assumes "in_ok b" "screen_ok s"
  shows "\<exists>b' s'. kill_line b s = Inr (b', s') \<and> in_ok b' \<and> screen_ok s' \<and> lines b' = (pending b, []) \<and> i_r b' = i_r b"
  using assms
proof (induction b s rule: kill_line.induct)
  case (1 b s)
  show ?case
  proof (cases "i_e b = i_w b")
    case True
    then show ?thesis using "1.prems" edit_empty_iff by (auto simp: kill_line.simps [of b s] lines_def)
  next
    case False
    note tb = in_take_back [OF "1.prems"(1) False]
    have ne: "editing b \<noteq> []" using False edit_empty_iff [OF "1.prems"(1)] by simp
    then have l: "last (editing b) \<noteq> 10" using "1.prems"(1) by (metis in_ok_def last_in_set)
    obtain s1 where s1: "consputc BACKSPACE s = Inr s1" "screen_ok s1" using consputc_ok [OF "1.prems"(2)] by blast
    from "1.IH" [of s1] False l tb s1 obtain b' s' where "kill_line (b\<lparr>i_e := i_e b - 1\<rparr>) s1 = Inr (b', s')" "in_ok b'" "screen_ok s'"
      "lines b' = (pending b, [])" "i_r b' = i_r b" by auto
    then show ?thesis using False l tb s1 by (auto simp: kill_line.simps [of b s])
  qed
qed

lemma intr_char_ok:
  assumes "in_ok b" "screen_ok s" "0 \<le> c" "c < 256"
  shows "\<exists>b' s' d w. intr_char c b s = Inr (b', s', d, w) \<and> in_ok b' \<and> screen_ok s' \<and> lines b' = typed c (lines b) \<and>
    i_r b' = i_r b \<and> (\<exists>zs. pending b' = pending b @ zs \<and> (w \<longleftrightarrow> zs \<noteq> []))"
proof -
  have quiet: ?thesis if "intr_char c b s = Inr (b', s', d, False)" "in_ok b'" "screen_ok s'" "lines b' = typed c (lines b)"
    "i_r b' = i_r b" "pending b' = pending b" for b' s' d
    using that by (intro exI [of _ b'] exI [of _ s'] exI [of _ d] exI [of _ False]) simp
  let ?n = "length (pending b) + length (editing b)"
  consider "c = 16" | "c = 21" | "c = 8 \<or> c = 127" | "c \<notin> {16, 21, 8, 127}" "c = 0 \<or> \<not> ?n < 128" | "c \<notin> {0, 16, 21, 8, 127}" "?n < 128"
    by fastforce
  then show ?thesis
  proof cases
    case 1
    then show ?thesis using assms by (intro quiet [of b s True]) (simp_all add: intr_char_def typed_def lines_def)
  next
    case 2
    obtain b' s' where "kill_line b s = Inr (b', s')" "in_ok b'" "screen_ok s'" "lines b' = (pending b, [])" "i_r b' = i_r b"
      using kill_line_ok [OF assms(1,2)] by blast
    with 2 show ?thesis by (intro quiet [of b' s' False]) (simp_all add: intr_char_def typed_def lines_def)
  next
    case 3
    obtain s1 where s1: "consputc BACKSPACE s = Inr s1" "screen_ok s1" using consputc_ok [OF assms(2)] by blast
    show ?thesis
    proof (cases "i_e b = i_w b")
      case True
      then have "editing b = []" using edit_empty_iff [OF assms(1)] by simp
      with True 3 assms show ?thesis by (intro quiet [of b s False]) (auto simp: intr_char_def typed_def lines_def)
    next
      case False
      note tb = in_take_back [OF assms(1) False]
      from 3 False s1 tb show ?thesis by (intro quiet [of "b\<lparr>i_e := i_e b - 1\<rparr>" s1 False]) (auto simp: intr_char_def typed_def lines_def)
    qed
  next
    case 4
    have "\<not> i_e b - i_r b < of_nat INPUT_BUF" if "\<not> ?n < 128"
      using that in_ok_sizes(2) [OF assms(1)] by (simp add: word_less_nat_alt INPUT_BUF_def)
    with 4 assms show ?thesis by (intro quiet [of b s False]) (auto simp: intr_char_def typed_def lines_def)
  next
    case 5
    define k where "k = (if c = 13 then 10 else c)"
    define b1 where "b1 = b\<lparr>i_buf := (i_buf b)[unat (i_e b) mod INPUT_BUF := of_int k], i_e := i_e b + 1\<rparr>"
    have r1: "i_r b1 = i_r b" by (simp add: b1_def)
    note put = in_put(1-3,5-7) [OF assms(1) 5(2), of "of_int k", folded b1_def]
    obtain s1 where s1: "consputc k s = Inr s1" "screen_ok s1" using consputc_ok [OF assms(2)] by blast
    have room: "i_e b - i_r b < of_nat INPUT_BUF"
      using 5(2) in_ok_sizes(2) [OF assms(1)] by (simp add: word_less_nat_alt INPUT_BUF_def)
    have full: "i_e b + 1 = i_r b + of_nat INPUT_BUF \<longleftrightarrow> ?n = 127"
    proof -
      have "i_e b + 1 = i_r b + of_nat INPUT_BUF \<longleftrightarrow> i_e b + 1 - i_r b = 128" by (auto simp: INPUT_BUF_def algebra_simps)
      also have "\<dots> \<longleftrightarrow> unat (i_e b + 1 - i_r b) = 128" by (simp add: word_unat_eq_iff)
      finally show ?thesis using in_put(4) [OF assms(1) 5(2)] by simp
    qed
    have k10: "of_int k = (10 :: u8) \<longleftrightarrow> k = 10"
    proof
      assume "of_int k = (10 :: u8)"
      then have "uint (of_int k :: u8) = 10" by simp
      then show "k = 10" using assms(3,4) by (simp add: k_def uint_word_of_int split: if_splits)
    qed simp
    have eq: "intr_char c b s = Inr (if k = 10 \<or> k = 4 \<or> ?n = 127 then (b1\<lparr>i_w := i_e b1\<rparr>, s1, False, True) else (b1, s1, False, False))"
      using 5(1) room s1(1) full by (simp add: intr_char_def Let_def k_def [symmetric] b1_def [symmetric])
    have tp: "typed c (lines b) = (if k = 10 \<or> k = 4 \<or> ?n = 127 then (pending b @ editing b @ [of_int k], []) else (pending b, editing b @ [of_int k]))"
      using 5 by (auto simp: typed_def lines_def k_def)
    show ?thesis
    proof (cases "k = 10 \<or> k = 4 \<or> ?n = 127")
      case True
      then show ?thesis using put(4-6) s1(2) unfolding eq tp
        by (intro exI [of _ "b1\<lparr>i_w := i_e b1\<rparr>"] exI [of _ s1] exI [of _ False] exI [of _ True]) (simp add: lines_def r1)
    next
      case False
      then show ?thesis using put(1-3) k10 s1(2) eq tp
        by (intro quiet [of b1 s1 False]) (simp_all add: lines_def r1)
    qed
  qed
qed

lemma consoleintr_lines:
  assumes "in_ok b" "screen_ok s" "\<forall>c\<in>set cs. c < 256"
  shows "\<exists>b' s' d w. consoleintr cs b s = Inr (b', s', d, w) \<and> in_ok b' \<and> screen_ok s' \<and> i_r b' = i_r b \<and>
    lines b' = fold typed (takeWhile (\<lambda>c. 0 \<le> c) cs) (lines b) \<and>
    (\<exists>zs. pending b' = pending b @ zs \<and> (w \<longleftrightarrow> zs \<noteq> []))"
  using assms
proof (induction cs arbitrary: b s)
  case Nil
  then show ?case by auto
next
  case (Cons c cs)
  show ?case
  proof (cases "c < 0")
    case True
    then show ?thesis using Cons.prems by auto
  next
    case False
    with intr_char_ok [OF Cons.prems(1,2), of c] Cons.prems(3) obtain b1 s1 d1 w1 where
      1: "intr_char c b s = Inr (b1, s1, d1, w1)" "in_ok b1" "screen_ok s1" "lines b1 = typed c (lines b)" "i_r b1 = i_r b"
      "\<exists>zs. pending b1 = pending b @ zs \<and> (w1 \<longleftrightarrow> zs \<noteq> [])" by auto
    from Cons.IH [OF 1(2,3)] Cons.prems(3) obtain b' s' d w zs where
      2: "consoleintr cs b1 s1 = Inr (b', s', d, w)" "in_ok b'" "screen_ok s'" "i_r b' = i_r b1"
      "lines b' = fold typed (takeWhile (\<lambda>c. 0 \<le> c) cs) (lines b1)" "pending b' = pending b1 @ zs" "w \<longleftrightarrow> zs \<noteq> []" by auto
    from 1(6) obtain ys where "pending b1 = pending b @ ys" "w1 \<longleftrightarrow> ys \<noteq> []" by blast
    then have "pending b' = pending b @ (ys @ zs) \<and> (w1 \<or> w \<longleftrightarrow> ys @ zs \<noteq> [])" using 2(6,7) by auto
    with 1 2 False show ?thesis by (auto simp del: append_is_Nil_conv)
  qed
qed

text \<open>
  C36.  Console input refines line editing: on any characters the interrupt handler returns without a
  panic, keeps the ring buffer and the screen well formed however the counters wrap, changes the
  readable bytes and the edited line as typed says for each character in turn, never touches
  bytes already readable, and wakes readers exactly when there is something new to read.
\<close>

theorem consoleintr_refines:
  assumes "in_ok b" "screen_ok s" "\<forall>c\<in>set cs. c < 256"
  shows "\<exists>b' s' d w. consoleintr cs b s = Inr (b', s', d, w) \<and> in_ok b' \<and> screen_ok s' \<and> i_r b' = i_r b \<and>
    lines b' = fold typed (takeWhile (\<lambda>c. 0 \<le> c) cs) (lines b) \<and>
    (\<exists>zs. pending b' = pending b @ zs \<and> (w \<longleftrightarrow> zs \<noteq> []))"
  by (rule consoleintr_lines [OF assms])

definition no_input :: inbuf where
  "no_input = \<lparr>i_buf = replicate 128 0, i_r = 0, i_w = 0, i_e = 0\<rparr>"

definition blank_screen :: screen where
  "blank_screen = \<lparr>crt = replicate 1920 0, crt_hi = 0, crt_lo = 0, uart = True, uart_out = [], panicked = False\<rparr>"

lemma console_start: "in_ok no_input" "lines no_input = ([], [])" "screen_ok blank_screen"
  by (simp_all add: in_ok_def no_input_def lines_def pending_def editing_def ring_ok_def INPUT_BUF_def screen_ok_def blank_screen_def cursor_def)

theorem consoleintr_refines_witness:
  "\<exists>b' s' d w. consoleintr [108, 120, 8, 115, 13, 119, -1] no_input blank_screen = Inr (b', s', d, w) \<and> w \<and>
    lines b' = ([108, 115, 10], [119])"
proof -
  from consoleintr_refines [OF console_start(1,3), of "[108, 120, 8, 115, 13, 119, -1]"] obtain b' s' d w zs where
    1: "consoleintr [108, 120, 8, 115, 13, 119, -1] no_input blank_screen = Inr (b', s', d, w)"
    "lines b' = fold typed (takeWhile (\<lambda>c. 0 \<le> c) [108, 120, 8, 115, 13, 119, -1]) (lines no_input)"
    "pending b' = pending no_input @ zs" "w \<longleftrightarrow> zs \<noteq> []" by auto
  have "fold typed (takeWhile (\<lambda>c. 0 \<le> c) [108, 120, 8, 115, 13, 119, -1]) ([], []) = ([108, 115, 10], [119])" by code_simp
  with 1 have l: "lines b' = ([108, 115, 10], [119])" by (simp add: console_start)
  then have w using 1(3,4) console_start(2) by (auto simp: lines_def)
  with 1(1) l show ?thesis by blast
qed

section \<open>Reading lines\<close>

lemma in_get:
  assumes "in_ok b" "pending b = x # xs"
  shows "i_r b \<noteq> i_w b" "i_buf b ! (unat (i_r b) mod INPUT_BUF) = x"
    and "in_ok (b\<lparr>i_r := i_r b + 1\<rparr>)" "pending (b\<lparr>i_r := i_r b + 1\<rparr>) = xs" "editing (b\<lparr>i_r := i_r b + 1\<rparr>) = editing b"
proof -
  show ne: "i_r b \<noteq> i_w b" using assms(2) by (auto simp: pending_def)
  note g = cring.ring_get [OF in_ok_pending_ring [OF assms(1)] ne]
  show "i_buf b ! (unat (i_r b) mod INPUT_BUF) = x" "pending (b\<lparr>i_r := i_r b + 1\<rparr>) = xs"
    using g(1) assms(2) by (simp_all add: pending_def)
  show e: "editing (b\<lparr>i_r := i_r b + 1\<rparr>) = editing b" by (simp add: editing_def)
  have "unat (i_w b - i_r b) \<le> unat (i_e b - i_r b)" using assms(1) by (simp add: in_ok_def)
  moreover have nz: "i_w b - i_r b \<noteq> 0" using ne by simp
  ultimately have ez: "i_e b - i_r b \<noteq> 0" using unat_nonzero [OF nz] by auto
  have "unat (i_w b - (i_r b + 1)) = unat (i_w b - i_r b) - 1" "unat (i_e b - (i_r b + 1)) = unat (i_e b - i_r b) - 1"
    using unat_minus_one_nz [OF nz] unat_minus_one_nz [OF ez] by (simp_all add: diff_diff_eq)
  then show "in_ok (b\<lparr>i_r := i_r b + 1\<rparr>)" using assms(1) e by (auto simp: in_ok_def ring_ok_def)
qed

lemma in_none: "in_ok b \<Longrightarrow> pending b = [] \<Longrightarrow> i_r b = i_w b"
  by (metis length_ring_contents list.size(3) pending_def right_minus_eq unat_eq_0)

text \<open>A loop over bytes that are neither a line end nor Control-D takes them all, up to the count.\<close>

lemma read_loop_plain:
  assumes "in_ok b" "pending b = xs @ ys" "10 \<notin> set xs" "4 \<notin> set xs" "length xs \<le> n"
  shows "\<exists>b1. in_ok b1 \<and> pending b1 = ys \<and> editing b1 = editing b \<and>
    read_loop killed target n b = (case read_loop killed target (n - length xs) b1 of (b', out, m, st) \<Rightarrow> (b', xs @ out, m, st))"
  using assms
proof (induction xs arbitrary: b n)
  case Nil
  then show ?case by (intro exI [of _ b]) simp
next
  case (Cons x xs)
  then obtain k where n: "n = Suc k" by (cases n) auto
  note g = in_get [OF Cons.prems(1), of x "xs @ ys"]
  from Cons.IH [of "b\<lparr>i_r := i_r b + 1\<rparr>" k] g Cons.prems n obtain b1 where
    "in_ok b1 \<and> pending b1 = ys \<and> editing b1 = editing b \<and> read_loop killed target k (b\<lparr>i_r := i_r b + 1\<rparr>) =
      (case read_loop killed target (k - length xs) b1 of (b', out, m, st) \<Rightarrow> (b', xs @ out, m, st))" by auto
  with g Cons.prems n show ?case by (intro exI [of _ b1]) (auto simp: Let_def split: prod.splits)
qed

lemma read_loop_line:
  assumes "in_ok b" "pending b = 10 # ys" "0 < n"
  shows "\<exists>b1. in_ok b1 \<and> pending b1 = ys \<and> editing b1 = editing b \<and> read_loop killed target n b = (b1, [10], n - 1, RDone)"
  using in_get [OF assms(1,2)] assms(3) by (cases n) (auto simp: Let_def)

definition ordinary :: "int \<Rightarrow> bool" where
  "ordinary c \<longleftrightarrow> 0 < c \<and> c < 256 \<and> c \<notin> {4, 8, 10, 13, 16, 21, 127}"

lemma fold_typed_ordinary:
  assumes "\<forall>c\<in>set cs. ordinary c" "length e + length cs < 127"
  shows "fold typed cs ([], e) = ([], e @ map of_int cs)"
  using assms
proof (induction cs arbitrary: e)
  case (Cons c cs)
  then have "typed c ([], e) = ([], e @ [of_int c])" by (auto simp: typed_def ordinary_def)
  with Cons show ?case by simp
qed simp

lemma ordinary_byte: "ordinary c \<Longrightarrow> of_int c \<noteq> (10 :: u8) \<and> of_int c \<noteq> (4 :: u8)"
proof -
  assume "ordinary c"
  then have "uint (of_int c :: u8) = c" "c \<noteq> 10" "c \<noteq> 4" by (auto simp: ordinary_def uint_word_of_int)
  then show ?thesis by auto
qed

text \<open>
  C35.  A typed line reaches the reader: with nothing readable and nothing being edited, typing fewer
  than 127 ordinary characters and Enter makes the next read of more bytes than that return, at
  once, exactly the line with its line end, and leaves the buffer empty again.
\<close>

theorem console_line_roundtrip:
  assumes "in_ok b" "screen_ok s" "lines b = ([], [])" "length cs < 127" "int (length cs) < n"
    and "\<forall>c\<in>set cs. ordinary c"
  shows "\<exists>b' s' d b''. consoleintr (cs @ [13]) b s = Inr (b', s', d, True) \<and>
    consoleread True killed n b' = Inr (b'', map of_int cs @ [10], True, Some (int (length cs) + 1)) \<and>
    in_ok b'' \<and> lines b'' = ([], [])"
proof -
  have all: "takeWhile (\<lambda>c. 0 \<le> c) (cs @ [13]) = cs @ [13]"
  proof -
    have "0 \<le> c" if "c \<in> set (cs @ [13])" for c using that assms(6) by (auto dest!: bspec [where x = c] simp: ordinary_def)
    then show ?thesis by (subst takeWhile_eq_all_conv) blast
  qed
  have "fold typed (cs @ [13]) (lines b) = (map of_int cs @ [10], [])"
    using fold_typed_ordinary [OF assms(6), of "[]"] assms(3,4) by (simp add: typed_def)
  moreover have "c < 256" if "c \<in> set (cs @ [13])" for c
    using that assms(6) by (auto dest!: bspec [where x = c] simp: ordinary_def)
  ultimately obtain b' s' d w zs where 1: "consoleintr (cs @ [13]) b s = Inr (b', s', d, w)" "in_ok b'"
    "lines b' = (map of_int cs @ [10], [])" "pending b' = pending b @ zs" "w \<longleftrightarrow> zs \<noteq> []"
    using consoleintr_lines [OF assms(1,2), of "cs @ [13]"] unfolding all by auto
  have pe: "pending b = []" "pending b' = map of_int cs @ [10]" using assms(3) 1(3) by (simp_all add: lines_def)
  have "zs = map of_int cs @ [10]" using 1(4) unfolding pe append_Nil by (rule sym)
  then have "zs \<noteq> []" by simp
  with 1(5) have w: "w" by simp
  have cs: "x \<notin> set (map of_int cs :: u8 list)" if "x = 10 \<or> x = 4" for x :: u8
  proof
    assume "x \<in> set (map of_int cs)"
    then obtain c where c: "x = of_int c" "c \<in> set cs" unfolding set_map by (rule imageE)
    then have "ordinary c" using assms(6) by blast
    then show False using ordinary_byte [of c] that unfolding c(1) [symmetric] by blast
  qed
  have n: "0 < n" "nat n - length cs > 0" "length (map of_int cs :: u8 list) \<le> nat n" using assms(5) by auto
  from read_loop_plain [OF 1(2) pe(2) cs cs n(3), of killed "nat n", simplified] obtain b1 where
    b1: "in_ok b1" "pending b1 = [10]" "editing b1 = editing b'"
    "read_loop killed (nat n) (nat n) b' = (case read_loop killed (nat n) (nat n - length cs) b1 of (b', out, m, st) \<Rightarrow> (b', map of_int cs @ out, m, st))"
    by auto
  from read_loop_line [OF b1(1,2) n(2), of killed "nat n"] obtain b2 where b2: "in_ok b2" "pending b2 = []" "editing b2 = editing b1"
    "read_loop killed (nat n) (nat n - length cs) b1 = (b2, [10], nat n - length cs - 1, RDone)" by auto
  have "n - int (nat n - length cs - 1) = int (length cs) + 1" using n by linarith
  then have "consoleread True killed n b' = Inr (b2, map of_int cs @ [10], True, Some (int (length cs) + 1))"
    using b1(4) b2(4) n(1) by (simp add: consoleread_def)
  with 1 w b1 b2 show ?thesis by (auto simp: lines_def)
qed

theorem console_line_roundtrip_witness:
  "\<exists>b' s' d b''. consoleintr [108, 115, 13] no_input blank_screen = Inr (b', s', d, True) \<and>
    consoleread True False 100 b' = Inr (b'', [108, 115, 10], True, Some 3)"
  using console_line_roundtrip [OF console_start(1,3,2), of "[108, 115]" 100 False] by (auto simp: ordinary_def)

end
