(* ===== verification/Vm.thy ===== *)
theory Vm
  imports Kalloc Proc Carray
begin

text \<open>
  Virtual memory (vm.c): two-level page tables kept in pages of the allocator.  Page directories
  and page tables are read and written in the byte memory of the allocator, at the kernel's
  addresses; an abstraction reads them back as a map from virtual pages to page table entries.
\<close>

section \<open>Addresses and entries (mmu.h)\<close>

definition PDX :: "u32 \<Rightarrow> u32" where "PDX va = drop_bit 22 va AND 0x3FF"
definition PTX :: "u32 \<Rightarrow> u32" where "PTX va = drop_bit 12 va AND 0x3FF"
definition PGADDR :: "u32 \<Rightarrow> u32 \<Rightarrow> u32 \<Rightarrow> u32" where "PGADDR d t o' = push_bit 22 d OR push_bit 12 t OR o'"
definition NPDENTRIES :: nat where "NPDENTRIES = 1024"
definition PTE_P :: u32 where "PTE_P = 1"
definition PTE_W :: u32 where "PTE_W = 2"
definition PTE_U :: u32 where "PTE_U = 4"
definition PTE_ADDR :: "u32 \<Rightarrow> u32" where "PTE_ADDR pte = pte AND NOT 0xFFF"
definition PTE_FLAGS :: "u32 \<Rightarrow> u32" where "PTE_FLAGS pte = pte AND 0xFFF"

definition rd32 :: "kmem \<Rightarrow> u32 \<Rightarrow> u32" where "rd32 k a = load32 (kmem_mem k) a"
definition wr32 :: "u32 \<Rightarrow> u32 \<Rightarrow> kmem \<Rightarrow> kmem" where "wr32 a v k = k\<lparr>kmem_mem := store32 (kmem_mem k) a v\<rparr>"
definition zero_page :: "u32 \<Rightarrow> kmem \<Rightarrow> kmem" where "zero_page a k = k\<lparr>kmem_mem := memset (kmem_mem k) a 0 PGSIZE\<rparr>"

section \<open>Walking and mapping\<close>

text \<open>walkpgdir gives the address of the page table entry, or 0.\<close>

definition walkpgdir :: "u32 \<Rightarrow> u32 \<Rightarrow> bool \<Rightarrow> kmem \<Rightarrow> u32 \<times> kmem" where
  "walkpgdir pgdir va alloc k =
     (let pde = pgdir + 4 * PDX va in
      if rd32 k pde AND PTE_P \<noteq> 0
      then (P2V (PTE_ADDR (rd32 k pde)) + 4 * PTX va, k)
      else if \<not> alloc then (0, k)
      else case kalloc k of
             (pgtab, k1) \<Rightarrow>
               if pgtab = 0 then (0, k1)
               else (pgtab + 4 * PTX va, wr32 pde (V2P pgtab OR PTE_P OR PTE_W OR PTE_U) (zero_page pgtab k1)))"

text \<open>The loop of mappages; the first argument counts the pages, and Blocked is never its result.\<close>

fun map_loop :: "nat \<Rightarrow> u32 \<Rightarrow> u32 \<Rightarrow> u32 \<Rightarrow> u32 \<Rightarrow> u32 \<Rightarrow> kmem \<Rightarrow> (int \<times> kmem) res" where
  "map_loop 0 pgdir a lst pa perm k = Inl Blocked"
| "map_loop (Suc n) pgdir a lst pa perm k =
     (case walkpgdir pgdir a True k of
        (pte, k1) \<Rightarrow>
          if pte = 0 then Inr (-1, k1)
          else if rd32 k1 pte AND PTE_P \<noteq> 0 then Inl (Panic ''remap'')
          else let k2 = wr32 pte (pa OR perm OR PTE_P) k1
               in if a = lst then Inr (0, k2)
                  else map_loop n pgdir (a + PGSIZE) lst (pa + PGSIZE) perm k2)"

definition mappages :: "u32 \<Rightarrow> u32 \<Rightarrow> u32 \<Rightarrow> u32 \<Rightarrow> u32 \<Rightarrow> kmem \<Rightarrow> (int \<times> kmem) res" where
  "mappages pgdir va sz pa perm k =
     (let a = PGROUNDDOWN va; lst = PGROUNDDOWN (va + sz - 1)
      in map_loop (Suc (unat (lst - a) div 4096)) pgdir a lst pa perm k)"

section \<open>User memory\<close>

text \<open>deallocuvm: the loop from a up to oldsz; the first argument bounds its rounds.\<close>

fun dealloc_loop :: "nat \<Rightarrow> u32 \<Rightarrow> u32 \<Rightarrow> u32 \<Rightarrow> u32 \<Rightarrow> kmem \<Rightarrow> kmem res" where
  "dealloc_loop 0 kend pgdir a oldsz k = (if a < oldsz then Inl Blocked else Inr k)"
| "dealloc_loop (Suc n) kend pgdir a oldsz k =
     (if a < oldsz
      then let pte = fst (walkpgdir pgdir a False k) in
           if pte = 0 then dealloc_loop n kend pgdir (PGADDR (PDX a + 1) 0 0 - PGSIZE + PGSIZE) oldsz k
           else if rd32 k pte AND PTE_P \<noteq> 0
           then let pa = PTE_ADDR (rd32 k pte) in
                if pa = 0 then Inl (Panic ''kfree'')
                else bindr (kfree kend (P2V pa) k) (\<lambda>k1.
                     dealloc_loop n kend pgdir (a + PGSIZE) oldsz (wr32 pte 0 k1))
           else dealloc_loop n kend pgdir (a + PGSIZE) oldsz k
      else Inr k)"

definition deallocuvm :: "u32 \<Rightarrow> u32 \<Rightarrow> u32 \<Rightarrow> u32 \<Rightarrow> kmem \<Rightarrow> (u32 \<times> kmem) res" where
  "deallocuvm kend pgdir oldsz newsz k =
     (if newsz \<ge> oldsz then Inr (oldsz, k)
      else bindr (dealloc_loop (unat oldsz div 4096 + 1) kend pgdir (PGROUNDUP newsz) oldsz k) (\<lambda>k1. Inr (newsz, k1)))"

text \<open>allocuvm: the loop from a up to newsz; a result of 0 is the failure after cleaning up.\<close>

fun alloc_loop :: "nat \<Rightarrow> u32 \<Rightarrow> u32 \<Rightarrow> u32 \<Rightarrow> u32 \<Rightarrow> u32 \<Rightarrow> kmem \<Rightarrow> (u32 \<times> kmem) res" where
  "alloc_loop 0 kend pgdir a oldsz newsz k = (if a < newsz then Inl Blocked else Inr (newsz, k))"
| "alloc_loop (Suc n) kend pgdir a oldsz newsz k =
     (if a < newsz
      then case kalloc k of
             (mem, k1) \<Rightarrow>
               if mem = 0 then bindr (deallocuvm kend pgdir newsz oldsz k1) (\<lambda>(_, k2). Inr (0, k2))
               else bindr (mappages pgdir a PGSIZE (V2P mem) (PTE_W OR PTE_U) (zero_page mem k1)) (\<lambda>(r, k2).
                    if r < 0
                    then bindr (deallocuvm kend pgdir newsz oldsz k2) (\<lambda>(_, k3).
                         bindr (kfree kend mem k3) (\<lambda>k4. Inr (0, k4)))
                    else alloc_loop n kend pgdir (a + PGSIZE) oldsz newsz k2)
      else Inr (newsz, k))"

definition allocuvm :: "u32 \<Rightarrow> u32 \<Rightarrow> u32 \<Rightarrow> u32 \<Rightarrow> kmem \<Rightarrow> (u32 \<times> kmem) res" where
  "allocuvm kend pgdir oldsz newsz k =
     (if newsz \<ge> KERNBASE then Inr (0, k)
      else if newsz < oldsz then Inr (oldsz, k)
      else alloc_loop (unat newsz div 4096 + 1) kend pgdir (PGROUNDUP oldsz) oldsz newsz k)"

definition inituvm :: "u32 \<Rightarrow> u8 list \<Rightarrow> kmem \<Rightarrow> kmem res" where
  "inituvm pgdir init k =
     (if length init \<ge> 4096 then Inl (Panic ''inituvm: more than a page'')
      else case kalloc k of
             (mem, k1) \<Rightarrow>
               if mem = 0 then Inl (Undefined ''inituvm: no memory'')
               else bindr (mappages pgdir 0 PGSIZE (V2P mem) (PTE_W OR PTE_U) (zero_page mem k1)) (\<lambda>(_, k2).
                    Inr (k2\<lparr>kmem_mem := (\<lambda>x. if unat (x - mem) < length init then init ! unat (x - mem) else kmem_mem k2 x)\<rparr>)))"

definition clearpteu :: "u32 \<Rightarrow> u32 \<Rightarrow> kmem \<Rightarrow> kmem res" where
  "clearpteu pgdir uva k =
     (let pte = fst (walkpgdir pgdir uva False k) in
      if pte = 0 then Inl (Panic ''clearpteu'') else Inr (wr32 pte (rd32 k pte AND NOT PTE_U) k))"

text \<open>uva2ka reads through the entry without looking whether there is one.\<close>

definition uva2ka :: "u32 \<Rightarrow> u32 \<Rightarrow> kmem \<Rightarrow> u32 res" where
  "uva2ka pgdir uva k =
     (let pte = fst (walkpgdir pgdir uva False k) in
      if pte = 0 then Inl (Undefined ''uva2ka: null entry'')
      else if rd32 k pte AND PTE_P = 0 then Inr 0
      else if rd32 k pte AND PTE_U = 0 then Inr 0
      else Inr (P2V (PTE_ADDR (rd32 k pte))))"

lemma page_offset: "unat (va - PGROUNDDOWN va) = unat va mod 4096"
proof -
  have "unat va div 4096 * 4096 \<le> unat va" by simp
  then have "PGROUNDDOWN va \<le> va" by (simp add: word_le_nat_alt unat_PGROUNDDOWN)
  then show ?thesis by (simp add: unat_sub unat_PGROUNDDOWN word_le_nat_alt minus_div_mult_eq_mod)
qed

lemma page_rest: "unat (PGSIZE - (va - PGROUNDDOWN va)) = 4096 - unat va mod 4096"
  by (subst unat_sub) (simp_all add: page_offset word_le_nat_alt PGSIZE_def less_imp_le)

function copyout :: "u32 \<Rightarrow> u32 \<Rightarrow> u32 \<Rightarrow> u32 \<Rightarrow> kmem \<Rightarrow> (int \<times> kmem) res" where
  "copyout pgdir va p len k =
     (if len > 0
      then let va0 = PGROUNDDOWN va in
           bindr (uva2ka pgdir va0 k) (\<lambda>pa0.
             if pa0 = 0 then Inr (-1, k)
             else let n = PGSIZE - (va - va0); n = (if n > len then len else n)
                  in copyout pgdir (va0 + PGSIZE) (p + n) (len - n)
                       (k\<lparr>kmem_mem := memmove (kmem_mem k) (pa0 + (va - va0)) p n\<rparr>))
      else Inr (0, k))"
  by auto
termination
proof (relation "measure (\<lambda>(pgdir, va, p, len, k). unat len)", goal_cases)
  case (2 pgdir va p len k va0 pa0 n n')
  have "0 < unat n" using page_rest [of va] 2 by (simp add: less_le_trans [OF mod_less_divisor])
  moreover have "unat n' \<le> unat len" "0 < unat n'" using 2 calculation by (auto simp: word_less_nat_alt not_less)
  ultimately show ?case by (simp add: unat_sub word_le_nat_alt)
qed simp

declare copyout.simps [simp del]

section \<open>Whole address spaces\<close>

record shared_mem =
  s_name :: "u8 list"
  s_pa :: u32
  s_refcount :: u32
  s_in_use :: bool
  s_container_id :: u32

text \<open>The caller's shared pages are recognised by their physical address; the result is the entry's va.\<close>

definition shm_at :: "u32 \<Rightarrow> shmem list \<Rightarrow> shared_mem list \<Rightarrow> u32 option res" where
  "shm_at pa slots shl =
     foldr (\<lambda>h rest. if sh_in_use h
                     then (case sh_global h of
                             None \<Rightarrow> Inl (Undefined ''global_ptr'')
                           | Some g \<Rightarrow> if pa = s_pa (shl ! g) then Inr (Some (sh_va h)) else rest)
                     else rest) slots (Inr None)"

text \<open>strncmp(name, "cm", strlen(name)) == 0: the test for the container manager.\<close>

definition is_cm :: "u8 list \<Rightarrow> bool res" where
  "is_cm name = bindr (strlen_arr name) (\<lambda>n. bindr (strncmp_arr name (bytes_of ''cm'' @ [0]) n) (\<lambda>r. Inr (r = 0)))"

fun free_tables :: "nat list \<Rightarrow> u32 \<Rightarrow> shmem list \<Rightarrow> shared_mem list \<Rightarrow> u32 \<Rightarrow> kmem \<Rightarrow> kmem res" where
  "free_tables [] kend slots shl pgdir k = Inr k"
| "free_tables (i # is) kend slots shl pgdir k =
     (let pde = rd32 k (pgdir + 4 * of_nat i) in
      if pde AND PTE_P \<noteq> 0
      then bindr (shm_at (PTE_ADDR pde) slots shl) (\<lambda>sh.
           bindr (if sh = None then kfree kend (P2V (PTE_ADDR pde)) k else Inr k)
             (free_tables is kend slots shl pgdir))
      else free_tables is kend slots shl pgdir k)"

definition freevm :: "u32 \<Rightarrow> shmem list \<Rightarrow> shared_mem list \<Rightarrow> u32 \<Rightarrow> kmem \<Rightarrow> kmem res" where
  "freevm kend slots shl pgdir k =
     (if pgdir = 0 then Inl (Panic ''freevm: no pgdir'')
      else bindr (deallocuvm kend pgdir KERNBASE 0 k) (\<lambda>(_, k1).
           bindr (free_tables [0..<NPDENTRIES] kend slots shl pgdir k1) (kfree kend pgdir)))"

text \<open>The kernel's mappings: virtual address, physical range, permissions; kdata is the linker's symbol data.\<close>

definition kmap :: "u32 \<Rightarrow> (u32 \<times> u32 \<times> u32 \<times> u32) list" where
  "kmap kdata = [(KERNBASE, 0, EXTMEM, PTE_W), (KERNLINK, V2P KERNLINK, V2P kdata, 0), (kdata, V2P kdata, PHYSTOP, PTE_W),
                 (DEVSPACE, DEVSPACE, 0, PTE_W)]"

fun map_kernel :: "(u32 \<times> u32 \<times> u32 \<times> u32) list \<Rightarrow> u32 \<Rightarrow> kmem \<Rightarrow> (bool \<times> kmem) res" where
  "map_kernel [] pgdir k = Inr (True, k)"
| "map_kernel ((virt, s, e, perm) # ms) pgdir k =
     bindr (mappages pgdir virt (e - s) s perm k) (\<lambda>(r, k1). if r < 0 then Inr (False, k1) else map_kernel ms pgdir k1)"

definition setupkvm :: "u32 \<Rightarrow> u32 \<Rightarrow> shmem list \<Rightarrow> shared_mem list \<Rightarrow> kmem \<Rightarrow> (u32 \<times> kmem) res" where
  "setupkvm kdata kend slots shl k =
     (case kalloc k of
        (pgdir, k1) \<Rightarrow>
          if pgdir = 0 then Inr (0, k1)
          else if P2V PHYSTOP > DEVSPACE then Inl (Panic ''PHYSTOP too high'')
          else bindr (map_kernel (kmap kdata) pgdir (zero_page pgdir k1)) (\<lambda>(done, k2).
               if done then Inr (pgdir, k2)
               else bindr (freevm kend slots shl pgdir k2) (\<lambda>k3. Inr (0, k3))))"

text \<open>
  copyuvm: the loop over the parent's pages.  is_shmem and va are the variables of those names,
  which live across rounds; the result says whether the loop reached its end.
\<close>

fun copy_loop :: "nat \<Rightarrow> proc \<Rightarrow> shared_mem list \<Rightarrow> u32 \<Rightarrow> u32 \<Rightarrow> u32 \<Rightarrow> u32 \<Rightarrow> bool \<Rightarrow> u32 \<Rightarrow> kmem \<Rightarrow> (bool \<times> kmem) res" where
  "copy_loop 0 p shl pgdir d i sz is_shmem va k = (if i < sz then Inl Blocked else Inr (True, k))"
| "copy_loop (Suc n) p shl pgdir d i sz is_shmem va k =
     (if i < sz
      then let pte = fst (walkpgdir pgdir i False k) in
           if pte = 0 then Inl (Panic ''copyuvm: pte should exist'')
           else if rd32 k pte AND PTE_P = 0 then Inl (Panic ''copyuvm: page not present'')
           else let pa = PTE_ADDR (rd32 k pte); flags = PTE_FLAGS (rd32 k pte) in
                bindr (shm_at pa (p_shm p) shl) (\<lambda>sh.
                  let (is_shmem, va) = (case sh of Some v \<Rightarrow> (True, v) | None \<Rightarrow> (is_shmem, va)) in
                  if \<not> is_shmem
                  then case kalloc k of
                         (mem, k1) \<Rightarrow>
                           if mem = 0 then Inr (False, k1)
                           else bindr (mappages d i PGSIZE (V2P mem) flags (k1\<lparr>kmem_mem := memmove (kmem_mem k1) mem (P2V pa) PGSIZE\<rparr>)) (\<lambda>(r, k2).
                                if r < 0 then Inr (False, k2)
                                else copy_loop n p shl pgdir d (i + PGSIZE) sz is_shmem va k2)
                  else bindr (is_cm (p_name p)) (\<lambda>cm.
                       if \<not> cm
                       then bindr (mappages d va PGSIZE pa flags k) (\<lambda>(_, k1). copy_loop n p shl pgdir d (i + PGSIZE) sz False va k1)
                       else copy_loop n p shl pgdir d (i + PGSIZE) sz is_shmem va k))
      else Inr (True, k))"

definition copyuvm :: "u32 \<Rightarrow> u32 \<Rightarrow> proc \<Rightarrow> shared_mem list \<Rightarrow> u32 \<Rightarrow> u32 \<Rightarrow> kmem \<Rightarrow> (u32 \<times> kmem) res" where
  "copyuvm kdata kend p shl pgdir sz k =
     bindr (setupkvm kdata kend (p_shm p) shl k) (\<lambda>(d, k1).
       if d = 0 then Inr (0, k1)
       else bindr (copy_loop (unat sz div 4096 + 1) p shl pgdir d 0 sz False 0 k1) (\<lambda>(done, k2).
            if done then Inr (d, k2)
            else bindr (freevm kend (p_shm p) shl d k2) (\<lambda>k3. Inr (0, k3))))"

section \<open>Words in pages\<close>

definition page_same :: "u32 \<Rightarrow> kmem \<Rightarrow> kmem \<Rightarrow> bool" where
  "page_same p k k' \<longleftrightarrow> (\<forall>a. page_of a = p \<longrightarrow> kmem_mem k' a = kmem_mem k a)"

lemma page_same_refl [simp]: "page_same p k k"
  by (simp add: page_same_def)

lemma page_same_trans: "page_same p k1 k2 \<Longrightarrow> page_same p k2 k3 \<Longrightarrow> page_same p k1 k3"
  by (simp add: page_same_def)

lemma slot_unat:
  assumes "unat p mod 4096 = 0" "i < 1024"
  shows "unat (p + 4 * i :: u32) = unat p + 4 * unat i"
proof -
  have i: "unat i < 1024" using assms(2) by (simp add: word_less_nat_alt)
  then have "unat (4 * i) = 4 * unat i" by (simp add: unat_word_ariths)
  then show ?thesis using page_top [OF assms(1)] i unat_add_small [of p "4 * unat i"] by (simp add: unat_word_ariths)
qed

lemma slot_aligned4: "unat p mod 4096 = 0 \<Longrightarrow> i < 1024 \<Longrightarrow> aligned4 (p + 4 * i)"
  unfolding aligned4_def by (subst slot_unat) (auto elim!: page_numberE)

lemma slot_page:
  assumes "unat p mod 4096 = 0" "i < 1024" "b < 4"
  shows "page_of (p + 4 * i + of_nat b) = p"
proof -
  have "unat i < 1024" using assms(2) by (simp add: word_less_nat_alt)
  with assms(3) have "4 * unat i + b < 4096" by simp
  from page_of_offset [OF assms(1) this] show ?thesis by (simp add: add.assoc)
qed

lemma slot_eq:
  fixes p q i j :: u32
  assumes "unat p mod 4096 = 0" "i < 1024" "unat q mod 4096 = 0" "j < 1024"
  shows "p + 4 * i = q + 4 * j \<longleftrightarrow> p = q \<and> i = j"
proof
  assume eq: "p + 4 * i = q + 4 * j"
  then have "p = q" using slot_page [OF assms(1,2), of 0] slot_page [OF assms(3,4), of 0] by simp
  moreover from eq have "unat (p + 4 * i) = unat (q + 4 * j)" by simp
  ultimately show "p = q \<and> i = j" using slot_unat [OF assms(1,2)] slot_unat [OF assms(3,4)] by (simp add: word_unat_eq_iff)
qed simp

lemma slot_nonzero: "page_ok kend p \<Longrightarrow> i < 1024 \<Longrightarrow> p + 4 * i \<noteq> 0"
  using slot_unat [of p i] unat_eq_0 page_ok_nonzero by (metis add_is_0 page_ok_def)

lemma rd32_same:
  assumes "unat p mod 4096 = 0" "i < 1024" "page_same p k k'"
  shows "rd32 k' (p + 4 * i) = rd32 k (p + 4 * i)"
  unfolding rd32_def using assms(3) slot_page [OF assms(1,2)] by (intro load32_cong) (auto simp: page_same_def)

lemma wr32_same:
  assumes "unat p mod 4096 = 0" "i < 1024" "q \<noteq> p"
  shows "page_same q k (wr32 (p + 4 * i) v k)"
  unfolding page_same_def wr32_def using assms slot_page [OF assms(1,2)] by (auto intro!: store32_apply)

lemma rd32_wr32:
  assumes "unat p mod 4096 = 0" "i < 1024" "unat q mod 4096 = 0" "j < 1024"
  shows "rd32 (wr32 (p + 4 * i) v k) (q + 4 * j) = (if p = q \<and> i = j then v else rd32 k (q + 4 * j))"
  using slot_eq [OF assms] slot_aligned4 [OF assms(1,2)] slot_aligned4 [OF assms(3,4)]
  by (auto simp: rd32_def wr32_def)

lemma freelist_wr32 [simp]: "freelist (wr32 a v k) = freelist k" "freelist (zero_page p k) = freelist k"
  by (simp_all add: wr32_def zero_page_def)

lemma kmem_inv_frame:
  assumes "kmem_inv kend k xs" "freelist k' = freelist k" "\<And>x. x \<in> set xs \<Longrightarrow> page_same x k k'"
  shows "kmem_inv kend k' xs"
proof -
  have "chain (kmem_mem k') (freelist k) xs = chain (kmem_mem k) (freelist k) xs"
  proof (rule chain_frame)
    fix x i assume x: "x \<in> set xs" "i < (4 :: nat)"
    then have "unat x mod 4096 = 0" using assms(1) by (simp add: kmem_inv_def page_ok_def)
    with x(2) have "page_of (x + of_nat i) = x" by (intro page_of_offset) auto
    with assms(3) [OF x(1)] show "kmem_mem k' (x + of_nat i) = kmem_mem k (x + of_nat i)" by (simp add: page_same_def)
  qed
  with assms(1,2) show ?thesis by (simp add: kmem_inv_def)
qed

lemma in_range_page: "unat p mod 4096 = 0 \<Longrightarrow> in_range p 4096 a \<longleftrightarrow> page_of a = p"
proof
  assume p: "unat p mod 4096 = 0" and r: "in_range p 4096 a"
  then have "page_of (p + of_nat (unat (a - p))) = p" by (intro page_of_offset) (simp_all add: in_range_def)
  then show "page_of a = p" by simp
next
  assume "page_of a = p"
  then have "p = PGROUNDDOWN a" by (simp add: page_of_def)
  then show "in_range p 4096 a" by (simp add: in_range_def page_offset)
qed

lemma zero_page_mem:
  "unat p mod 4096 = 0 \<Longrightarrow> kmem_mem (zero_page p k) a = (if page_of a = p then 0 else kmem_mem k a)"
  by (simp add: zero_page_def memset_spec PGSIZE_def in_range_page)

lemma zero_page_same: "unat p mod 4096 = 0 \<Longrightarrow> q \<noteq> p \<Longrightarrow> page_same q k (zero_page p k)"
  by (simp add: page_same_def zero_page_mem)

lemma rd32_zero_page:
  assumes "unat p mod 4096 = 0" "i < 1024"
  shows "rd32 (zero_page p k) (p + 4 * i) = 0"
proof -
  have "kmem_mem (zero_page p k) (p + 4 * i + of_nat b) = 0" if "b < 4" for b
    using slot_page [OF assms that] by (simp add: zero_page_mem assms(1))
  from this [of 0] this [of 1] this [of 2] this [of 3] show ?thesis by (simp add: rd32_def load32_def)
qed

section \<open>Page tables as maps\<close>

definition pde :: "kmem \<Rightarrow> u32 \<Rightarrow> u32 \<Rightarrow> u32" where "pde k d i = rd32 k (d + 4 * i)"
definition has_tab :: "kmem \<Rightarrow> u32 \<Rightarrow> u32 \<Rightarrow> bool" where "has_tab k d i \<longleftrightarrow> pde k d i AND PTE_P \<noteq> 0"
definition tab_page :: "kmem \<Rightarrow> u32 \<Rightarrow> u32 \<Rightarrow> u32" where "tab_page k d i = P2V (PTE_ADDR (pde k d i))"

text \<open>The page table entry of an address; an address without a page table has the entry 0.\<close>

definition pt_entry :: "kmem \<Rightarrow> u32 \<Rightarrow> u32 \<Rightarrow> u32" where
  "pt_entry k d va = (if has_tab k d (PDX va) then rd32 k (tab_page k d (PDX va) + 4 * PTX va) else 0)"

definition pgt_inv :: "u32 \<Rightarrow> kmem \<Rightarrow> u32 list \<Rightarrow> u32 \<Rightarrow> bool" where
  "pgt_inv kend k xs d \<longleftrightarrow> kmem_inv kend k xs \<and> page_ok kend d \<and> d \<notin> set xs \<and>
     (\<forall>i<1024. has_tab k d i \<longrightarrow> page_ok kend (tab_page k d i) \<and> tab_page k d i \<notin> set xs \<and> tab_page k d i \<noteq> d) \<and>
     (\<forall>i<1024. \<forall>j<1024. has_tab k d i \<and> has_tab k d j \<and> tab_page k d i = tab_page k d j \<longrightarrow> i = j)"

lemma mask10: "(0x3FF :: u32) = mask 10"
  by (simp add: mask_eq_exp_minus_1)

lemma idx_less [simp]: "PDX va < 1024" "PTX va < 1024"
proof -
  have "(x :: u32) AND 0x3FF < 1024" for x
    using and_mask_less_size [of 10 x] by (simp add: mask10 word_size)
  then show "PDX va < 1024" "PTX va < 1024" by (simp_all add: PDX_def PTX_def)
qed

lemma page_of_bits: "page_of va = page_of va' \<longleftrightarrow> drop_bit 12 va = drop_bit 12 (va' :: u32)"
proof
  assume "page_of va = page_of va'"
  then have "drop_bit 12 (push_bit 12 (drop_bit 12 va)) = drop_bit 12 (push_bit 12 (drop_bit 12 va'))"
    by (simp add: page_of_def PGROUNDDOWN_bits)
  moreover have "drop_bit 12 (push_bit 12 (drop_bit 12 x)) = drop_bit 12 x" for x :: u32
    by (rule bit_word_eqI) (auto simp: bit_simps dest: bit_imp_le_length)
  ultimately show "drop_bit 12 va = drop_bit 12 va'" by simp
qed (simp add: page_of_def PGROUNDDOWN_bits)

lemma same_index: "PDX va = PDX va' \<and> PTX va = PTX va' \<longleftrightarrow> page_of va = page_of va'"
proof
  assume eq: "PDX va = PDX va' \<and> PTX va = PTX va'"
  have "drop_bit 12 x = push_bit 10 (PDX x) OR PTX x" for x :: u32
    unfolding PDX_def PTX_def mask10
    by (rule bit_word_eqI) (auto simp: bit_simps not_less dest: bit_imp_le_length)
  with eq show "page_of va = page_of va'" unfolding page_of_bits by simp
next
  assume "page_of va = page_of va'"
  then have "drop_bit 12 va = drop_bit 12 va'" by (simp add: page_of_bits)
  moreover have "drop_bit 22 x = drop_bit 10 (drop_bit 12 x)" for x :: u32 by simp
  ultimately show "PDX va = PDX va' \<and> PTX va = PTX va'" unfolding PDX_def PTX_def by metis
qed

lemma mask12: "(0xFFF :: u32) = mask 12"
  by (simp add: mask_eq_exp_minus_1)

lemma page_low_bits: "unat (x :: u32) mod 4096 = 0 \<Longrightarrow> n < 12 \<Longrightarrow> \<not> bit x n"
proof -
  assume "unat x mod 4096 = 0" "n < 12"
  then have "unat (take_bit 12 x) = 0" by (simp add: unsigned_take_bit_eq) (simp add: take_bit_eq_mod)
  then have "take_bit 12 x = 0" by (simp add: unat_eq_0)
  then have "\<not> bit (take_bit 12 x) n" by simp
  with \<open>n < 12\<close> show ?thesis by (simp add: bit_take_bit_iff)
qed

lemma flag_high_bits: "(f :: u32) < 4096 \<Longrightarrow> bit f n \<Longrightarrow> n < 12"
proof -
  assume f: "f < 4096" "bit f n"
  then have "f = f AND mask 12" using less_mask_eq [of f 12] by simp
  with f(2) show "n < 12" by (metis bit_and_iff bit_mask_iff)
qed

lemma pte_split:
  assumes "unat x mod 4096 = 0" "f < 4096"
  shows "PTE_ADDR (x OR f) = x" "PTE_FLAGS (x OR f) = f"
proof -
  have b: "bit (PTE_ADDR (x OR f)) n = bit x n" "bit (PTE_FLAGS (x OR f)) n = bit f n" if "n < 32" for n
    using that page_low_bits [OF assms(1), of n] flag_high_bits [OF assms(2), of n]
    unfolding PTE_ADDR_def PTE_FLAGS_def mask12 by (cases "n < 12"; auto simp: bit_simps)+
  show "PTE_ADDR (x OR f) = x" "PTE_FLAGS (x OR f) = f" by (rule bit_word_eqI, rule b, simp)+
qed

lemma V2P_P2V [simp]: "P2V (V2P x) = x" "V2P (P2V x) = x"
  by (simp_all add: P2V_def V2P_def)

lemma V2P_aligned: "unat x mod 4096 = 0 \<Longrightarrow> unat (V2P x) mod 4096 = 0"
  unfolding V2P_def KERNBASE_def by (auto simp: unat_sub_if' elim!: page_numberE)

lemma new_pde:
  assumes "unat x mod 4096 = 0"
  defines "e \<equiv> V2P x OR PTE_P OR PTE_W OR PTE_U"
  shows "e AND PTE_P \<noteq> 0" "P2V (PTE_ADDR e) = x"
proof -
  have e: "e = V2P x OR 7" by (simp add: e_def PTE_P_def PTE_W_def PTE_U_def or.assoc)
  show "P2V (PTE_ADDR e) = x" using pte_split(1) [OF V2P_aligned [OF assms(1)], of 7] by (simp add: e)
  have "bit e 0" by (simp add: e bit_simps)
  then show "e AND PTE_P \<noteq> 0" by (simp add: PTE_P_def and_one_eq bit_0 odd_iff_mod_2_eq_one)
qed

lemma walk_find: "walkpgdir d va False k = (if has_tab k d (PDX va) then tab_page k d (PDX va) + 4 * PTX va else 0, k)"
  by (simp add: walkpgdir_def has_tab_def pde_def tab_page_def Let_def)

lemma pgt_pages:
  assumes "pgt_inv kend k xs d"
  shows "unat d mod 4096 = 0" and "i < 1024 \<Longrightarrow> has_tab k d i \<Longrightarrow> unat (tab_page k d i) mod 4096 = 0"
  using assms by (auto simp: pgt_inv_def page_ok_def)

lemma pt_entry_frame:
  assumes "pgt_inv kend k xs d" "page_same d k k'" "\<And>i. i < 1024 \<Longrightarrow> has_tab k d i \<Longrightarrow> page_same (tab_page k d i) k k'"
  shows "i < 1024 \<Longrightarrow> pde k' d i = pde k d i" and "pt_entry k' d va = pt_entry k d va"
proof -
  show p: "pde k' d i = pde k d i" if "i < 1024" for i
    unfolding pde_def using rd32_same [OF pgt_pages(1) [OF assms(1)] that assms(2)] .
  then have "has_tab k' d (PDX va) = has_tab k d (PDX va)" "tab_page k' d (PDX va) = tab_page k d (PDX va)"
    by (simp_all add: has_tab_def tab_page_def)
  then show "pt_entry k' d va = pt_entry k d va"
    using rd32_same [OF pgt_pages(2) [OF assms(1)] _ assms(3), of "PDX va" "PTX va"] by (simp add: pt_entry_def)
qed

lemma pgt_inv_frame:
  assumes "pgt_inv kend k xs d" "kmem_inv kend k' ys" "set ys \<subseteq> set xs \<union> N" "\<And>i. i < 1024 \<Longrightarrow> pde k' d i = pde k d i"
    and "d \<notin> N" "\<And>i. i < 1024 \<Longrightarrow> has_tab k d i \<Longrightarrow> tab_page k d i \<notin> N"
  shows "pgt_inv kend k' ys d"
proof -
  have eq: "has_tab k' d i = has_tab k d i" "tab_page k' d i = tab_page k d i" if "i < 1024" for i
    using assms(4) [OF that] by (simp_all add: has_tab_def tab_page_def)
  have sub: "p \<notin> set ys" if "p \<notin> set xs" "p \<notin> N" for p using assms(3) that by blast
  show ?thesis using assms(1,2,5,6) unfolding pgt_inv_def by (auto simp: eq intro: sub dest: sub)
qed

text \<open>Walking with allocation: the table is there, the memory is full, or a new table appears.\<close>

lemma walk_alloc_cases:
  assumes inv: "pgt_inv kend k xs d"
  obtains (present) "has_tab k d (PDX va)" "walkpgdir d va True k = (tab_page k d (PDX va) + 4 * PTX va, k)"
  | (full) "\<not> has_tab k d (PDX va)" "xs = []" "walkpgdir d va True k = (0, k)"
  | (fresh) x ys k' where "\<not> has_tab k d (PDX va)" "xs = x # ys" "walkpgdir d va True k = (x + 4 * PTX va, k')"
      "pgt_inv kend k' ys d" "has_tab k' d (PDX va)" "tab_page k' d (PDX va) = x"
      "\<And>va'. pt_entry k' d va' = pt_entry k d va'" "\<And>p. p \<noteq> d \<Longrightarrow> p \<noteq> x \<Longrightarrow> page_same p k k'"
      "\<And>i. i < 1024 \<Longrightarrow> i \<noteq> PDX va \<Longrightarrow> pde k' d i = pde k d i"
proof (cases "has_tab k d (PDX va)")
  case True
  then have "walkpgdir d va True k = (tab_page k d (PDX va) + 4 * PTX va, k)"
    by (simp add: walkpgdir_def has_tab_def pde_def tab_page_def Let_def)
  with True show ?thesis by (rule present)
next
  case False
  note ki = inv [unfolded pgt_inv_def, THEN conjunct1]
  show ?thesis
  proof (cases xs)
    case Nil
    then have "walkpgdir d va True k = (0, k)"
      using False ki by (simp add: walkpgdir_def has_tab_def pde_def Let_def kmem_inv_alloc_none)
    with False Nil show ?thesis by (rule full)
  next
    case (Cons x ys)
    then obtain k1 where k1: "kalloc k = (x, k1)" "kmem_inv kend k1 ys" "kmem_mem k1 = kmem_mem k"
      using ki kmem_inv_alloc by blast
    have x: "page_ok kend x" "x \<notin> set ys" using ki Cons by (auto simp: kmem_inv_def)
    then have x0: "x \<noteq> 0" by (blast dest: page_ok_nonzero)
    have xa: "unat x mod 4096 = 0" using x by (simp add: page_ok_def)
    have da: "unat d mod 4096 = 0" by (rule pgt_pages(1) [OF inv])
    have dx: "d \<noteq> x" "d \<notin> set ys" using inv Cons by (auto simp: pgt_inv_def)
    define e where "e = V2P x OR PTE_P OR PTE_W OR PTE_U"
    define k' where "k' = wr32 (d + 4 * PDX va) e (zero_page x k1)"
    have w: "walkpgdir d va True k = (x + 4 * PTX va, k')"
      using False k1(1) x0 by (simp add: walkpgdir_def has_tab_def pde_def Let_def k'_def e_def)
    have same: "page_same p k k'" if "p \<noteq> d" "p \<noteq> x" for p
    proof -
      have "page_same p k k1" by (simp add: page_same_def k1(3))
      moreover have "page_same p k1 (zero_page x k1)" by (rule zero_page_same [OF xa that(2)])
      moreover have "page_same p (zero_page x k1) k'" unfolding k'_def by (rule wr32_same [OF da _ that(1)]) simp
      ultimately show ?thesis by (blast intro: page_same_trans)
    qed
    have dsame: "rd32 (zero_page x k1) (d + 4 * i) = rd32 k (d + 4 * i)" if "i < 1024" for i
      using rd32_same [OF da that zero_page_same [OF xa dx(1), of k1]] by (simp add: rd32_def k1(3))
    have pd: "pde k' d i = (if i = PDX va then e else pde k d i)" if "i < 1024" for i
      using that by (simp add: pde_def k'_def rd32_wr32 [OF da _ da] dsame)
    note ne = new_pde [OF xa, folded e_def]
    have tabs: "has_tab k' d (PDX va)" "tab_page k' d (PDX va) = x" using pd [of "PDX va"] ne by (simp_all add: has_tab_def tab_page_def)
    have old: "has_tab k' d i = has_tab k d i" "tab_page k' d i = tab_page k d i" if "i < 1024" "i \<noteq> PDX va" for i
      using pd [OF that(1)] that(2) by (simp_all add: has_tab_def tab_page_def)
    have ox: "tab_page k d i \<noteq> x" "tab_page k d i \<notin> set ys" "tab_page k d i \<noteq> d" if "i < 1024" "has_tab k d i" for i
      using inv Cons that by (auto simp: pgt_inv_def)
    have "kmem_inv kend k' ys"
    proof (rule kmem_inv_frame [OF k1(2)])
      show "freelist k' = freelist k1" by (simp add: k'_def)
      fix y assume "y \<in> set ys"
      then have "y \<noteq> d" "y \<noteq> x" using dx(2) x(2) by auto
      from same [OF this] show "page_same y k1 k'" by (simp add: page_same_def k1(3))
    qed
    moreover have "i = j" if "i < 1024" "j < 1024" "has_tab k' d i" "has_tab k' d j" "tab_page k' d i = tab_page k' d j" for i j
    proof (cases "i = PDX va"; cases "j = PDX va")
      assume "i \<noteq> PDX va" "j \<noteq> PDX va"
      with that old inv show ?thesis by (auto simp: pgt_inv_def)
    qed (use that tabs old ox in auto)
    moreover have "page_ok kend (tab_page k' d i) \<and> tab_page k' d i \<notin> set ys \<and> tab_page k' d i \<noteq> d" if "i < 1024" "has_tab k' d i" for i
    proof (cases "i = PDX va")
      case True
      with tabs x dx show ?thesis by simp
    next
      case False
      with that old inv ox show ?thesis by (auto simp: pgt_inv_def)
    qed
    ultimately have inv': "pgt_inv kend k' ys d" using inv dx(2) by (auto simp: pgt_inv_def)
    have "pt_entry k' d va' = pt_entry k d va'" for va'
    proof (cases "PDX va' = PDX va")
      case True
      have "rd32 k' (x + 4 * PTX va') = rd32 (zero_page x k1) (x + 4 * PTX va')"
        unfolding k'_def using dx(1) by (simp add: rd32_wr32 [OF da _ xa])
      then show ?thesis using True False tabs by (simp add: pt_entry_def rd32_zero_page [OF xa])
    next
      case False
      then have o: "has_tab k' d (PDX va') = has_tab k d (PDX va')" "tab_page k' d (PDX va') = tab_page k d (PDX va')"
        using old by simp_all
      show ?thesis
      proof (cases "has_tab k d (PDX va')")
        case True
        with same [OF ox(3,1)] show ?thesis using rd32_same [OF pgt_pages(2) [OF inv _ True] idx_less(2)] o by (simp add: pt_entry_def)
      qed (simp add: o pt_entry_def)
    qed
    with fresh [OF False Cons w inv' tabs] same pd show ?thesis by simp
  qed
qed

lemma set_entry:
  fixes v :: u32
  assumes inv: "pgt_inv kend k xs d" and t: "has_tab k d (PDX va)"
  defines "k' \<equiv> wr32 (tab_page k d (PDX va) + 4 * PTX va) v k"
  shows "pgt_inv kend k' xs d" and "pt_entry k' d va' = (if page_of va' = page_of va then v else pt_entry k d va')"
    and "p \<noteq> tab_page k d (PDX va) \<Longrightarrow> page_same p k k'" and "i < 1024 \<Longrightarrow> pde k' d i = pde k d i"
proof -
  let ?t = "tab_page k d (PDX va)"
  have ta: "unat ?t mod 4096 = 0" by (rule pgt_pages(2) [OF inv _ t]) simp
  have tp: "?t \<notin> set xs" "?t \<noteq> d" using inv t by (auto simp: pgt_inv_def)
  show same: "page_same p k k'" if "p \<noteq> ?t" for p unfolding k'_def by (rule wr32_same [OF ta _ that]) simp
  show pd: "pde k' d i = pde k d i" if "i < 1024" for i
    unfolding pde_def by (rule rd32_same [OF pgt_pages(1) [OF inv] that same]) (use tp in simp)
  have "kmem_inv kend k' xs"
  proof (rule kmem_inv_frame [OF inv [unfolded pgt_inv_def, THEN conjunct1]])
    show "page_same x k k'" if "x \<in> set xs" for x by (rule same) (use that tp in blast)
  qed (simp add: k'_def)
  then show "pgt_inv kend k' xs d" by (rule pgt_inv_frame [OF inv, where N = "{}"]) (use pd in auto)
  have h: "has_tab k' d (PDX va') = has_tab k d (PDX va')" "tab_page k' d (PDX va') = tab_page k d (PDX va')"
    using pd [of "PDX va'"] by (simp_all add: has_tab_def tab_page_def)
  show "pt_entry k' d va' = (if page_of va' = page_of va then v else pt_entry k d va')"
  proof (cases "has_tab k d (PDX va')")
    case True
    have ta': "unat (tab_page k d (PDX va')) mod 4096 = 0" by (rule pgt_pages(2) [OF inv _ True]) simp
    have inj: "\<forall>i<1024. \<forall>j<1024. has_tab k d i \<and> has_tab k d j \<and> tab_page k d i = tab_page k d j \<longrightarrow> i = j"
      using inv by (simp add: pgt_inv_def)
    have "tab_page k d (PDX va') = ?t \<longleftrightarrow> PDX va' = PDX va"
      using inj [rule_format, of "PDX va'" "PDX va"] True t by auto
    then have "?t = tab_page k d (PDX va') \<and> PTX va = PTX va' \<longleftrightarrow> page_of va' = page_of va" using same_index [of va' va] by metis
    then show ?thesis using True by (simp add: pt_entry_def h) (simp add: k'_def rd32_wr32 [OF ta _ ta'])
  next
    case False
    then have "page_of va' \<noteq> page_of va" using t same_index [of va' va] by auto
    with False show ?thesis by (simp add: pt_entry_def h)
  qed
qed

section \<open>mappages\<close>

text \<open>The m pages from the page-aligned address a.\<close>

definition in_pages :: "u32 \<Rightarrow> nat \<Rightarrow> u32 \<Rightarrow> bool" where
  "in_pages a m va \<longleftrightarrow> unat a \<le> unat va \<and> unat va < unat a + 4096 * m"

lemma in_pages_0 [simp]: "\<not> in_pages a 0 va"
  by (simp add: in_pages_def)

lemma in_pages_Suc:
  assumes "unat a mod 4096 = 0" "unat a + 4096 < 2 ^ 32"
  shows "in_pages a (Suc m) va \<longleftrightarrow> page_of va = a \<or> in_pages (a + 4096) m va"
proof -
  have "page_of va = a \<longleftrightarrow> unat a \<le> unat va \<and> unat va < unat a + 4096"
    using in_range_page [OF assms(1), of va] in_range_add [OF page_top [OF assms(1)], of va] by auto
  moreover have "unat (a + 4096) = unat a + 4096" using unat_add_small [of a 4096] assms(2) by simp
  ultimately show ?thesis by (auto simp: in_pages_def)
qed

text \<open>A page table that differs from another by m mappings from a to pa.\<close>

definition mapped :: "(u32 \<Rightarrow> u32) \<Rightarrow> u32 \<Rightarrow> nat \<Rightarrow> u32 \<Rightarrow> u32 \<Rightarrow> (u32 \<Rightarrow> u32) \<Rightarrow> bool" where
  "mapped f a m pa perm f' \<longleftrightarrow>
     (\<forall>va. f' va = (if in_pages a m va then (pa + PGROUNDDOWN (va - a)) OR perm OR PTE_P else f va))"

lemma round_in_page: "unat a mod 4096 = 0 \<Longrightarrow> page_of va = a \<Longrightarrow> PGROUNDDOWN (va - a) = 0"
proof -
  assume "unat a mod 4096 = 0" "page_of va = a"
  then have "unat (va - a) < 4096" using in_range_page [of a va] by (simp add: in_range_def)
  then have "unat (PGROUNDDOWN (va - a)) = 0" by (simp add: unat_PGROUNDDOWN)
  then show ?thesis by (simp add: unat_eq_0)
qed

lemma mapped_0: "mapped f a 0 pa perm f' \<longleftrightarrow> f' = f"
  by (auto simp: mapped_def)

lemma mapped_Suc:
  assumes a: "unat a mod 4096 = 0" "unat a + 4096 < 2 ^ 32"
    and f1: "\<And>va. f1 va = (if page_of va = a then pa OR perm OR PTE_P else f va)"
    and m: "mapped f1 (a + 4096) m (pa + 4096) perm f2"
  shows "mapped f a (Suc m) pa perm f2"
  unfolding mapped_def
proof
  fix va
  have a1: "unat (a + 4096) = unat a + 4096" using unat_add_small [of a 4096] a(2) by simp
  show "f2 va = (if in_pages a (Suc m) va then (pa + PGROUNDDOWN (va - a)) OR perm OR PTE_P else f va)"
  proof (cases "in_pages (a + 4096) m va")
    case True
    then have le: "unat a + 4096 \<le> unat va" by (simp add: in_pages_def a1)
    have "unat (va - a) = unat va - unat a" "unat (va - (a + 4096)) = unat va - (unat a + 4096)"
      using le by (simp_all add: unat_sub word_le_nat_alt a1)
    moreover define n where "n = unat va - (unat a + 4096)"
    ultimately have n: "unat (va - a) = n + 4096" "unat (va - (a + 4096)) = n" using le by simp_all
    have e: "unat (PGROUNDDOWN (va - a)) = unat (PGROUNDDOWN (va - (a + 4096))) + 4096"
      unfolding unat_PGROUNDDOWN n using div_add_self2 [of 4096 n] by simp
    then have "unat (PGROUNDDOWN (va - (a + 4096)) + 4096) = unat (PGROUNDDOWN (va - (a + 4096))) + 4096"
      using unat_lt_u32 [of "PGROUNDDOWN (va - a)"] unat_add_small [of "PGROUNDDOWN (va - (a + 4096))" 4096] by simp
    with e have "PGROUNDDOWN (va - a) = PGROUNDDOWN (va - (a + 4096)) + 4096" by (simp add: word_unat_eq_iff)
    then show ?thesis using True m in_pages_Suc [OF a, of m va] by (simp add: mapped_def algebra_simps)
  next
    case False
    with False show ?thesis using round_in_page [OF a(1), of va] m f1 in_pages_Suc [OF a, of m va] by (auto simp: mapped_def)
  qed
qed

text \<open>The pages a page table occupies: the directory and its tables.\<close>

definition tab_pages :: "kmem \<Rightarrow> u32 \<Rightarrow> u32 set" where
  "tab_pages k d = insert d (tab_page k d ` {i. i < 1024 \<and> has_tab k d i})"

lemma tab_pages_same: "(\<And>i. i < 1024 \<Longrightarrow> pde k' d i = pde k d i) \<Longrightarrow> tab_pages k' d = tab_pages k d"
proof -
  assume p: "\<And>i. i < 1024 \<Longrightarrow> pde k' d i = pde k d i"
  have "tab_page k' d ` {i. i < 1024 \<and> has_tab k' d i} = tab_page k d ` {i. i < 1024 \<and> has_tab k d i}"
    by (intro image_cong Collect_cong conj_cong) (auto simp: p has_tab_def tab_page_def)
  then show ?thesis by (simp add: tab_pages_def)
qed

lemma tab_pages_in: "d \<in> tab_pages k d" "i < 1024 \<Longrightarrow> has_tab k d i \<Longrightarrow> tab_page k d i \<in> tab_pages k d"
  by (auto simp: tab_pages_def)

lemma tab_pages_new:
  assumes "i < 1024" "\<not> has_tab k d i" "has_tab k' d i" "tab_page k' d i = x" "\<And>j. j < 1024 \<Longrightarrow> j \<noteq> i \<Longrightarrow> pde k' d j = pde k d j"
  shows "tab_pages k' d = insert x (tab_pages k d)"
proof -
  have o: "has_tab k' d j = has_tab k d j" "tab_page k' d j = tab_page k d j" if "j < 1024" "j \<noteq> i" for j
    using assms(5) [OF that] by (simp_all add: has_tab_def tab_page_def)
  have "{j. j < 1024 \<and> has_tab k' d j} = insert i {j. j < 1024 \<and> has_tab k d j}" using o assms(1-3) by blast
  moreover have "tab_page k' d ` {j. j < 1024 \<and> has_tab k d j} = tab_page k d ` {j. j < 1024 \<and> has_tab k d j}"
    using o assms(2) by (intro image_cong) auto
  ultimately show ?thesis using assms(4) by (auto simp: tab_pages_def)
qed

text \<open>Mapping writes only the pages of the page table and new tables from the free list, which join it.\<close>

definition vm_frame :: "u32 \<Rightarrow> u32 list \<Rightarrow> kmem \<Rightarrow> kmem \<Rightarrow> bool" where
  "vm_frame d zs k k' \<longleftrightarrow> tab_pages k' d = tab_pages k d \<union> set zs \<and> (\<forall>p. p \<notin> set zs \<and> p \<notin> tab_pages k d \<longrightarrow> page_same p k k')"

lemma vm_frame_refl: "vm_frame d [] k k"
  by (simp add: vm_frame_def)

lemma vm_frame_trans: "vm_frame d zs1 k1 k2 \<Longrightarrow> vm_frame d zs2 k2 k3 \<Longrightarrow> vm_frame d (zs1 @ zs2) k1 k3"
  unfolding vm_frame_def by (auto intro: page_same_trans)

lemma map_step:
  assumes inv: "pgt_inv kend k xs d" and a: "page_of a = a"
  obtains (full) "xs = []" "walkpgdir d a True k = (0, k)" "pt_entry k d a = 0"
  | (entry) pte k1 zs ys where "walkpgdir d a True k = (pte, k1)" "pte \<noteq> 0" "rd32 k1 pte = pt_entry k d a" "xs = zs @ ys"
      "\<And>v. pgt_inv kend (wr32 pte v k1) ys d"
      "\<And>v va. pt_entry (wr32 pte v k1) d va = (if page_of va = a then v else pt_entry k d va)"
      "\<And>v. vm_frame d zs k (wr32 pte v k1)" "length zs \<le> 1"
  using inv
proof (cases rule: walk_alloc_cases [of kend k xs d a])
  case present
  let ?t = "tab_page k d (PDX a)"
  note se = set_entry [OF inv present(1)]
  have nz: "?t + 4 * PTX a \<noteq> 0" by (rule slot_nonzero [of kend]) (use inv present(1) in \<open>auto simp: pgt_inv_def\<close>)
  have tb: "has_tab (wr32 (?t + 4 * PTX a) v k) d i = has_tab k d i" "tab_page (wr32 (?t + 4 * PTX a) v k) d i = tab_page k d i"
    if "i < 1024" for v i using se(4) [OF that] by (simp_all add: has_tab_def tab_page_def)
  show ?thesis
  proof (rule entry [OF present(2) nz, of "[]" xs])
    show "rd32 k (?t + 4 * PTX a) = pt_entry k d a" using present(1) by (simp add: pt_entry_def)
    show "vm_frame d [] k (wr32 (?t + 4 * PTX a) v k)" for v
    proof -
      have "p \<noteq> ?t" if "p \<notin> tab_pages k d" for p using that tab_pages_in(2) [OF idx_less(1) present(1)] by blast
      then show ?thesis using se(3) tab_pages_same [OF se(4)] by (simp add: vm_frame_def)
    qed
  qed (use se tb a in auto)
next
  case full
  then show ?thesis using that(1) by (simp add: pt_entry_def)
next
  case (fresh x ys k1)
  note se = set_entry [OF fresh(4,5), unfolded fresh(6)]
  have tb: "has_tab (wr32 (x + 4 * PTX a) v k1) d i = has_tab k1 d i" "tab_page (wr32 (x + 4 * PTX a) v k1) d i = tab_page k1 d i"
    if "i < 1024" for v i using se(4) [OF that, of v] by (simp_all add: has_tab_def tab_page_def)
  have old: "has_tab k1 d i = has_tab k d i" "tab_page k1 d i = tab_page k d i" if "i < 1024" "i \<noteq> PDX a" for i
    using fresh(9) [OF that] by (simp_all add: has_tab_def tab_page_def)
  have nz: "x + 4 * PTX a \<noteq> 0" by (rule slot_nonzero [of kend]) (use fresh(4-6) in \<open>auto simp: pgt_inv_def\<close>)
  show ?thesis
  proof (rule entry [OF fresh(3) nz, of "[x]" ys])
    show "rd32 k1 (x + 4 * PTX a) = pt_entry k d a" using fresh(5-7) by (metis pt_entry_def)
    show "vm_frame d [x] k (wr32 (x + 4 * PTX a) v k1)" for v
    proof -
      have "tab_pages (wr32 (x + 4 * PTX a) v k1) d = tab_pages k1 d" by (rule tab_pages_same) (rule se(4))
      also have "\<dots> = insert x (tab_pages k d)" by (rule tab_pages_new [OF _ fresh(1,5,6,9)]) simp
      finally have t: "tab_pages (wr32 (x + 4 * PTX a) v k1) d = insert x (tab_pages k d)" .
      have "page_same p k (wr32 (x + 4 * PTX a) v k1)" if "p \<noteq> x" "p \<notin> tab_pages k d" for p
        by (rule page_same_trans [OF fresh(8) se(3)]) (use that tab_pages_in(1) [of d k] in blast)+
      with t show ?thesis by (simp add: vm_frame_def)
    qed
  qed (use se fresh a in auto)
qed

lemma pt_entry_page: "page_of va = page_of va' \<Longrightarrow> pt_entry k d va = pt_entry k d va'"
  using same_index [of va va'] by (simp add: pt_entry_def)

lemma page_of_self: "unat a mod 4096 = 0 \<Longrightarrow> page_of a = a"
  using page_of_offset [of a 0] by simp

lemma in_pages_1: "unat a mod 4096 = 0 \<Longrightarrow> in_pages a (Suc 0) va \<longleftrightarrow> page_of va = a"
  using in_range_page [of a va] in_range_add [OF page_top, of a va] by (auto simp: in_pages_def)

lemma mapped_1:
  assumes "unat a mod 4096 = 0" "\<And>va. f1 va = (if page_of va = a then pa OR perm OR PTE_P else f va)"
  shows "mapped f a (Suc 0) pa perm f1"
  unfolding mapped_def
proof
  fix va
  show "f1 va = (if in_pages a (Suc 0) va then (pa + PGROUNDDOWN (va - a)) OR perm OR PTE_P else f va)"
    using round_in_page [OF assms(1), of va] assms in_pages_1 [OF assms(1), of va] by simp
qed

text \<open>
  How mapping n pages from a can end: a page is mapped already; all pages are mapped; or the free
  pages ran out with the first m pages mapped.  zs are the pages taken for new tables.
\<close>

definition map_outcome :: "u32 \<Rightarrow> u32 \<Rightarrow> u32 \<Rightarrow> nat \<Rightarrow> u32 \<Rightarrow> u32 \<Rightarrow> kmem \<Rightarrow> u32 list \<Rightarrow> (int \<times> kmem) res \<Rightarrow> bool" where
  "map_outcome kend d a n pa perm k xs r \<longleftrightarrow>
     r = Inl (Panic ''remap'') \<and> (\<exists>va. in_pages a n va \<and> pt_entry k d va AND PTE_P \<noteq> 0) \<or>
     (\<exists>k' zs ys m. xs = zs @ ys \<and> pgt_inv kend k' ys d \<and> vm_frame d zs k k' \<and> mapped (pt_entry k d) a m pa perm (pt_entry k' d) \<and>
        (\<forall>va. in_pages a m va \<longrightarrow> pt_entry k d va AND PTE_P = 0) \<and>
        (r = Inr (0, k') \<and> m = n \<or> r = Inr (-1, k') \<and> m < n \<and> ys = []))"

lemma map_outcome_step:
  assumes a: "unat a mod 4096 = 0" "unat a + 4096 < 2 ^ 32"
    and k: "xs = zs @ ys" "vm_frame d zs k k2" "pt_entry k d a AND PTE_P = 0"
      "\<And>va. pt_entry k2 d va = (if page_of va = a then pa OR perm OR PTE_P else pt_entry k d va)"
    and o: "map_outcome kend d (a + 4096) n (pa + 4096) perm k2 ys r"
  shows "map_outcome kend d a (Suc n) pa perm k xs r"
proof -
  have a1: "unat (a + 4096) = unat a + 4096" using unat_add_small [of a 4096] a(2) by simp
  have e: "pt_entry k d va AND PTE_P = 0" if "page_of va = a" for va
    using that k(3) pt_entry_page [of va a] page_of_self [OF a(1)] by simp
  have apart: "page_of va \<noteq> a" if "in_pages (a + 4096) m va" for va m
    using that in_range_page [OF a(1), of va] in_range_add [OF page_top [OF a(1)], of va] by (auto simp: in_pages_def a1)
  from o consider "r = Inl (Panic ''remap'')" "\<exists>va. in_pages (a + 4096) n va \<and> pt_entry k2 d va AND PTE_P \<noteq> 0"
    | k' zs' ys' m where "ys = zs' @ ys'" "pgt_inv kend k' ys' d" "vm_frame d zs' k2 k'"
      "mapped (pt_entry k2 d) (a + 4096) m (pa + 4096) perm (pt_entry k' d)"
      "\<forall>va. in_pages (a + 4096) m va \<longrightarrow> pt_entry k2 d va AND PTE_P = 0"
      "r = Inr (0, k') \<and> m = n \<or> r = Inr (-1, k') \<and> m < n \<and> ys' = []"
    unfolding map_outcome_def by blast
  then show ?thesis
  proof cases
    case 1
    then obtain va where "in_pages (a + 4096) n va" "pt_entry k2 d va AND PTE_P \<noteq> 0" by blast
    then have "in_pages a (Suc n) va \<and> pt_entry k d va AND PTE_P \<noteq> 0"
      using apart k(4) [of va] in_pages_Suc [OF a, of n va] by auto
    with 1 show ?thesis unfolding map_outcome_def by blast
  next
    case 2
    have m: "mapped (pt_entry k d) a (Suc m) pa perm (pt_entry k' d)" by (rule mapped_Suc [OF a k(4) 2(4)])
    have "pt_entry k d va AND PTE_P = 0" if "in_pages a (Suc m) va" for va
      using that e 2(5) apart k(4) [of va] in_pages_Suc [OF a, of m va] by (cases "page_of va = a") auto
    moreover have "vm_frame d (zs @ zs') k k'" by (rule vm_frame_trans [OF k(2) 2(3)])
    moreover have "xs = (zs @ zs') @ ys'" using k(1) 2(1) by simp
    ultimately show ?thesis unfolding map_outcome_def using 2(2,6) m
      by (intro disjI2 exI [of _ k'] exI [of _ "zs @ zs'"] exI [of _ ys'] exI [of _ "Suc m"]) auto
  qed
qed

lemma map_loop_spec:
  assumes "pgt_inv kend k xs d" "unat a mod 4096 = 0" "unat a + 4096 * n < 2 ^ 32" "lst = a + of_nat (4096 * n)"
  shows "map_outcome kend d a (Suc n) pa perm k xs (map_loop (Suc n) d a lst pa perm k)"
  using assms
proof (induction n arbitrary: k xs a pa)
  case (0 k xs a pa)
  have self: "page_of a = a" by (rule page_of_self [OF 0(2)])
  from 0(1) self show ?case
  proof (cases rule: map_step)
    case full
    then show ?thesis using 0(1) unfolding map_outcome_def
      by (intro disjI2 exI [of _ k] exI [of _ "[]"] exI [of _ 0]) (simp add: mapped_0 vm_frame_refl)
  next
    case (entry pte k1 zs ys)
    show ?thesis
    proof (cases "pt_entry k d a AND PTE_P = 0")
      case True
      let ?k2 = "wr32 pte (pa OR perm OR PTE_P) k1"
      have "map_loop (Suc 0) d a lst pa perm k = Inr (0, ?k2)" using entry(1-3) True 0(4) by (simp add: Let_def)
      moreover have "mapped (pt_entry k d) a (Suc 0) pa perm (pt_entry ?k2 d)" by (rule mapped_1 [OF 0(2)]) (rule entry(6))
      moreover have "pt_entry k d va AND PTE_P = 0" if "in_pages a (Suc 0) va" for va
        using that True pt_entry_page [of va a] self in_pages_1 [OF 0(2)] by simp
      ultimately show ?thesis unfolding map_outcome_def using entry(4,5,7) by blast
    next
      case False
      then have "map_loop (Suc 0) d a lst pa perm k = Inl (Panic ''remap'')" using entry(1-3) by simp
      with False show ?thesis using in_pages_1 [OF 0(2)] self unfolding map_outcome_def by blast
    qed
  qed
next
  case (Suc n)
  have self: "page_of a = a" by (rule page_of_self [OF Suc.prems(2)])
  have top: "unat a + 4096 < 2 ^ 32" using Suc.prems(3) by simp
  have a1: "unat (a + 4096) = unat a + 4096" using unat_add_small [of a 4096] top by simp
  from Suc.prems(1) self show ?case
  proof (cases rule: map_step)
    case full
    then show ?thesis using Suc.prems(1) unfolding map_outcome_def
      by (intro disjI2 exI [of _ k] exI [of _ "[]"] exI [of _ 0]) (simp add: mapped_0 vm_frame_refl)
  next
    case (entry pte k1 zs ys)
    show ?thesis
    proof (cases "pt_entry k d a AND PTE_P = 0")
      case True
      let ?k2 = "wr32 pte (pa OR perm OR PTE_P) k1"
      have "a \<noteq> lst"
      proof
        assume "a = lst"
        then have "unat (of_nat (4096 * Suc n) :: u32) = 0" using Suc.prems(4) by simp
        then show False using Suc.prems(3) unfolding unat_of_nat_u32 by simp
      qed
      then have eq: "map_loop (Suc (Suc n)) d a lst pa perm k = map_loop (Suc n) d (a + 4096) lst (pa + 4096) perm ?k2"
        using entry(1-3) True by (simp add: Let_def PGSIZE_def)
      have "map_outcome kend d (a + 4096) (Suc n) (pa + 4096) perm ?k2 ys (map_loop (Suc n) d (a + 4096) lst (pa + 4096) perm ?k2)"
        by (rule Suc.IH [OF entry(5)]) (use Suc.prems a1 in \<open>auto simp: algebra_simps\<close>)
      from map_outcome_step [OF Suc.prems(2) top entry(4,7) True entry(6) this] show ?thesis unfolding eq .
    next
      case False
      then have "map_loop (Suc (Suc n)) d a lst pa perm k = Inl (Panic ''remap'')" using entry(1-3) by simp
      with False show ?thesis using in_pages_Suc [OF Suc.prems(2) top] self unfolding map_outcome_def by blast
    qed
  qed
qed

definition pages_spanned :: "u32 \<Rightarrow> u32 \<Rightarrow> nat" where
  "pages_spanned va sz = (unat va + unat sz - 1) div 4096 - unat va div 4096 + 1"

lemma mappages_outcome:
  assumes "pgt_inv kend k xs d" "0 < sz" "unat va + unat sz \<le> 2 ^ 32"
  shows "map_outcome kend d (PGROUNDDOWN va) (pages_spanned va sz) pa perm k xs (mappages d va sz pa perm k)"
proof -
  define n where "n = (unat va + unat sz - 1) div 4096 - unat va div 4096"
  have "sz \<noteq> 0" using assms(2) by auto
  then have sz: "0 < unat sz" "unat (sz - 1) = unat sz - 1" using assms(2) unat_minus_one [of sz] by (simp_all add: word_less_nat_alt)
  have "unat (va + sz - 1) = unat (va + of_nat (unat (sz - 1)))" by (simp add: algebra_simps)
  also have "\<dots> = unat va + (unat sz - 1)" using sz assms(3) by (subst unat_add_small) auto
  finally have e: "unat (va + sz - 1) = unat va + unat sz - 1" using sz by simp
  have le: "unat va div 4096 \<le> (unat va + unat sz - 1) div 4096" using sz by (intro div_le_mono) simp
  have a: "unat (PGROUNDDOWN va) = unat va div 4096 * 4096" "unat (PGROUNDDOWN (va + sz - 1)) = (unat va + unat sz - 1) div 4096 * 4096"
    using e by (simp_all add: unat_PGROUNDDOWN)
  have l: "unat (PGROUNDDOWN (va + sz - 1)) = unat (PGROUNDDOWN va) + 4096 * n"
    unfolding a n_def using le by (simp add: diff_mult_distrib2 mult.commute)
  have top: "unat (PGROUNDDOWN va) + 4096 * n < 2 ^ 32" using l unat_lt_u32 [of "PGROUNDDOWN (va + sz - 1)"] by simp
  have lst: "PGROUNDDOWN (va + sz - 1) = PGROUNDDOWN va + of_nat (4096 * n)"
    using l unat_add_small [OF top] by (metis word_unat_eq_iff)
  have c: "unat (PGROUNDDOWN (va + sz - 1) - PGROUNDDOWN va) div 4096 = n"
    using l by (subst unat_sub) (auto simp: word_le_nat_alt)
  have p: "pages_spanned va sz = Suc n" by (simp add: pages_spanned_def n_def)
  show ?thesis unfolding mappages_def Let_def c p by (rule map_loop_spec [OF assms(1) _ top lst]) (simp add: a)
qed

text \<open>
  C34.  mappages does what it says on any page table that is well formed (its tables are distinct
  allocated pages outside the free list): it panics only if a page of the range is mapped
  already; it returns -1 only when no free page is left for a page table; and when it returns
  0, every address of the pages that the range touches is mapped to the corresponding
  physical address with the given permissions, every other address is mapped as before, new
  tables came from the front of the free list, the page table and the free list are well
  formed, and no page other than the directory, its tables and the new tables was written.
\<close>

theorem mappages_ok:
  assumes "pgt_inv kend k xs d" "0 < sz" "unat va + unat sz \<le> 2 ^ 32"
  shows "mappages d va sz pa perm k = Inl (Panic ''remap'') \<and> (\<exists>va'. in_pages (PGROUNDDOWN va) (pages_spanned va sz) va' \<and> pt_entry k d va' AND PTE_P \<noteq> 0) \<or>
    (\<exists>k'. mappages d va sz pa perm k = Inr (-1, k') \<and> pgt_inv kend k' [] d \<and> vm_frame d xs k k') \<or>
    (\<exists>k' zs ys. mappages d va sz pa perm k = Inr (0, k') \<and> xs = zs @ ys \<and> pgt_inv kend k' ys d \<and> vm_frame d zs k k' \<and>
       (\<forall>va'. pt_entry k' d va' =
         (if in_pages (PGROUNDDOWN va) (pages_spanned va sz) va'
          then (pa + PGROUNDDOWN (va' - PGROUNDDOWN va)) OR perm OR PTE_P else pt_entry k d va')))"
  using mappages_outcome [OF assms, of pa perm] unfolding map_outcome_def mapped_def by auto

definition two_pages :: kmem where
  "two_pages = \<lparr>kmem_mem = (\<lambda>_. 0), use_lock = True, freelist = 0x80101000\<rparr>"

lemma two_pages_ok: "pgt_inv 0x80100000 two_pages [0x80101000] 0x80100000"
proof -
  have "rd32 two_pages a = 0" for a by (simp add: rd32_def two_pages_def load32_def)
  then have "\<not> has_tab two_pages 0x80100000 i" for i by (simp add: has_tab_def pde_def)
  then show ?thesis
    by (simp add: pgt_inv_def kmem_inv_def page_ok_def V2P_def page_consts) (simp add: two_pages_def load32_def)
qed

theorem mappages_ok_witness:
  "\<exists>k'. mappages 0x80100000 0x5000 4096 0x200000 (PTE_W OR PTE_U) two_pages = Inr (0, k') \<and>
    pt_entry k' 0x80100000 0x5678 = 0x200007"
proof -
  let ?r = "mappages 0x80100000 0x5000 4096 0x200000 (PTE_W OR PTE_U) two_pages"
  have z: "rd32 two_pages a = 0" "pt_entry two_pages 0x80100000 va = 0" for a va
    by (simp_all add: rd32_def two_pages_def load32_def pt_entry_def)
  have "PGROUNDDOWN 0x5000 = 0x5000" by (simp add: PGROUNDDOWN_def PGSIZE_def)
  moreover have "PGROUNDDOWN 0x678 = 0" "PGROUNDDOWN 0x5FFF = 0x5000" by (simp_all add: PGROUNDDOWN_def PGSIZE_def)
  moreover have "?r \<noteq> Inr (-1, k')" for k'
  proof -
    have "kalloc two_pages = (0x80101000, two_pages\<lparr>freelist := 0\<rparr>)" by (simp add: kalloc_def two_pages_def load32_def)
    then show ?thesis using calculation by (simp add: mappages_def walkpgdir_def Let_def z PTX_def)
  qed
  ultimately show ?thesis using mappages_ok [OF two_pages_ok, where sz = 4096 and va = "0x5000" and pa = "0x200000" and perm = "PTE_W OR PTE_U"] z
    by (auto simp: pages_spanned_def in_pages_def PTE_P_def PTE_W_def PTE_U_def)
qed

end
