(* ===== verification/Uvm.thy ===== *)
theory Uvm
  imports Vm
begin

text \<open>
  User address spaces (vm.c: allocuvm, deallocuvm, copyout): the pages an address space maps below
  KERNBASE are distinct allocated pages, apart from its page tables and from the free list, and
  growing and shrinking keep it so.
\<close>

definition present :: "kmem \<Rightarrow> u32 \<Rightarrow> u32 \<Rightarrow> bool" where
  "present k d va \<longleftrightarrow> pt_entry k d va AND PTE_P \<noteq> 0"

definition upage :: "kmem \<Rightarrow> u32 \<Rightarrow> u32 \<Rightarrow> u32" where
  "upage k d va = P2V (PTE_ADDR (pt_entry k d va))"

definition user :: "u32 \<Rightarrow> bool" where
  "user va \<longleftrightarrow> va < KERNBASE"

definition uvm_inv :: "u32 \<Rightarrow> kmem \<Rightarrow> u32 list \<Rightarrow> u32 \<Rightarrow> bool" where
  "uvm_inv kend k xs d \<longleftrightarrow> pgt_inv kend k xs d \<and>
     (\<forall>va. user va \<and> present k d va \<longrightarrow> page_ok kend (upage k d va) \<and> upage k d va \<notin> set xs \<and> upage k d va \<notin> tab_pages k d) \<and>
     (\<forall>va va'. user va \<and> user va' \<and> present k d va \<and> present k d va' \<and> upage k d va = upage k d va' \<longrightarrow> page_of va = page_of va')"

lemma uvm_pgt: "uvm_inv kend k xs d \<Longrightarrow> pgt_inv kend k xs d"
  by (simp add: uvm_inv_def)

lemma uvm_page:
  assumes "uvm_inv kend k xs d" "user va" "present k d va"
  shows "page_ok kend (upage k d va)" "upage k d va \<notin> set xs" "upage k d va \<notin> tab_pages k d" "unat (upage k d va) mod 4096 = 0"
  using assms by (auto simp: uvm_inv_def page_ok_def)

lemma uvm_inj:
  assumes "uvm_inv kend k xs d" "user va" "user va'" "present k d va" "present k d va'" "upage k d va = upage k d va'"
  shows "page_of va = page_of va'"
  using assms unfolding uvm_inv_def by blast

lemma present_page: "page_of va = page_of va' \<Longrightarrow> present k d va = present k d va'" "page_of va = page_of va' \<Longrightarrow> upage k d va = upage k d va'"
  using pt_entry_page [of va va' k d] by (simp_all add: present_def upage_def)

lemma tab_pages_frame:
  assumes "pgt_inv kend k xs d" "\<And>p. p \<in> tab_pages k d \<Longrightarrow> page_same p k k'"
  shows "i < 1024 \<Longrightarrow> pde k' d i = pde k d i" and "pt_entry k' d va = pt_entry k d va"
  using pt_entry_frame [OF assms(1), of k'] assms(2) by (auto simp: tab_pages_def)

section \<open>Freeing a page\<close>

text \<open>The body of deallocuvm for a page that is present.\<close>

lemma free_entry:
  assumes inv: "uvm_inv kend k xs d" and a: "page_of a = a" "user a" "present k d a"
  defines "u \<equiv> upage k d a"
  shows "\<exists>k1. kfree kend u k = Inr k1 \<and>
    (let k2 = wr32 (tab_page k d (PDX a) + 4 * PTX a) 0 k1 in
     uvm_inv kend k2 (u # xs) d \<and> (\<forall>va. pt_entry k2 d va = (if page_of va = a then 0 else pt_entry k d va)) \<and>
     tab_pages k2 d = tab_pages k d \<and> (\<forall>p. p \<noteq> u \<and> p \<notin> tab_pages k d \<longrightarrow> page_same p k k2))"
proof -
  note pg = uvm_pgt [OF inv]
  note u = uvm_page [OF inv a(2,3), folded u_def]
  have t: "has_tab k d (PDX a)" using a(3) by (cases "has_tab k d (PDX a)") (simp_all add: present_def pt_entry_def)
  have ki: "kmem_inv kend k xs" using pg by (simp add: pgt_inv_def)
  from kmem_inv_free [OF ki u(1,2)] obtain k1 where k1: "kfree kend u k = Inr k1" "kmem_inv kend k1 (u # xs)"
    "\<And>b. \<not> in_range u 4096 b \<Longrightarrow> kmem_mem k1 b = kmem_mem k b" by blast
  have s1: "page_same p k k1" if "p \<noteq> u" for p
    using that k1(3) in_range_page [OF u(4)] by (auto simp: page_same_def)
  have tp: "page_same p k k1" if "p \<in> tab_pages k d" for p using that u(3) by (intro s1) auto
  have fr: "i < 1024 \<Longrightarrow> pde k1 d i = pde k d i" "pt_entry k1 d va = pt_entry k d va" for i va
    using tab_pages_frame [OF pg, of k1] tp by blast+
  have pg1: "pgt_inv kend k1 (u # xs) d"
    by (rule pgt_inv_frame [OF pg k1(2), where N = "{u}"]) (use fr u(3) in \<open>auto simp: tab_pages_def\<close>)
  have h1: "has_tab k1 d i = has_tab k d i" "tab_page k1 d i = tab_page k d i" if "i < 1024" for i
    using fr(1) [OF that] by (simp_all add: has_tab_def tab_page_def)
  let ?k2 = "wr32 (tab_page k d (PDX a) + 4 * PTX a) 0 k1"
  note se = set_entry [OF pg1, where va = a and v = 0, unfolded h1 [OF idx_less(1)], OF t]
  have ent: "pt_entry ?k2 d va = (if page_of va = a then 0 else pt_entry k d va)" for va using se(2) fr(2) a(1) by simp
  have tabs: "tab_pages ?k2 d = tab_pages k d" using se(4) fr(1) by (intro tab_pages_same) simp
  have same: "page_same p k ?k2" if "p \<noteq> u" "p \<notin> tab_pages k d" for p
  proof -
    have "p \<noteq> tab_page k d (PDX a)" using that(2) t by (auto simp: tab_pages_def)
    from se(3) [OF this] s1 [OF that(1)] show ?thesis by (blast intro: page_same_trans)
  qed
  have pr: "present ?k2 d va \<longleftrightarrow> page_of va \<noteq> a \<and> present k d va" "page_of va \<noteq> a \<Longrightarrow> upage ?k2 d va = upage k d va" for va
    using ent [of va] by (simp_all add: present_def upage_def)
  have "uvm_inv kend ?k2 (u # xs) d"
    unfolding uvm_inv_def
  proof (intro conjI allI impI)
    show "pgt_inv kend ?k2 (u # xs) d" by (rule se(1))
  next
    fix va assume va: "user va \<and> present ?k2 d va"
    then have v: "present k d va" "page_of va \<noteq> a" "upage ?k2 d va = upage k d va" using pr by auto
    then show "page_ok kend (upage ?k2 d va)" "upage ?k2 d va \<notin> tab_pages ?k2 d" using uvm_page [OF inv, of va] va tabs by auto
    have "upage k d va \<noteq> u" using uvm_inj [OF inv, of va a] va v a unfolding u_def by auto
    then show "upage ?k2 d va \<notin> set (u # xs)" using uvm_page [OF inv, of va] va v by auto
  next
    fix va va' assume "user va \<and> user va' \<and> present ?k2 d va \<and> present ?k2 d va' \<and> upage ?k2 d va = upage ?k2 d va'"
    then show "page_of va = page_of va'" using pr uvm_inj [OF inv, of va va'] by auto
  qed
  with k1(1) ent tabs same show ?thesis by (simp add: Let_def)
qed

section \<open>Shrinking\<close>

lemma unat_PDX: "unat (PDX va) = unat va div 4194304"
proof -
  have "unat (drop_bit 22 va) = unat va div 4194304" by (simp add: drop_bit_eq_div unat_div)
  moreover from this have "unat (drop_bit 22 va) < 1024" using unat_lt_u32 [of va] by (simp add: less_mult_imp_div_less)
  then have "drop_bit 22 va < (2 :: u32) ^ 10" by (simp add: word_less_nat_alt)
  then have "drop_bit 22 va AND mask 10 = drop_bit 22 va" by (rule less_mask_eq)
  ultimately show ?thesis by (simp add: PDX_def mask10)
qed

text \<open>The first address after those that share a page table with a.\<close>

lemma next_table:
  assumes "user a"
  shows "unat (PGADDR (PDX a + 1) 0 0 - PGSIZE + PGSIZE) = (unat a div 4194304 + 1) * 4194304"
proof -
  have "unat a < 2147483648" using assms by (simp add: user_def word_less_nat_alt KERNBASE_def)
  then have "unat a div 4194304 < 512" by (simp add: less_mult_imp_div_less)
  then have s: "unat (PDX a + 1) = unat a div 4194304 + 1" "(unat a div 4194304 + 1) * 4194304 < 2 ^ 32"
    using unat_add_small [of "PDX a" 1] by (simp_all add: unat_PDX)
  moreover have "unat (push_bit 22 w) = unat w * 4194304" if "unat w * 4194304 < 2 ^ 32" for w :: u32
    using that by (simp add: push_bit_eq_mult unat_word_ariths)
  ultimately have "unat (push_bit 22 (PDX a + 1)) = (unat a div 4194304 + 1) * 4194304" by metis
  then show ?thesis by (simp add: PGADDR_def)
qed

text \<open>The present pages from a on that start below oldsz.\<close>

definition doomed :: "kmem \<Rightarrow> u32 \<Rightarrow> u32 \<Rightarrow> u32 \<Rightarrow> u32 \<Rightarrow> bool" where
  "doomed k d a oldsz va \<longleftrightarrow> unat a \<le> unat va \<and> unat (page_of va) < unat oldsz \<and> present k d va"

definition freed :: "u32 \<Rightarrow> u32 \<Rightarrow> u32 \<Rightarrow> u32 \<Rightarrow> kmem \<Rightarrow> u32 list \<Rightarrow> kmem \<Rightarrow> u32 list \<Rightarrow> bool" where
  "freed kend d a oldsz k xs k' fs \<longleftrightarrow> uvm_inv kend k' (fs @ xs) d \<and> tab_pages k' d = tab_pages k d \<and>
     (\<forall>va. pt_entry k' d va = (if doomed k d a oldsz va then 0 else pt_entry k d va)) \<and>
     set fs = upage k d ` {va. doomed k d a oldsz va} \<and>
     (\<forall>p. p \<notin> set fs \<and> p \<notin> tab_pages k d \<longrightarrow> page_same p k k')"

lemma page_of_le: "unat (page_of va) \<le> unat va" "unat va < unat (page_of va) + 4096" "unat (page_of va) mod 4096 = 0"
proof -
  show "unat (page_of va) \<le> unat va" "unat (page_of va) mod 4096 = 0" by (simp_all add: page_of_def unat_PGROUNDDOWN)
  have "unat va = unat va div 4096 * 4096 + unat va mod 4096" "unat va mod 4096 < 4096" by simp_all
  then show "unat va < unat (page_of va) + 4096" unfolding page_of_def unat_PGROUNDDOWN by linarith
qed

lemma page_le_iff: "unat a mod 4096 = 0 \<Longrightarrow> unat a \<le> unat va \<longleftrightarrow> unat a \<le> unat (page_of va)"
proof -
  assume a: "unat a mod 4096 = 0"
  obtain j where j: "unat a = 4096 * j" using a by (rule page_numberE)
  have "unat a \<le> unat va \<longleftrightarrow> j \<le> unat va div 4096" by (simp add: j less_eq_div_iff_mult_less_eq mult.commute)
  then show ?thesis by (simp add: page_of_def unat_PGROUNDDOWN j mult.commute)
qed

lemma freed_none: "(\<And>va. \<not> doomed k d a oldsz va) \<Longrightarrow> uvm_inv kend k xs d \<Longrightarrow> freed kend d a oldsz k xs k []"
  by (auto simp: freed_def)

lemma freed_skip: "(\<And>va. doomed k d a oldsz va = doomed k d b oldsz va) \<Longrightarrow> freed kend d b oldsz k xs k' fs \<Longrightarrow> freed kend d a oldsz k xs k' fs"
  by (simp add: freed_def)

lemma freed_step:
  assumes a: "page_of a = a" "present k d a" "unat a < unat oldsz" "unat (a + 4096) = unat a + 4096"
    and k2: "\<And>va. pt_entry k2 d va = (if page_of va = a then 0 else pt_entry k d va)" "tab_pages k2 d = tab_pages k d"
      "\<And>p. p \<noteq> upage k d a \<Longrightarrow> p \<notin> tab_pages k d \<Longrightarrow> page_same p k k2"
    and f: "freed kend d (a + 4096) oldsz k2 (upage k d a # xs) k' fs"
  shows "freed kend d a oldsz k xs k' (fs @ [upage k d a])"
proof -
  have am: "unat a mod 4096 = 0" using a(1) page_of_le(3) [of a] by simp
  have pr: "present k2 d va \<longleftrightarrow> page_of va \<noteq> a \<and> present k d va" "page_of va \<noteq> a \<Longrightarrow> upage k2 d va = upage k d va" for va
    using k2(1) [of va] by (simp_all add: present_def upage_def)
  have am1: "unat (a + 4096) mod 4096 = 0" using am a(4) by simp
  have split: "unat a \<le> unat va \<longleftrightarrow> page_of va = a \<or> unat (a + 4096) \<le> unat va" for va
  proof -
    have "page_of va = a \<longleftrightarrow> unat a \<le> unat va \<and> unat va < unat a + 4096"
      using in_range_page [OF am, of va] in_range_add [OF page_top [OF am], of va] by auto
    then show ?thesis using a(4) by auto
  qed
  have out: "\<not> (page_of va = a \<and> unat (a + 4096) \<le> unat va)" for va using page_of_le(2) [of va] a(4) by auto
  have d: "doomed k d a oldsz va \<longleftrightarrow> page_of va = a \<or> doomed k2 d (a + 4096) oldsz va" for va
    using split [of va] out [of va] pr(1) [of va] a(1-3) present_page(1) [of va a k d] by (auto simp: doomed_def)
  have d2: "page_of va \<noteq> a" if "doomed k2 d (a + 4096) oldsz va" for va
    using that out [of va] unfolding doomed_def by blast
  have up: "upage k d va = upage k d a" if "page_of va = a" for va using that a(1) present_page(2) [of va a k d] by simp
  have "upage k d ` {va. page_of va = a} = {upage k d a}"
  proof
    show "upage k d ` {va. page_of va = a} \<subseteq> {upage k d a}" using up by blast
    show "{upage k d a} \<subseteq> upage k d ` {va. page_of va = a}" using a(1) by blast
  qed
  moreover have "upage k d ` {va. doomed k2 d (a + 4096) oldsz va} = upage k2 d ` {va. doomed k2 d (a + 4096) oldsz va}"
    by (intro image_cong refl) (use d2 pr(2) in \<open>simp add: mem_Collect_eq\<close>)
  moreover have "{va. doomed k d a oldsz va} = {va. page_of va = a} \<union> {va. doomed k2 d (a + 4096) oldsz va}" using d by auto
  ultimately have img: "upage k d ` {va. doomed k d a oldsz va} = insert (upage k d a) (upage k2 d ` {va. doomed k2 d (a + 4096) oldsz va})"
    by (simp add: image_Un)
  show ?thesis unfolding freed_def
  proof (intro conjI allI impI)
    show "uvm_inv kend k' ((fs @ [upage k d a]) @ xs) d" "tab_pages k' d = tab_pages k d" using f k2(2) by (simp_all add: freed_def)
    show "pt_entry k' d va = (if doomed k d a oldsz va then 0 else pt_entry k d va)" for va
      using f k2(1) [of va] d [of va] by (simp add: freed_def)
    show "set (fs @ [upage k d a]) = upage k d ` {va. doomed k d a oldsz va}" using f by (simp add: img freed_def)
    fix p assume "p \<notin> set (fs @ [upage k d a]) \<and> p \<notin> tab_pages k d"
    then show "page_same p k k'" using f k2(2,3) unfolding freed_def by (metis Un_iff list.set_intros(1) page_same_trans set_append)
  qed
qed

lemma pte_nonzero: "uvm_inv kend k xs d \<Longrightarrow> has_tab k d (PDX a) \<Longrightarrow> tab_page k d (PDX a) + 4 * PTX a \<noteq> 0"
  by (rule slot_nonzero [of kend]) (auto simp: uvm_inv_def pgt_inv_def)

lemma dealloc_loop_spec:
  assumes "uvm_inv kend k xs d" "unat a mod 4096 = 0" "unat oldsz \<le> 2147483648" "unat oldsz \<le> unat a + 4096 * n" "KERNBASE < kend"
  shows "\<exists>k' fs. dealloc_loop n kend d a oldsz k = Inr k' \<and> freed kend d a oldsz k xs k' fs"
  using assms
proof (induction n arbitrary: k xs a)
  case 0
  then have "\<not> doomed k d a oldsz va" for va using page_le_iff [of a va] by (auto simp: doomed_def)
  then have "freed kend d a oldsz k xs k []" using 0 by (intro freed_none)
  with 0 show ?case by (auto simp: word_less_nat_alt)
next
  case (Suc n)
  show ?case
  proof (cases "a < oldsz")
    case False
    then have "\<not> doomed k d a oldsz va" for va
      using Suc.prems(2) page_le_iff [of a va] by (auto simp: doomed_def word_less_nat_alt)
    then have "freed kend d a oldsz k xs k []" using Suc.prems by (intro freed_none)
    with False show ?thesis by auto
  next
    case True
    then have lt: "unat a < unat oldsz" by (simp add: word_less_nat_alt)
    have ua: "user a" using lt Suc.prems(3) by (simp add: user_def word_less_nat_alt KERNBASE_def)
    have a1: "unat (a + 4096) = unat a + 4096" using unat_add_small [of a 4096] lt Suc.prems(3) by simp
    have self: "page_of a = a" by (rule page_of_self [OF Suc.prems(2)])
    note IH = Suc.IH [OF _ _ Suc.prems(3) _ Suc.prems(5)]
    consider (notab) "\<not> has_tab k d (PDX a)" | (gone) "has_tab k d (PDX a)" "\<not> present k d a" | (there) "has_tab k d (PDX a)" "present k d a"
      by blast
    then show ?thesis
    proof cases
      case notab
      define b where "b = PGADDR (PDX a + 1) 0 0 - PGSIZE + PGSIZE"
      have b: "unat b = (unat a div 4194304 + 1) * 4194304" unfolding b_def by (rule next_table [OF ua])
      have ab: "unat a + 4096 \<le> unat b"
      proof -
        obtain j where j: "unat a = 4096 * j" using Suc.prems(2) by (rule page_numberE)
        have "unat a < unat b" unfolding b using dividend_less_div_times [of 4194304 "unat a"] by (simp add: algebra_simps)
        then show ?thesis unfolding b j by simp
      qed
      have "doomed k d a oldsz va = doomed k d b oldsz va" for va
      proof -
        have "\<not> present k d va" if "unat a \<le> unat va" "unat va < unat b"
        proof -
          have "unat va div 4194304 = unat a div 4194304"
            by (rule div_nat_eqI) (use that b div_times_less_eq_dividend [of "unat a" 4194304] in \<open>simp_all add: mult.commute\<close>)
          then have "PDX va = PDX a" by (simp add: word_unat_eq_iff unat_PDX)
          with notab show ?thesis by (simp add: present_def pt_entry_def)
        qed
        then show ?thesis using ab by (auto simp: doomed_def intro: leI)
      qed
      moreover obtain k' fs where "dealloc_loop n kend d b oldsz k = Inr k'" "freed kend d b oldsz k xs k' fs"
        using IH [OF Suc.prems(1), of b] Suc.prems(2,4) b ab by auto
      ultimately show ?thesis using True notab freed_skip [of k d a oldsz b kend xs k' fs] by (auto simp: walk_find Let_def b_def)
    next
      case gone
      have "doomed k d a oldsz va = doomed k d (a + 4096) oldsz va" for va
      proof -
        have "\<not> present k d va" if "unat a \<le> unat va" "unat va < unat a + 4096"
        proof -
          have "page_of va = a" using that in_range_page [OF Suc.prems(2), of va] in_range_add [OF page_top [OF Suc.prems(2)], of va] by auto
          then show ?thesis using gone(2) self present_page(1) [of va a] by simp
        qed
        then show ?thesis using a1 by (auto simp: doomed_def intro: leI)
      qed
      moreover obtain k' fs where "dealloc_loop n kend d (a + 4096) oldsz k = Inr k'" "freed kend d (a + 4096) oldsz k xs k' fs"
        using IH [OF Suc.prems(1), of "a + 4096"] Suc.prems(2,4) a1 by auto
      moreover have "tab_page k d (PDX a) + 4 * PTX a \<noteq> 0" by (rule pte_nonzero [OF Suc.prems(1) gone(1)])
      moreover have "rd32 k (tab_page k d (PDX a) + 4 * PTX a) AND PTE_P = 0" using gone by (simp add: present_def pt_entry_def)
      ultimately show ?thesis using True gone freed_skip [of k d a oldsz "a + 4096" kend xs k' fs] by (auto simp: walk_find Let_def PGSIZE_def)
    next
      case there
      let ?u = "upage k d a" and ?pte = "tab_page k d (PDX a) + 4 * PTX a"
      from free_entry [OF Suc.prems(1) self ua there(2)] obtain k1 where k1: "kfree kend ?u k = Inr k1"
        and k2: "uvm_inv kend (wr32 ?pte 0 k1) (?u # xs) d" "\<And>va. pt_entry (wr32 ?pte 0 k1) d va = (if page_of va = a then 0 else pt_entry k d va)"
          "tab_pages (wr32 ?pte 0 k1) d = tab_pages k d" "\<And>p. p \<noteq> ?u \<Longrightarrow> p \<notin> tab_pages k d \<Longrightarrow> page_same p k (wr32 ?pte 0 k1)"
        unfolding Let_def by blast
      from IH [OF k2(1), of "a + 4096"] Suc.prems(2,4) a1 obtain k' fs where
        f: "dealloc_loop n kend d (a + 4096) oldsz (wr32 ?pte 0 k1) = Inr k'" "freed kend d (a + 4096) oldsz (wr32 ?pte 0 k1) (?u # xs) k' fs"
        by auto
      have rd: "rd32 k ?pte = pt_entry k d a" "pt_entry k d a AND PTE_P \<noteq> 0" using there by (simp_all add: pt_entry_def present_def)
      have "page_ok kend ?u" by (rule uvm_page(1) [OF Suc.prems(1) ua there(2)])
      then have pa: "PTE_ADDR (pt_entry k d a) \<noteq> 0" using Suc.prems(5) by (auto simp: page_ok_def upage_def P2V_def)
      have "dealloc_loop (Suc n) kend d a oldsz k = Inr k'"
        using True there(1) pte_nonzero [OF Suc.prems(1) there(1)] rd pa k1 f(1) by (simp add: walk_find Let_def PGSIZE_def upage_def)
      moreover have "freed kend d a oldsz k xs k' (fs @ [?u])" by (rule freed_step [OF self there(2) lt a1 k2(2-4) f(2)])
      ultimately show ?thesis by blast
    qed
  qed
qed

lemma deallocuvm_spec:
  assumes "uvm_inv kend k xs d" "newsz < oldsz" "unat oldsz \<le> 2147483648" "KERNBASE < kend"
  shows "\<exists>k' fs. deallocuvm kend d oldsz newsz k = Inr (newsz, k') \<and> freed kend d (PGROUNDUP newsz) oldsz k xs k' fs"
proof -
  have "unat oldsz \<le> unat (PGROUNDUP newsz) + 4096 * (unat oldsz div 4096 + 1)"
    using dividend_less_times_div [of 4096 "unat oldsz"] by simp
  from dealloc_loop_spec [OF assms(1) PGROUNDUP_aligned assms(3) this assms(4)] assms(2) show ?thesis
    by (auto simp: deallocuvm_def not_le)
qed

section \<open>Growing\<close>

lemma uvm_inv_frame:
  assumes inv: "uvm_inv kend k xs d" and k': "kmem_inv kend k' ys" "set ys \<subseteq> set xs" "\<And>p. p \<in> tab_pages k d \<Longrightarrow> page_same p k k'"
  shows "uvm_inv kend k' ys d" and "pt_entry k' d va = pt_entry k d va" and "tab_pages k' d = tab_pages k d"
proof -
  note pg = uvm_pgt [OF inv]
  have fr: "i < 1024 \<Longrightarrow> pde k' d i = pde k d i" "pt_entry k' d va = pt_entry k d va" for i va
    using tab_pages_frame [OF pg, of k'] k'(3) by blast+
  show t: "tab_pages k' d = tab_pages k d" by (rule tab_pages_same) (rule fr(1))
  show "pt_entry k' d va = pt_entry k d va" by (rule fr(2))
  have "pgt_inv kend k' ys d" by (rule pgt_inv_frame [OF pg k'(1), where N = "{}"]) (use k'(2) fr in auto)
  moreover have "present k' d va = present k d va" "upage k' d va = upage k d va" for va by (simp_all add: present_def upage_def fr)
  ultimately show "uvm_inv kend k' ys d" using inv k'(2) t unfolding uvm_inv_def by auto
qed

text \<open>One round of the loop of allocuvm, from a page x at the front of the free list.\<close>

lemma map_one:
  assumes inv: "pgt_inv kend k xs d" and a: "unat a mod 4096 = 0"
  obtains (remap) "pt_entry k d a AND PTE_P \<noteq> 0" "mappages d a PGSIZE pa perm k = Inl (Panic ''remap'')"
  | (full) "xs = []" "mappages d a PGSIZE pa perm k = Inr (-1, k)" "pt_entry k d a AND PTE_P = 0"
  | (ok) k' zs ys where "mappages d a PGSIZE pa perm k = Inr (0, k')" "xs = zs @ ys" "pgt_inv kend k' ys d" "vm_frame d zs k k'"
      "\<And>va. pt_entry k' d va = (if page_of va = a then pa OR perm OR PTE_P else pt_entry k d va)" "length zs \<le> 1"
proof -
  have pa: "page_of a = a" by (rule page_of_self [OF a])
  have "PGROUNDDOWN a = a" "PGROUNDDOWN (a + PGSIZE - 1) = a"
    using pa page_of_offset [OF a, of 4095] by (simp_all add: page_of_def PGSIZE_def add.commute)
  then have m: "mappages d a PGSIZE pa perm k = map_loop (Suc 0) d a a pa perm k" by (simp add: mappages_def Let_def del: map_loop.simps)
  from inv pa show ?thesis
  proof (cases rule: map_step)
    case full
    then show ?thesis using that(2) m by simp
  next
    case (entry pte k1 zs ys)
    show ?thesis
    proof (cases "pt_entry k d a AND PTE_P = 0")
      case True
      then have "map_loop (Suc 0) d a a pa perm k = Inr (0, wr32 pte (pa OR perm OR PTE_P) k1)" using entry(1-3) by (simp add: Let_def)
      then show ?thesis using that(3) [OF _ entry(4,5,7)] entry(6,8) m by simp
    qed (use that(1) m entry(1-3) in simp)
  qed
qed

lemma alloc_page:
  assumes inv: "uvm_inv kend k (x # ys) d" and a: "page_of a = a" "user a" "\<not> present k d a"
  obtains (ok) k1 k2 zs ws where "kalloc k = (x, k1)" "x \<noteq> 0" "mappages d a PGSIZE (V2P x) (PTE_W OR PTE_U) (zero_page x k1) = Inr (0, k2)"
      "ys = zs @ ws" "uvm_inv kend k2 ws d" "\<And>va. pt_entry k2 d va = (if page_of va = a then V2P x OR 7 else pt_entry k d va)"
      "tab_pages k2 d = tab_pages k d \<union> set zs" "\<And>b. page_of b = x \<Longrightarrow> kmem_mem k2 b = 0"
      "\<And>p. p \<notin> set (x # zs) \<Longrightarrow> p \<notin> tab_pages k d \<Longrightarrow> page_same p k k2" "length zs \<le> 1"
  | (full) k1 k2 where "kalloc k = (x, k1)" "x \<noteq> 0" "mappages d a PGSIZE (V2P x) (PTE_W OR PTE_U) (zero_page x k1) = Inr (-1, k2)"
      "uvm_inv kend k2 [] d" "\<And>va. pt_entry k2 d va = pt_entry k d va" "tab_pages k2 d = tab_pages k d \<union> set ys"
      "\<And>p. p \<notin> set (x # ys) \<Longrightarrow> p \<notin> tab_pages k d \<Longrightarrow> page_same p k k2" "ys = []"
proof -
  note pg = uvm_pgt [OF inv]
  have ki: "kmem_inv kend k (x # ys)" using pg by (simp add: pgt_inv_def)
  then obtain k1 where k1: "kalloc k = (x, k1)" "kmem_inv kend k1 ys" "kmem_mem k1 = kmem_mem k" using kmem_inv_alloc by blast
  have x: "page_ok kend x" "x \<notin> set ys" using ki by (auto simp: kmem_inv_def)
  have x0: "x \<noteq> 0" by (rule page_ok_nonzero [OF x(1)])
  have xa: "unat x mod 4096 = 0" using x(1) by (simp add: page_ok_def)
  have xt: "x \<notin> tab_pages k d" using pg by (auto simp: pgt_inv_def tab_pages_def)
  let ?z = "zero_page x k1"
  have zs: "page_same p k ?z" if "p \<noteq> x" for p
    using zero_page_same [OF xa that, of k1] by (simp add: page_same_def k1(3))
  have kz: "kmem_inv kend ?z ys"
  proof (rule kmem_inv_frame [OF k1(2)])
    show "page_same q k1 ?z" if "q \<in> set ys" for q by (rule zero_page_same [OF xa]) (use that x(2) in blast)
  qed simp
  have tz: "page_same p k ?z" if "p \<in> tab_pages k d" for p by (rule zs) (use that xt in blast)
  have uz: "uvm_inv kend ?z ys d" "tab_pages ?z d = tab_pages k d" "\<And>va. pt_entry ?z d va = pt_entry k d va"
    using uvm_inv_frame [OF inv kz] tz by (simp_all add: subset_insertI)
  have am: "unat a mod 4096 = 0" using a(1) page_of_le(3) [of a] by simp
  show ?thesis using uvm_pgt [OF uz(1)] am
  proof (cases rule: map_one [where pa = "V2P x" and perm = "PTE_W OR PTE_U"])
    case remap
    then show ?thesis using a(3) uz(3) by (simp add: present_def)
  next
    case (ok k2 zs ws)
    have ent: "pt_entry k2 d va = (if page_of va = a then V2P x OR 7 else pt_entry k d va)" for va
      using ok(5) uz(3) [of va] by (simp add: PTE_P_def PTE_W_def PTE_U_def or.assoc)
    have tabs: "tab_pages k2 d = tab_pages k d \<union> set zs" using ok(4) uz(2) by (simp add: vm_frame_def)
    have same: "page_same p ?z k2" if "p \<notin> set zs" "p \<notin> tab_pages k d" for p using ok(4) uz(2) that by (simp add: vm_frame_def)
    have up: "upage k2 d va = (if page_of va = a then x else upage k d va)" for va
      using ent [of va] pte_split(1) [OF V2P_aligned [OF xa], of 7] by (simp add: upage_def)
    have pr: "present k d va" if "page_of va \<noteq> a" "present k2 d va" for va using ent [of va] that by (simp add: present_def)
    have old: "page_ok kend (upage k d va)" "upage k d va \<notin> set (x # ys)" "upage k d va \<notin> tab_pages k d"
      if "user va" "page_of va \<noteq> a" "present k2 d va" for va using uvm_page [OF inv that(1) pr [OF that(2,3)]] by simp_all
    have "uvm_inv kend k2 ws d" unfolding uvm_inv_def
    proof (intro conjI allI impI)
      fix va assume v: "user va \<and> present k2 d va"
      show "page_ok kend (upage k2 d va)" "upage k2 d va \<notin> set ws" "upage k2 d va \<notin> tab_pages k2 d"
        using old [of va] v up [of va] x xt tabs ok(2) by (cases "page_of va = a"; auto)+
    next
      fix va va' assume v: "user va \<and> user va' \<and> present k2 d va \<and> present k2 d va' \<and> upage k2 d va = upage k2 d va'"
      then consider "page_of va = a" "page_of va' = a" | "page_of va \<noteq> a" "page_of va' \<noteq> a"
        using up [of va] up [of va'] old(2) [of va] old(2) [of va'] by fastforce
      then show "page_of va = page_of va'" using v up pr uvm_inj [OF inv, of va va'] by cases auto
    qed (rule ok(3))
    moreover have "kmem_mem k2 b = 0" if "page_of b = x" for b
    proof -
      have "page_same x ?z k2" using same x(2) xt ok(2) by simp
      then show ?thesis using that by (simp add: page_same_def zero_page_mem [OF xa])
    qed
    moreover have "page_same p k k2" if "p \<notin> set (x # zs)" "p \<notin> tab_pages k d" for p
      using that by (intro page_same_trans [OF zs same]) auto
    ultimately show ?thesis using that(1) [OF k1(1) x0 ok(1,2) _ ent tabs] ok(6) by blast
  next
    case full
    have e: "present ?z d va = present k d va" "upage ?z d va = upage k d va" for va by (simp_all add: present_def upage_def uz(3))
    have "page_same p k ?z" if "p \<notin> set (x # ys)" for p by (rule zs) (use that in simp)
    then show ?thesis using that(2) [OF k1(1) x0 full(2) _ uz(3)] uz(1,2) full(1) by auto
  qed
qed

definition new_range :: "u32 \<Rightarrow> u32 \<Rightarrow> u32 \<Rightarrow> bool" where
  "new_range b a va \<longleftrightarrow> unat b \<le> unat va \<and> unat (page_of va) < unat a"

text \<open>
  The state k after the pages from b up to a were added to the state k0, whose free list was xs0:
  the new pages are user pages, writable and zero, from the free list; all other entries and the
  contents of all other pages are as in k0; and no page is lost (X are pages the caller holds).
\<close>

definition grown :: "u32 \<Rightarrow> u32 \<Rightarrow> u32 \<Rightarrow> u32 \<Rightarrow> kmem \<Rightarrow> u32 list \<Rightarrow> u32 set \<Rightarrow> kmem \<Rightarrow> u32 list \<Rightarrow> bool" where
  "grown kend d b a k0 xs0 X k xs \<longleftrightarrow>
     uvm_inv kend k xs d \<and> set xs \<subseteq> set xs0 \<and> tab_pages k d \<subseteq> tab_pages k0 d \<union> set xs0 \<and>
     set xs0 \<subseteq> set xs \<union> X \<union> tab_pages k d \<union> upage k d ` {va. new_range b a va} \<and>
     (\<forall>va. new_range b a va \<longrightarrow> present k d va \<and> PTE_FLAGS (pt_entry k d va) = 7 \<and> upage k d va \<in> set xs0 \<and>
        (\<forall>c. page_of c = upage k d va \<longrightarrow> kmem_mem k c = 0)) \<and>
     (\<forall>va. \<not> new_range b a va \<longrightarrow> pt_entry k d va = pt_entry k0 d va) \<and>
     (\<forall>p. p \<notin> set xs0 \<and> p \<notin> tab_pages k0 d \<longrightarrow> page_same p k0 k)"

text \<open>The state after a failure: as k0, but for the pages that became page tables.\<close>

definition undone :: "u32 \<Rightarrow> u32 \<Rightarrow> kmem \<Rightarrow> u32 list \<Rightarrow> u32 set \<Rightarrow> kmem \<Rightarrow> u32 list \<Rightarrow> bool" where
  "undone kend d k0 xs0 X k xs \<longleftrightarrow>
     uvm_inv kend k xs d \<and> set xs \<subseteq> set xs0 \<and> set xs0 \<subseteq> set xs \<union> X \<union> tab_pages k d \<and>
     (\<forall>va. present k d va = present k0 d va \<and> (present k0 d va \<longrightarrow> pt_entry k d va = pt_entry k0 d va)) \<and>
     (\<forall>p. p \<notin> set xs0 \<and> p \<notin> tab_pages k0 d \<longrightarrow> page_same p k0 k)"

lemma grown_undo:
  assumes G: "grown kend d b a k0 xs0 X k xs" and b: "b = PGROUNDUP oldsz" and lt: "oldsz < newsz" "unat newsz \<le> 2147483648" "KERNBASE < kend"
    and an: "unat a < unat newsz" and free: "\<And>va. new_range b newsz va \<Longrightarrow> \<not> present k0 d va"
  shows "\<exists>k' ys. deallocuvm kend d newsz oldsz k = Inr (oldsz, k') \<and> undone kend d k0 xs0 X k' ys \<and> set ys \<subseteq> set xs \<union> upage k d ` {va. new_range b a va} \<and>
    tab_pages k' d = tab_pages k d"
proof -
  have inv: "uvm_inv kend k xs d" using G by (simp add: grown_def)
  from deallocuvm_spec [OF inv lt] obtain k' fs where
    k': "deallocuvm kend d newsz oldsz k = Inr (oldsz, k')" and f: "freed kend d b newsz k xs k' fs" unfolding b by blast
  have dm: "doomed k d b newsz va \<longleftrightarrow> new_range b a va" for va
  proof
    assume dv: "doomed k d b newsz va"
    show "new_range b a va"
    proof (rule ccontr)
      assume n: "\<not> new_range b a va"
      then have "pt_entry k d va = pt_entry k0 d va" using G by (simp add: grown_def)
      moreover have "\<not> present k0 d va" using dv by (intro free) (simp add: doomed_def new_range_def)
      ultimately show False using dv by (simp add: doomed_def present_def)
    qed
  next
    assume "new_range b a va"
    then show "doomed k d b newsz va" using G an by (auto simp: grown_def doomed_def new_range_def)
  qed
  have tb: "tab_pages k' d = tab_pages k d" using f by (simp add: freed_def)
  have fs: "set fs = upage k d ` {va. new_range b a va}" using f by (simp add: freed_def dm)
  have ent: "pt_entry k' d va = (if new_range b a va then 0 else pt_entry k d va)" for va using f dm by (simp add: freed_def)
  have sub: "set fs \<subseteq> set xs0" using G fs by (auto simp: grown_def)
  have "undone kend d k0 xs0 X k' (fs @ xs)" unfolding undone_def
  proof (intro conjI allI impI)
    show "uvm_inv kend k' (fs @ xs) d" using f by (simp add: freed_def)
    show "set (fs @ xs) \<subseteq> set xs0" using sub G by (simp add: grown_def)
    show "set xs0 \<subseteq> set (fs @ xs) \<union> X \<union> tab_pages k' d" using G tb fs by (auto simp: grown_def)
    fix va
    have old: "pt_entry k d va = pt_entry k0 d va" if "\<not> new_range b a va" using G that by (simp add: grown_def)
    have nw: "\<not> present k0 d va" if "new_range b a va" using that an by (intro free) (simp add: new_range_def)
    show "present k' d va = present k0 d va" using ent [of va] old nw by (cases "new_range b a va") (simp_all add: present_def)
    show "pt_entry k' d va = pt_entry k0 d va" if "present k0 d va" using that ent [of va] old nw by (cases "new_range b a va") simp_all
  next
    fix p assume p: "p \<notin> set xs0 \<and> p \<notin> tab_pages k0 d"
    then have "p \<notin> tab_pages k d" "page_same p k0 k" using G by (auto simp: grown_def)
    moreover have "p \<notin> set fs" using p sub by blast
    ultimately show "page_same p k0 k'" using f unfolding freed_def by (blast intro: page_same_trans)
  qed
  then show ?thesis using k' fs tb by (intro exI [of _ k'] exI [of _ "fs @ xs"]) auto
qed

lemma new_range_step:
  assumes "unat b \<le> unat a" "unat a mod 4096 = 0" "unat b mod 4096 = 0" "unat (a + 4096) = unat a + 4096"
  shows "new_range b (a + 4096) va \<longleftrightarrow> page_of va = a \<or> new_range b a va"
proof -
  obtain j where j: "unat a = 4096 * j" using assms(2) by (rule page_numberE)
  obtain l where l: "unat (page_of va) = 4096 * l" using page_of_le(3) by (rule page_numberE)
  have "unat (page_of va) < unat a + 4096 \<longleftrightarrow> unat (page_of va) = unat a \<or> unat (page_of va) < unat a" unfolding j l by auto
  then show ?thesis using page_le_iff [OF assms(3), of va] assms(1,4) by (auto simp: new_range_def word_unat_eq_iff)
qed

lemma new_range_user: "new_range b a va \<Longrightarrow> unat a mod 4096 = 0 \<Longrightarrow> unat a \<le> 2147483648 \<Longrightarrow> user va"
proof -
  assume n: "new_range b a va" "unat a mod 4096 = 0" "unat a \<le> 2147483648"
  obtain j where j: "unat a = 4096 * j" using n(2) by (rule page_numberE)
  obtain l where l: "unat (page_of va) = 4096 * l" using page_of_le(3) by (rule page_numberE)
  have "unat (page_of va) + 4096 \<le> unat a" using n(1) unfolding new_range_def j l by simp
  then show "user va" using page_of_le(2) [of va] n(3) by (simp add: user_def word_less_nat_alt KERNBASE_def)
qed

lemma user_pte:
  assumes "unat x mod 4096 = 0"
  shows "(V2P x OR 7) AND PTE_P \<noteq> 0" "PTE_FLAGS (V2P x OR 7) = 7" "P2V (PTE_ADDR (V2P x OR 7)) = x"
  using new_pde [OF assms] pte_split [OF V2P_aligned [OF assms], of 7] by (simp_all add: PTE_P_def PTE_W_def PTE_U_def or.assoc)

lemma grown_step:
  assumes G: "grown kend d b a k0 xs0 {} k (x # ys)" and a: "unat a mod 4096 = 0" "unat b mod 4096 = 0" "unat b \<le> unat a" "unat a + 4096 \<le> 2147483648"
    and k2: "ys = zs @ ws" "uvm_inv kend k2 ws d" "\<And>va. pt_entry k2 d va = (if page_of va = a then V2P x OR 7 else pt_entry k d va)"
      "tab_pages k2 d = tab_pages k d \<union> set zs" "\<And>c. page_of c = x \<Longrightarrow> kmem_mem k2 c = 0"
      "\<And>p. p \<notin> set (x # zs) \<Longrightarrow> p \<notin> tab_pages k d \<Longrightarrow> page_same p k k2"
  shows "grown kend d b (a + 4096) k0 xs0 {} k2 ws"
proof -
  have inv: "uvm_inv kend k (x # ys) d" and xs0: "set (x # ys) \<subseteq> set xs0" and tb: "tab_pages k d \<subseteq> tab_pages k0 d \<union> set xs0"
    using G by (simp_all add: grown_def)
  have a1: "unat (a + 4096) = unat a + 4096" using unat_add_small [of a 4096] a(4) by simp
  note rng = new_range_step [OF a(3,1,2) a1]
  have self: "page_of a = a" by (rule page_of_self [OF a(1)])
  have xa: "unat x mod 4096 = 0" using uvm_pgt [OF inv] by (simp add: pgt_inv_def kmem_inv_def page_ok_def)
  note up = user_pte [OF xa]
  have na: "page_of va \<noteq> a" if "new_range b a va" for va using that by (auto simp: new_range_def)
  have old: "upage k2 d va = upage k d va" "pt_entry k2 d va = pt_entry k d va" if "new_range b a va" for va
    using k2(3) [of va] na [OF that] by (simp_all add: upage_def)
  have pa: "upage k2 d va = x" if "page_of va = a" for va using k2(3) [of va] that up(3) by (simp add: upage_def)
  have img: "upage k2 d ` {va. new_range b (a + 4096) va} = insert x (upage k d ` {va. new_range b a va})"
  proof -
    have "{va. new_range b (a + 4096) va} = {va. page_of va = a} \<union> {va. new_range b a va}" using rng by blast
    moreover have "upage k2 d ` {va. page_of va = a} = {x}" using pa self by blast
    moreover have "upage k2 d ` {va. new_range b a va} = upage k d ` {va. new_range b a va}" by (rule image_cong) (use old in simp_all)
    ultimately show ?thesis by (simp add: image_Un)
  qed
  have new: "present k2 d va \<and> PTE_FLAGS (pt_entry k2 d va) = 7 \<and> upage k2 d va \<in> set xs0 \<and> (\<forall>c. page_of c = upage k2 d va \<longrightarrow> kmem_mem k2 c = 0)"
    if nr: "new_range b (a + 4096) va" for va
  proof (cases "page_of va = a")
    case True
    then show ?thesis using k2(3) [of va] pa [OF True] up k2(5) xs0 by (simp add: present_def)
  next
    case False
    then have r: "new_range b a va" using nr rng by blast
    then have g: "present k d va" "PTE_FLAGS (pt_entry k d va) = 7" "upage k d va \<in> set xs0" "\<forall>c. page_of c = upage k d va \<longrightarrow> kmem_mem k c = 0"
      using G by (simp_all add: grown_def)
    have "user va" by (rule new_range_user [OF r a(1)]) (use a(4) in simp)
    from uvm_page(2,3) [OF inv this g(1)] have "page_same (upage k d va) k k2" using k2(1) by (intro k2(6)) auto
    then show ?thesis using g old [OF r] by (simp add: present_def page_same_def)
  qed
  show ?thesis unfolding grown_def
  proof (intro conjI)
    show "set ws \<subseteq> set xs0" "tab_pages k2 d \<subseteq> tab_pages k0 d \<union> set xs0" using k2(1,4) xs0 tb by auto
    show "set xs0 \<subseteq> set ws \<union> {} \<union> tab_pages k2 d \<union> upage k2 d ` {va. new_range b (a + 4096) va}"
      using G k2(1,4) unfolding img by (auto simp: grown_def)
    show "\<forall>va. new_range b (a + 4096) va \<longrightarrow> present k2 d va \<and> PTE_FLAGS (pt_entry k2 d va) = 7 \<and> upage k2 d va \<in> set xs0 \<and>
        (\<forall>c. page_of c = upage k2 d va \<longrightarrow> kmem_mem k2 c = 0)" using new by blast
    show "\<forall>va. \<not> new_range b (a + 4096) va \<longrightarrow> pt_entry k2 d va = pt_entry k0 d va" using G k2(3) rng by (simp add: grown_def)
    show "\<forall>p. p \<notin> set xs0 \<and> p \<notin> tab_pages k0 d \<longrightarrow> page_same p k0 k2"
    proof (intro allI impI)
      fix p assume p: "p \<notin> set xs0 \<and> p \<notin> tab_pages k0 d"
      then have "page_same p k k2" using xs0 tb k2(1) by (intro k2(6)) auto
      moreover have "page_same p k0 k" using G p by (simp add: grown_def)
      ultimately show "page_same p k0 k2" by (blast intro: page_same_trans)
    qed
  qed (rule k2(2))
qed

lemma uvm_free:
  assumes inv: "uvm_inv kend k ys d" and x: "page_ok kend x" "x \<notin> set ys" "x \<notin> tab_pages k d" "\<And>va. user va \<Longrightarrow> present k d va \<Longrightarrow> upage k d va \<noteq> x"
  shows "\<exists>k'. kfree kend x k = Inr k' \<and> uvm_inv kend k' (x # ys) d \<and> tab_pages k' d = tab_pages k d \<and>
    (\<forall>va. pt_entry k' d va = pt_entry k d va) \<and> (\<forall>p. p \<noteq> x \<longrightarrow> page_same p k k')"
proof -
  note pg = uvm_pgt [OF inv]
  have ki: "kmem_inv kend k ys" using pg by (simp add: pgt_inv_def)
  have xa: "unat x mod 4096 = 0" using x(1) by (simp add: page_ok_def)
  from kmem_inv_free [OF ki x(1,2)] obtain k' where k': "kfree kend x k = Inr k'" "kmem_inv kend k' (x # ys)"
    "\<And>b. \<not> in_range x 4096 b \<Longrightarrow> kmem_mem k' b = kmem_mem k b" by blast
  have same: "page_same p k k'" if "p \<noteq> x" for p using that k'(3) in_range_page [OF xa] by (auto simp: page_same_def)
  have tp: "page_same p k k'" if "p \<in> tab_pages k d" for p by (rule same) (use that x(3) in blast)
  have fr: "i < 1024 \<Longrightarrow> pde k' d i = pde k d i" "pt_entry k' d va = pt_entry k d va" for i va
    using tab_pages_frame [OF pg, of k'] tp by blast+
  have pg': "pgt_inv kend k' (x # ys) d"
  proof (rule pgt_inv_frame [OF pg k'(2), where N = "{x}"])
    show "d \<notin> {x}" "\<And>i. i < 1024 \<Longrightarrow> has_tab k d i \<Longrightarrow> tab_page k d i \<notin> {x}" using x(3) tab_pages_in [of _ k] by (auto simp: tab_pages_def)
  qed (use fr(1) in auto)
  have tb: "tab_pages k' d = tab_pages k d" by (rule tab_pages_same) (rule fr(1))
  have e: "present k' d va = present k d va" "upage k' d va = upage k d va" for va by (simp_all add: present_def upage_def fr)
  have "uvm_inv kend k' (x # ys) d" using pg' inv x(4) unfolding uvm_inv_def e tb by auto
  with k'(1) tb fr(2) same show ?thesis by blast
qed

definition alloc_result :: "u32 \<Rightarrow> u32 \<Rightarrow> u32 \<Rightarrow> u32 \<Rightarrow> kmem \<Rightarrow> u32 list \<Rightarrow> (u32 \<times> kmem) res \<Rightarrow> bool" where
  "alloc_result kend d b newsz k0 xs0 r \<longleftrightarrow>
     (\<exists>k' ys. r = Inr (newsz, k') \<and> grown kend d b newsz k0 xs0 {} k' ys) \<or> (\<exists>k' ys. r = Inr (0, k') \<and> undone kend d k0 xs0 {} k' ys)"

lemma grown_full:
  assumes G: "grown kend d b a k0 xs0 {} k (x # ys)" and a: "unat a mod 4096 = 0" "unat a \<le> 2147483648"
    and k2: "uvm_inv kend k2 [] d" "\<And>va. pt_entry k2 d va = pt_entry k d va" "tab_pages k2 d = tab_pages k d \<union> set ys"
      "\<And>p. p \<notin> set (x # ys) \<Longrightarrow> p \<notin> tab_pages k d \<Longrightarrow> page_same p k k2"
  shows "grown kend d b a k0 xs0 {x} k2 []"
proof -
  have inv: "uvm_inv kend k (x # ys) d" and xs0: "set (x # ys) \<subseteq> set xs0" and tb: "tab_pages k d \<subseteq> tab_pages k0 d \<union> set xs0"
    using G by (simp_all add: grown_def)
  have e: "present k2 d va = present k d va" "upage k2 d va = upage k d va" for va by (simp_all add: present_def upage_def k2(2))
  have new: "kmem_mem k2 c = 0" if "new_range b a va" "page_of c = upage k d va" for va c
  proof -
    have g: "present k d va" "kmem_mem k c = 0" using G that by (simp_all add: grown_def)
    from uvm_page(2,3) [OF inv new_range_user [OF that(1) a] g(1)] have "page_same (upage k d va) k k2" by (intro k2(4))
    then show ?thesis using g(2) that(2) by (simp add: page_same_def)
  qed
  have same: "page_same p k0 k2" if "p \<notin> set xs0" "p \<notin> tab_pages k0 d" for p
  proof -
    have "page_same p k k2" using that xs0 tb by (intro k2(4)) auto
    moreover have "page_same p k0 k" using G that by (simp add: grown_def)
    ultimately show ?thesis by (blast intro: page_same_trans)
  qed
  have "set xs0 \<subseteq> set [] \<union> {x} \<union> tab_pages k2 d \<union> upage k2 d ` {va. new_range b a va}"
    using G unfolding grown_def e k2(3) by auto
  moreover have "tab_pages k2 d \<subseteq> tab_pages k0 d \<union> set xs0" using tb xs0 k2(3) by auto
  ultimately show ?thesis using G k2(1,2) new same unfolding grown_def by (simp add: e)
qed

lemma grown_done:
  assumes G: "grown kend d b a k0 xs0 {} k xs" and a: "unat a mod 4096 = 0" "unat b mod 4096 = 0" "a = b \<or> unat a < unat newsz + 4096" "unat newsz \<le> unat a"
  shows "grown kend d b newsz k0 xs0 {} k xs"
proof -
  have "new_range b a va \<longleftrightarrow> new_range b newsz va" for va
  proof
    assume n: "new_range b a va"
    obtain j where j: "unat a = 4096 * j" using a(1) by (rule page_numberE)
    obtain l where l: "unat (page_of va) = 4096 * l" using page_of_le(3) by (rule page_numberE)
    have "unat (page_of va) + 4096 \<le> unat a" using n unfolding new_range_def j l by simp
    moreover have "a \<noteq> b" using n page_le_iff [OF a(2), of va] by (auto simp: new_range_def)
    ultimately show "new_range b newsz va" using n a(3) by (auto simp: new_range_def)
  qed (use a(4) in \<open>auto simp: new_range_def\<close>)
  then show ?thesis using G by (simp add: grown_def)
qed

lemma undone_free:
  assumes U: "undone kend d k0 xs0 {x} k ys" and x: "page_ok kend x" "x \<notin> set ys" "x \<in> set xs0" "x \<notin> tab_pages k d"
    and nx: "\<And>va. user va \<Longrightarrow> present k0 d va \<Longrightarrow> upage k0 d va \<noteq> x"
  shows "\<exists>k'. kfree kend x k = Inr k' \<and> undone kend d k0 xs0 {} k' (x # ys)"
proof -
  have inv: "uvm_inv kend k ys d" using U by (simp add: undone_def)
  have u: "upage k d va \<noteq> x" if "user va" "present k d va" for va
  proof -
    have "present k0 d va" "pt_entry k d va = pt_entry k0 d va" using U that(2) by (auto simp: undone_def)
    with nx [OF that(1)] show ?thesis by (simp add: upage_def)
  qed
  from uvm_free [OF inv x(1,2,4) u] obtain k' where k': "kfree kend x k = Inr k'" "uvm_inv kend k' (x # ys) d" "tab_pages k' d = tab_pages k d"
    "\<And>va. pt_entry k' d va = pt_entry k d va" "\<And>p. p \<noteq> x \<Longrightarrow> page_same p k k'" by blast
  have "page_same p k0 k'" if "p \<notin> set xs0" "p \<notin> tab_pages k0 d" for p
  proof -
    have "page_same p k0 k" using U that by (simp add: undone_def)
    moreover have "page_same p k k'" by (rule k'(5)) (use that x(3) in blast)
    ultimately show ?thesis by (rule page_same_trans)
  qed
  then have "undone kend d k0 xs0 {} k' (x # ys)" using U k'(2-4) x(3) unfolding undone_def present_def by auto
  with k'(1) show ?thesis by blast
qed

lemma alloc_loop_spec:
  assumes G: "grown kend d b a k0 xs0 {} k xs" and a: "unat a mod 4096 = 0" "unat b \<le> unat a" "a = b \<or> unat a < unat newsz + 4096"
    and b: "b = PGROUNDUP oldsz" and sz: "oldsz \<le> newsz" "unat newsz < 2147483648" "KERNBASE < kend"
    and n: "unat newsz \<le> unat a + 4096 * n" and free: "\<And>va. new_range b newsz va \<Longrightarrow> \<not> present k0 d va"
  shows "alloc_result kend d b newsz k0 xs0 (alloc_loop n kend d a oldsz newsz k)"
  using G a n
proof (induction n arbitrary: a k xs)
  case 0
  have "\<not> a < newsz" "unat newsz \<le> unat a" using 0(5) by (simp_all add: word_less_nat_alt)
  then show ?case using grown_done [OF 0(1,2) _ 0(4)] PGROUNDUP_aligned [of oldsz] by (auto simp: alloc_result_def b)
next
  case (Suc n)
  show ?case
  proof (cases "a < newsz")
    case False
    then have "unat newsz \<le> unat a" by (simp add: word_less_nat_alt)
    then show ?thesis using False grown_done [OF Suc.prems(1,2) _ Suc.prems(4)] PGROUNDUP_aligned [of oldsz] by (auto simp: alloc_result_def b)
  next
    case True
    then have an: "unat a < unat newsz" by (simp add: word_less_nat_alt)
    have top: "unat a + 4096 \<le> 2147483648"
    proof -
      obtain j where j: "unat a = 4096 * j" using Suc.prems(2) by (rule page_numberE)
      then show ?thesis using an sz(2) by simp
    qed
    have a1: "unat (a + 4096) = unat a + 4096" using unat_add_small [of a 4096] top by simp
    have bm: "unat b mod 4096 = 0" using PGROUNDUP_aligned b by simp
    have self: "page_of a = a" by (rule page_of_self [OF Suc.prems(2)])
    have ua: "user a" using an sz(2) by (simp add: user_def word_less_nat_alt KERNBASE_def)
    have inv: "uvm_inv kend k xs d" using Suc.prems(1) by (simp add: grown_def)
    have na: "\<not> present k d a"
    proof -
      have "\<not> new_range b a a" by (simp add: new_range_def self)
      then have "pt_entry k d a = pt_entry k0 d a" using Suc.prems(1) by (simp add: grown_def)
      moreover have "\<not> present k0 d a" using an Suc.prems(3) by (intro free) (simp add: new_range_def self)
      ultimately show ?thesis by (simp add: present_def)
    qed
    have lt: "oldsz < newsz"
    proof -
      have "unat (PGROUNDUP oldsz) = (unat oldsz + 4095) div 4096 * 4096"
        using sz(1,2) by (intro unat_PGROUNDUP) (simp add: word_le_nat_alt)
      moreover have "unat oldsz \<le> (unat oldsz + 4095) div 4096 * 4096"
        using round_up_le [of "unat oldsz" "(unat oldsz + 4095) div 4096"] by (simp add: mult.commute)
      ultimately have "unat oldsz \<le> unat b" using b by simp
      then show ?thesis using an Suc.prems(3) by (simp add: word_less_nat_alt)
    qed
    have le: "unat newsz \<le> 2147483648" using sz(2) by simp
    show ?thesis
    proof (cases xs)
      case Nil
      have "kmem_inv kend k []" using uvm_pgt [OF inv] Nil by (simp add: pgt_inv_def)
      then have "kalloc k = (0, k)" by (rule kmem_inv_alloc_none)
      moreover from grown_undo [OF Suc.prems(1) b lt le sz(3) an free] obtain k' ys where
        "deallocuvm kend d newsz oldsz k = Inr (oldsz, k')" "undone kend d k0 xs0 {} k' ys" by blast
      ultimately show ?thesis using True by (auto simp: alloc_result_def)
    next
      case (Cons x ys)
      note G = Suc.prems(1) [unfolded Cons] and iv = inv [unfolded Cons]
      from iv self ua na show ?thesis
      proof (cases rule: alloc_page)
        case (ok k1 k2 zs ws)
        have "alloc_result kend d b newsz k0 xs0 (alloc_loop n kend d (a + 4096) oldsz newsz k2)"
          by (rule Suc.IH [OF grown_step [OF G Suc.prems(2) bm Suc.prems(3) top ok(4-9)]]) (use Suc.prems a1 an in auto)
        then show ?thesis using True ok(1-3) by (simp add: PGSIZE_def)
      next
        case (full k1 k2)
        have g2: "grown kend d b a k0 xs0 {x} k2 []" by (rule grown_full [OF G Suc.prems(2) _ full(4-7)]) (use top in simp)
        from grown_undo [OF g2 b lt le sz(3) an free] obtain k3 ys3 where
          k3: "deallocuvm kend d newsz oldsz k2 = Inr (oldsz, k3)" "undone kend d k0 xs0 {x} k3 ys3"
          "set ys3 \<subseteq> upage k2 d ` {va. new_range b a va}" "tab_pages k3 d = tab_pages k2 d" by auto
        have x: "page_ok kend x" "x \<notin> set ys" "x \<notin> tab_pages k d" using uvm_pgt [OF iv] by (auto simp: pgt_inv_def kmem_inv_def tab_pages_def)
        have nx: "upage k d va \<noteq> x" if "user va" "present k d va" for va using uvm_page(2) [OF iv that] by auto
        have old: "pt_entry k d va = pt_entry k0 d va" "present k d va" if "present k0 d va" for va
        proof -
          have "\<not> new_range b a va" using free [of va] that an by (auto simp: new_range_def)
          then show "pt_entry k d va = pt_entry k0 d va" using G by (simp add: grown_def)
          then show "present k d va" using that by (simp add: present_def)
        qed
        have "\<exists>k4. kfree kend x k3 = Inr k4 \<and> undone kend d k0 xs0 {} k4 (x # ys3)"
        proof (rule undone_free [OF k3(2) x(1)])
          have "upage k2 d va \<noteq> x" if "new_range b a va" for va
            using nx [OF new_range_user [OF that Suc.prems(2)], OF _ ] G that top full(5) by (simp add: grown_def upage_def)
          then show "x \<notin> set ys3" using k3(3) by blast
          show "x \<in> set xs0" using G by (simp add: grown_def)
          show "x \<notin> tab_pages k3 d" using x(2,3) full(6) k3(4) by simp
          show "upage k0 d va \<noteq> x" if "user va" "present k0 d va" for va
            using nx [OF that(1) old(2) [OF that(2)]] old(1) [OF that(2)] by (simp add: upage_def)
        qed
        then show ?thesis using True full(1-3) k3(1) by (auto simp: alloc_result_def)
      qed
    qed
  qed
qed

text \<open>
  C5.  Growing a process is all or nothing and leaks no data: on a well-formed address space whose
  pages between the two sizes are not mapped, allocuvm returns without a panic.  Either it
  returns the new size, and then exactly the pages between the sizes are new, each of them
  present, writable, accessible to the user, filled with zero bytes and taken from the free
  list, different from every other page of the address space; or it returns 0, and then the
  same addresses are mapped to the same pages as before.  In both cases the contents of
  all other pages are untouched, and every page that was free is free again, is a new user
  page or holds a page table.
\<close>

theorem allocuvm_ok:
  assumes "uvm_inv kend k xs d" "KERNBASE < kend" "oldsz \<le> newsz" "newsz < KERNBASE"
    and free: "\<And>va. new_range (PGROUNDUP oldsz) newsz va \<Longrightarrow> \<not> present k d va"
  shows "alloc_result kend d (PGROUNDUP oldsz) newsz k xs (allocuvm kend d oldsz newsz k)"
proof -
  have sz: "unat newsz < 2147483648" using assms(4) by (simp add: word_less_nat_alt KERNBASE_def)
  have none: "\<not> new_range (PGROUNDUP oldsz) (PGROUNDUP oldsz) va" for va
    using page_le_iff [OF PGROUNDUP_aligned [of oldsz], of va] by (auto simp: new_range_def)
  then have "grown kend d (PGROUNDUP oldsz) (PGROUNDUP oldsz) k xs {} k xs" using assms(1) by (simp add: grown_def)
  moreover have "unat newsz \<le> unat (PGROUNDUP oldsz) + 4096 * (unat newsz div 4096 + 1)"
    using dividend_less_times_div [of 4096 "unat newsz"] by simp
  ultimately have "alloc_result kend d (PGROUNDUP oldsz) newsz k xs (alloc_loop (unat newsz div 4096 + 1) kend d (PGROUNDUP oldsz) oldsz newsz k)"
    using alloc_loop_spec [OF _ PGROUNDUP_aligned order_refl _ refl assms(3) sz assms(2) _ free] by blast
  moreover have "\<not> newsz \<ge> KERNBASE" "\<not> newsz < oldsz" using assms(3,4) by simp_all
  ultimately show ?thesis unfolding allocuvm_def by (simp only: if_False)
qed

lemma two_pages_uvm: "uvm_inv 0x80100000 two_pages [0x80101000] 0x80100000" and two_pages_absent: "\<not> present two_pages 0x80100000 va"
proof -
  have "pt_entry two_pages 0x80100000 va = 0" for va by (simp add: pt_entry_def rd32_def two_pages_def load32_def)
  then show "\<not> present two_pages 0x80100000 va" for va by (simp add: present_def)
  with two_pages_ok show "uvm_inv 0x80100000 two_pages [0x80101000] 0x80100000" by (simp add: uvm_inv_def)
qed

theorem allocuvm_ok_witness:
  "\<exists>r k'. allocuvm 0x80100000 0x80100000 0 0x3000 two_pages = Inr (r, k') \<and> (r = 0 \<or> r = 0x3000)"
  using allocuvm_ok [OF two_pages_uvm, of 0 "0x3000"] two_pages_absent unfolding alloc_result_def KERNBASE_def by auto

end
