(* ===== verification/Shm.thy ===== *)
theory Shm
  imports Uvm
begin

text \<open>
  Named shared memory (vm.c, shmem.h): the table of shared pages, shm_get, which maps the page
  of a name into the caller, and shm_rem, which takes it away.  Pages are shared inside one
  container only.  A name is the list of its characters, the terminating NUL left out.
\<close>

section \<open>The operations\<close>

record shm_state =
  sm_procs :: "proc list"
  sm_list :: "shared_mem list"
  sm_kmem :: kmem

definition init_shm_list :: "shared_mem list \<Rightarrow> shared_mem list" where
  "init_shm_list l = map (\<lambda>e. e\<lparr>s_refcount := 0, s_in_use := False, s_container_id := 0\<rparr>) l"

text \<open>The comparison strncmp(field, name, strlen(name)) == 0 of a name field with a name.\<close>

definition name_is :: "u8 list \<Rightarrow> u8 list \<Rightarrow> bool res" where
  "name_is field name = bindr (strncmp_arr field (name @ [0]) (length name)) (\<lambda>r. Inr (r = 0))"

text \<open>The caller's slots: None if one of them has the name, otherwise the first slot not in use.\<close>

fun get_slots :: "u8 list \<Rightarrow> nat \<Rightarrow> nat option \<Rightarrow> shmem list \<Rightarrow> nat option option res" where
  "get_slots name i free [] = Inr (Some free)"
| "get_slots name i free (h # hs) =
     (let free = (if \<not> sh_in_use h \<and> free = None then Some i else free) in
      bindr (name_is (sh_name h) name) (\<lambda>eq. if eq then Inr None else get_slots name (Suc i) free hs))"

text \<open>The table: the entry with the name and the container, and the first entry not in use before it.\<close>

fun find_shared :: "u8 list \<Rightarrow> u32 \<Rightarrow> nat \<Rightarrow> nat option \<Rightarrow> shared_mem list \<Rightarrow> (nat option \<times> nat option) res" where
  "find_shared name cid i free [] = Inr (None, free)"
| "find_shared name cid i free (e # es) =
     (let free = (if free = None \<and> \<not> s_in_use e then Some i else free) in
      bindr (name_is (s_name e) name) (\<lambda>eq.
        if eq \<and> s_container_id e = cid then Inr (Some i, free) else find_shared name cid (Suc i) free es))"

text \<open>The end of shm_get: the page is mapped, the slot and the table entry are filled in.\<close>

definition shm_attach :: "nat \<Rightarrow> nat option \<Rightarrow> nat \<Rightarrow> u8 list \<Rightarrow> shm_state \<Rightarrow> (u32 \<times> shm_state) res" where
  "shm_attach pi new_shmem g name s =
     (let p = sm_procs s ! pi; e = sm_list s ! g in
      case new_shmem of
        None \<Rightarrow> Inl (Undefined ''new_shmem'')
      | Some j \<Rightarrow>
          let h = p_shm p ! j in
          bindr (strncpy_arr (sh_name h) (name @ [0]) (length name)) (\<lambda>nm.
            let h' = h\<lparr>sh_name := nm, sh_va := p_sz p, sh_global := Some g, sh_in_use := True\<rparr> in
            Inr (p_sz p,
                 s\<lparr>sm_procs := (sm_procs s)[pi := p\<lparr>p_sz := p_sz p + PGSIZE, p_shm := (p_shm p)[j := h']\<rparr>],
                   sm_list := (sm_list s)[g := e\<lparr>s_refcount := s_refcount e + 1, s_container_id := p_container_id p\<rparr>]\<rparr>)))"

text \<open>
  shm_get of process pi.  The test for a null name compares the name with the bytes at address 0
  of the caller, which are the argument at0.
\<close>

definition shm_get :: "u8 list \<Rightarrow> nat \<Rightarrow> u8 list \<Rightarrow> shm_state \<Rightarrow> (u32 \<times> shm_state) res" where
  "shm_get at0 pi name s =
     (let p = sm_procs s ! pi; a = PGROUNDUP (p_sz p) in
      bindr (strncmp_arr (name @ [0]) at0 (length name)) (\<lambda>null.
      if null = 0 then Inr (-1, s)
      else bindr (get_slots name 0 None (p_shm p)) (\<lambda>slots.
      case slots of
        None \<Rightarrow> Inr (-1, s)
      | Some new_shmem \<Rightarrow>
          bindr (find_shared name (p_container_id p) 0 None (sm_list s)) (\<lambda>(found, free).
          case found of
            Some g \<Rightarrow>
              bindr (mappages (p_pgdir p) a PGSIZE (s_pa (sm_list s ! g)) (PTE_W OR PTE_U) (sm_kmem s)) (\<lambda>(r, k).
                if r < 0 then Inr (-1, s\<lparr>sm_kmem := k\<rparr>)
                else shm_attach pi new_shmem g name (s\<lparr>sm_kmem := k\<rparr>))
          | None \<Rightarrow>
              (case free of
                 None \<Rightarrow> Inr (-1, s)
               | Some g \<Rightarrow>
                   let e = (sm_list s ! g)\<lparr>s_in_use := True\<rparr> in
                   case kalloc (sm_kmem s) of
                     (mem, k1) \<Rightarrow>
                       if mem = 0 then Inr (-1, s\<lparr>sm_list := (sm_list s)[g := e], sm_kmem := k1\<rparr>)
                       else bindr (mappages (p_pgdir p) a PGSIZE (V2P mem) (PTE_W OR PTE_U) (zero_page mem k1)) (\<lambda>(r, k2).
                            if r < 0 then Inl (Panic ''mem'')
                            else bindr (strncpy_arr (s_name e) (name @ [0]) (length name)) (\<lambda>nm.
                                 shm_attach pi new_shmem g name
                                   (s\<lparr>sm_list := (sm_list s)[g := e\<lparr>s_name := nm, s_pa := V2P mem\<rparr>], sm_kmem := k2\<rparr>))))))))"

text \<open>strncpy(field, "", strlen(field)): the name is overwritten with NULs.\<close>

definition clear_name :: "u8 list \<Rightarrow> u8 list res" where
  "clear_name field = bindr (strlen_arr field) (strncpy_arr field [0])"

text \<open>The first slot of the caller with the name, in use or not.\<close>

fun rem_slot :: "u8 list \<Rightarrow> nat \<Rightarrow> shmem list \<Rightarrow> nat option res" where
  "rem_slot name i [] = Inr None"
| "rem_slot name i (h # hs) =
     bindr (name_is (sh_name h) name) (\<lambda>eq. if eq then Inr (Some i) else rem_slot name (Suc i) hs)"

text \<open>
  The end of shm_rem: the entry of the slot's address is cleared, and with the last reference
  the page it maps is freed and the table entry is made available.
\<close>

definition shm_detach :: "u32 \<Rightarrow> nat \<Rightarrow> nat \<Rightarrow> nat \<Rightarrow> shm_state \<Rightarrow> (int \<times> shm_state) res" where
  "shm_detach kend pi g j s =
     (let p = sm_procs s ! pi; e = sm_list s ! g; h = p_shm p ! j;
          pte = fst (walkpgdir (p_pgdir p) (sh_va h) False (sm_kmem s)); lst = (s_refcount e = 1) in
      if pte = 0 then Inl (Undefined ''pte'')
      else bindr (if lst then kfree kend (P2V (PTE_ADDR (rd32 (sm_kmem s) pte))) (sm_kmem s) else Inr (sm_kmem s)) (\<lambda>k1.
           let k2 = (if rd32 k1 pte AND PTE_P \<noteq> 0 then wr32 pte 0 k1 else k1) in
           bindr (clear_name (sh_name h)) (\<lambda>nm.
           bindr (if lst then bindr (clear_name (s_name e)) (\<lambda>em. Inr (e\<lparr>s_name := em, s_pa := -1, s_in_use := False\<rparr>)) else Inr e) (\<lambda>e1.
           let h' = h\<lparr>sh_in_use := False, sh_name := nm, sh_va := -1\<rparr> in
           Inr (0, s\<lparr>sm_procs := (sm_procs s)[pi := p\<lparr>p_sz := p_sz p - PGSIZE, p_shm := (p_shm p)[j := h']\<rparr>],
                     sm_list := (sm_list s)[g := e1\<lparr>s_refcount := s_refcount e - 1\<rparr>], sm_kmem := k2\<rparr>)))))"

definition shm_rem :: "u32 \<Rightarrow> nat \<Rightarrow> u8 list \<Rightarrow> shm_state \<Rightarrow> (int \<times> shm_state) res" where
  "shm_rem kend pi name s =
     (let p = sm_procs s ! pi in
      bindr (find_shared name (p_container_id p) 0 None (sm_list s)) (\<lambda>(found, _).
      case found of
        None \<Rightarrow> Inr (-1, s)
      | Some g \<Rightarrow>
          bindr (rem_slot name 0 (p_shm p)) (\<lambda>slot.
          case slot of
            None \<Rightarrow> Inr (-1, s)
          | Some j \<Rightarrow> shm_detach kend pi g j s)))"

section \<open>Names and scans\<close>

definition named :: "u8 list \<Rightarrow> u8 list \<Rightarrow> bool" where
  "named name field \<longleftrightarrow> take (length name) field = name"

definition good_name :: "u8 list \<Rightarrow> bool" where
  "good_name name \<longleftrightarrow> name \<noteq> [] \<and> 0 \<notin> set name \<and> length name < 16"

lemma strncmp_arr_named:
  "\<lbrakk>0 \<notin> set xs; length xs \<le> length ys\<rbrakk> \<Longrightarrow> \<exists>r. strncmp_arr ys (xs @ zs) (length xs) = Inr r \<and> (r = 0 \<longleftrightarrow> take (length xs) ys = xs)"
proof (induction xs arbitrary: ys)
  case (Cons x xs)
  then obtain y ys' where y: "ys = y # ys'" by (cases ys) auto
  with Cons show ?case by (auto simp: uint_word_ariths intro: word_uint_eqI)
qed simp

lemma name_is_named: "good_name name \<Longrightarrow> length field = 16 \<Longrightarrow> name_is field name = Inr (named name field)"
  using strncmp_arr_named [of name field "[0]"] by (auto simp: name_is_def named_def good_name_def)

lemma get_slots_ok:
  assumes "good_name name" "\<forall>h\<in>set hs. length (sh_name h) = 16"
  shows "get_slots name i free hs =
    Inr (if \<exists>h\<in>set hs. named name (sh_name h) then None
         else Some (if free = None then scan_from (\<lambda>h. \<not> sh_in_use h) i hs else free))"
  using assms by (induction hs arbitrary: i free) (auto simp: name_is_named Let_def)

lemma find_shared_ok:
  assumes "good_name name" "\<forall>e\<in>set es. length (s_name e) = 16"
  shows "\<exists>f. find_shared name cid i free es = Inr (scan_from (\<lambda>e. named name (s_name e) \<and> s_container_id e = cid) i es, f) \<and>
    ((\<forall>e\<in>set es. \<not> (named name (s_name e) \<and> s_container_id e = cid)) \<longrightarrow>
      f = (if free = None then scan_from (\<lambda>e. \<not> s_in_use e) i es else free))"
  using assms
proof (induction es arbitrary: i free)
  case (Cons e es)
  let ?free = "if free = None \<and> \<not> s_in_use e then Some i else free"
  from Cons.IH [of "Suc i" ?free] Cons.prems show ?case by (auto simp: name_is_named Let_def)
qed simp

lemma rem_slot_ok:
  assumes "good_name name" "\<forall>h\<in>set hs. length (sh_name h) = 16"
  shows "rem_slot name i hs = Inr (scan_from (\<lambda>h. named name (sh_name h)) i hs)"
  using assms by (induction hs arbitrary: i) (auto simp: name_is_named)

text \<open>Copying a name into a field and clearing the field again.\<close>

lemma copy_name: "good_name name \<Longrightarrow> length field = 16 \<Longrightarrow> strncpy_arr field (name @ [0]) (length name) = Inr (name @ drop (length name) field)"
  by (rule strncpy_arr_short) (simp_all add: good_name_def)

lemma named_copy: "named name (name @ field)"
  by (simp add: named_def)

lemma clear_name_ok:
  assumes "0 \<in> set field"
  shows "clear_name field = Inr (replicate (length (cstr field)) 0 @ drop (length (cstr field)) field)"
proof -
  have le: "length (cstr field) \<le> length field" by (simp add: cstr_def length_takeWhile_le)
  show ?thesis
  proof (cases "length (cstr field)")
    case 0
    then show ?thesis using strlen_arr_ok [OF assms] by (simp add: clear_name_def)
  next
    case (Suc n)
    then obtain d ds where "field = d # ds" using le by (cases field) auto
    then show ?thesis using strlen_arr_ok [OF assms] Suc le by (simp add: clear_name_def pad_arr_ok)
  qed
qed

section \<open>shm_get\<close>

text \<open>
  The state shm_get and shm_rem of process pi rely on: a well-formed address space over the free
  pages xs, and name fields that end in a NUL.
\<close>

definition field_ok :: "u8 list \<Rightarrow> bool" where
  "field_ok f \<longleftrightarrow> length f = 16 \<and> f ! 15 = 0"

definition shm_inv :: "u32 \<Rightarrow> nat \<Rightarrow> shm_state \<Rightarrow> u32 list \<Rightarrow> bool" where
  "shm_inv kend pi s xs \<longleftrightarrow> pi < length (sm_procs s) \<and> uvm_inv kend (sm_kmem s) xs (p_pgdir (sm_procs s ! pi)) \<and>
     (\<forall>h\<in>set (p_shm (sm_procs s ! pi)). field_ok (sh_name h)) \<and> (\<forall>e\<in>set (sm_list s). field_ok (s_name e))"

abbreviation top_page :: "proc \<Rightarrow> u32" where
  "top_page p \<equiv> PGROUNDUP (p_sz p)"

text \<open>The entry for a name in a container: the one that has it, or else the first one not in use.\<close>

definition shm_has :: "u8 list \<Rightarrow> u32 \<Rightarrow> shared_mem \<Rightarrow> bool" where
  "shm_has name cid e \<longleftrightarrow> named name (s_name e) \<and> s_container_id e = cid"

definition shm_target :: "u8 list \<Rightarrow> u32 \<Rightarrow> shared_mem list \<Rightarrow> nat option" where
  "shm_target name cid l = (case scan (shm_has name cid) l of Some g \<Rightarrow> Some g | None \<Rightarrow> scan (\<lambda>e. \<not> s_in_use e) l)"

text \<open>The caller and the table entry after a successful call, with slot j and entry e.\<close>

definition got_proc :: "u8 list \<Rightarrow> nat \<Rightarrow> nat \<Rightarrow> proc \<Rightarrow> proc" where
  "got_proc name j g p =
     p\<lparr>p_sz := p_sz p + PGSIZE,
       p_shm := (p_shm p)[j := (p_shm p ! j)\<lparr>sh_name := name @ drop (length name) (sh_name (p_shm p ! j)), sh_va := p_sz p,
                                              sh_global := Some g, sh_in_use := True\<rparr>]\<rparr>"

definition got_entry :: "u8 list \<Rightarrow> u32 \<Rightarrow> u32 \<Rightarrow> shared_mem \<Rightarrow> shared_mem" where
  "got_entry name cid pa e =
     (if shm_has name cid e then e\<lparr>s_refcount := s_refcount e + 1\<rparr>
      else e\<lparr>s_in_use := True, s_name := name @ drop (length name) (s_name e), s_pa := pa, s_refcount := s_refcount e + 1,
             s_container_id := cid\<rparr>)"

definition got_state :: "u8 list \<Rightarrow> nat \<Rightarrow> nat \<Rightarrow> nat \<Rightarrow> u32 \<Rightarrow> kmem \<Rightarrow> shm_state \<Rightarrow> shm_state" where
  "got_state name pi j g pa k' s =
     \<lparr>sm_procs = (sm_procs s)[pi := got_proc name j g (sm_procs s ! pi)],
      sm_list = (sm_list s)[g := got_entry name (p_container_id (sm_procs s ! pi)) pa (sm_list s ! g)], sm_kmem = k'\<rparr>"

lemma shm_attach_ok:
  assumes "shm_inv kend pi s0 xs" "good_name name" "j < length (p_shm (sm_procs s ! pi))" "sm_procs s = sm_procs s0"
  shows "shm_attach pi (Some j) g name s =
    Inr (p_sz (sm_procs s ! pi),
         \<lparr>sm_procs = (sm_procs s)[pi := got_proc name j g (sm_procs s ! pi)],
          sm_list = (sm_list s)[g := (sm_list s ! g)\<lparr>s_refcount := s_refcount (sm_list s ! g) + 1, s_container_id := p_container_id (sm_procs s ! pi)\<rparr>],
          sm_kmem = sm_kmem s\<rparr>)"
proof -
  have "length (sh_name (p_shm (sm_procs s ! pi) ! j)) = 16" using assms(1,3,4) by (simp add: shm_inv_def field_ok_def)
  from copy_name [OF assms(2) this] show ?thesis by (simp add: shm_attach_def got_proc_def Let_def)
qed

text \<open>What the memory looks like once the page pa is mapped at a.\<close>

definition page_added :: "u32 \<Rightarrow> u32 \<Rightarrow> u32 \<Rightarrow> u32 \<Rightarrow> kmem \<Rightarrow> u32 list \<Rightarrow> kmem \<Rightarrow> u32 list \<Rightarrow> bool" where
  "page_added kend d a pa k xs k' ys \<longleftrightarrow> pgt_inv kend k' ys d \<and> set ys \<subseteq> set xs \<and> length xs \<le> length ys + 2 \<and>
     (\<forall>va. pt_entry k' d va = (if page_of va = a then pa OR 7 else pt_entry k d va)) \<and>
     (\<forall>p. p \<notin> set xs \<and> p \<notin> tab_pages k d \<longrightarrow> page_same p k k') \<and> tab_pages k' d \<subseteq> tab_pages k d \<union> set xs"

lemma perm7: "pa OR (PTE_W OR PTE_U) OR PTE_P = (pa OR 7 :: u32)"
  by (simp add: PTE_W_def PTE_U_def PTE_P_def)

text \<open>The checks at the start of shm_get.\<close>

lemma shm_get_checks:
  assumes inv: "shm_inv kend pi s xs" and nm: "good_name name" and at0: "length name \<le> length at0" "\<not> named name at0"
    and fresh: "\<forall>h\<in>set (p_shm (sm_procs s ! pi)). \<not> named name (sh_name h)"
  shows "strncmp_arr (name @ [0]) at0 (length name) \<noteq> Inr 0" "\<exists>r. strncmp_arr (name @ [0]) at0 (length name) = Inr r"
    "get_slots name 0 None (p_shm (sm_procs s ! pi)) = Inr (Some (scan (\<lambda>h. \<not> sh_in_use h) (p_shm (sm_procs s ! pi))))"
    "\<exists>f. find_shared name cid 0 None (sm_list s) = Inr (scan (shm_has name cid) (sm_list s), f) \<and>
       (scan (shm_has name cid) (sm_list s) = None \<longrightarrow> f = scan (\<lambda>e. \<not> s_in_use e) (sm_list s))"
proof -
  have l: "\<forall>h\<in>set (p_shm (sm_procs s ! pi)). length (sh_name h) = 16" "\<forall>e\<in>set (sm_list s). length (s_name e) = 16"
    using inv by (simp_all add: shm_inv_def field_ok_def)
  from strncmp_arr_prefix [of name at0 "[0]"] nm at0
  show "strncmp_arr (name @ [0]) at0 (length name) \<noteq> Inr 0" "\<exists>r. strncmp_arr (name @ [0]) at0 (length name) = Inr r"
    by (auto simp: good_name_def named_def)
  show "get_slots name 0 None (p_shm (sm_procs s ! pi)) = Inr (Some (scan (\<lambda>h. \<not> sh_in_use h) (p_shm (sm_procs s ! pi))))"
    unfolding get_slots_ok [OF nm l(1)] using fresh by (simp add: scan_def)
  from find_shared_ok [OF nm l(2), of cid 0 None]
  show "\<exists>f. find_shared name cid 0 None (sm_list s) = Inr (scan (shm_has name cid) (sm_list s), f) \<and>
       (scan (shm_has name cid) (sm_list s) = None \<longrightarrow> f = scan (\<lambda>e. \<not> s_in_use e) (sm_list s))"
    by (auto simp: scan_None shm_has_def) (auto simp: scan_def shm_has_def [abs_def])
qed

lemma page_added_map:
  assumes inv: "pgt_inv kend k xs d" and a: "unat a mod 4096 = 0" and np: "\<not> present k d a" and xs: "xs \<noteq> []"
  shows "\<exists>k' ys. mappages d a PGSIZE pa (PTE_W OR PTE_U) k = Inr (0, k') \<and> page_added kend d a pa k xs k' ys"
  using inv a
proof (cases rule: map_one [where pa = pa and perm = "PTE_W OR PTE_U"])
  case (ok k' zs ys)
  then have "page_added kend d a pa k xs k' ys" by (auto simp: page_added_def vm_frame_def perm7)
  with ok(1) show ?thesis by blast
qed (use np xs in \<open>simp_all add: present_def\<close>)

lemma shm_get_join:
  assumes inv: "shm_inv kend pi s xs" and nm: "good_name name" and at0: "length name \<le> length at0" "\<not> named name at0"
    and p: "p = sm_procs s ! pi" and fresh: "\<forall>h\<in>set (p_shm p). \<not> named name (sh_name h)" "scan (\<lambda>h. \<not> sh_in_use h) (p_shm p) = Some j"
    and g: "scan (shm_has name (p_container_id p)) (sm_list s) = Some g"
    and np: "\<not> present (sm_kmem s) (p_pgdir p) (top_page p)" and xs: "xs \<noteq> []"
  shows "\<exists>k' ys. shm_get at0 pi name s = Inr (p_sz p, got_state name pi j g pa k' s) \<and>
    page_added kend (p_pgdir p) (top_page p) (s_pa (sm_list s ! g)) (sm_kmem s) xs k' ys"
proof -
  have pg: "pgt_inv kend (sm_kmem s) xs (p_pgdir p)" using inv p by (simp add: shm_inv_def uvm_inv_def)
  from page_added_map [OF pg PGROUNDUP_aligned np xs] obtain k' ys
    where k': "mappages (p_pgdir p) (top_page p) PGSIZE (s_pa (sm_list s ! g)) (PTE_W OR PTE_U) (sm_kmem s) = Inr (0, k')"
      "page_added kend (p_pgdir p) (top_page p) (s_pa (sm_list s ! g)) (sm_kmem s) xs k' ys" by blast
  note ck = shm_get_checks [OF inv nm at0 fresh(1) [unfolded p], folded p]
  obtain r where r: "strncmp_arr (name @ [0]) at0 (length name) = Inr r" "r \<noteq> 0" using ck(1,2) by auto
  obtain f where f: "find_shared name (p_container_id p) 0 None (sm_list s) = Inr (Some g, f)"
    using ck(4) [of "p_container_id p"] g by auto
  have j: "j < length (p_shm p)" using fresh(2) by (rule scan_SomeD)
  have has: "shm_has name (p_container_id p) (sm_list s ! g)" using g by (rule scan_SomeD)
  let ?s = "s\<lparr>sm_kmem := k'\<rparr>" and ?e = "sm_list s ! g"
  have "?e\<lparr>s_refcount := s_refcount ?e + 1, s_container_id := p_container_id p\<rparr> = got_entry name (p_container_id p) pa ?e"
    using has by (simp add: got_entry_def shm_has_def)
  then have "shm_attach pi (Some j) g name ?s = Inr (p_sz p, got_state name pi j g pa k' s)"
    using shm_attach_ok [OF inv nm, of j ?s g] j p by (simp add: got_state_def)
  then show ?thesis using k' r f ck(3) fresh(2) by (auto simp: shm_get_def Let_def p [symmetric])
qed

lemma shm_get_create:
  assumes inv: "shm_inv kend pi s xs" and nm: "good_name name" and at0: "length name \<le> length at0" "\<not> named name at0"
    and p: "p = sm_procs s ! pi" and fresh: "\<forall>h\<in>set (p_shm p). \<not> named name (sh_name h)" "scan (\<lambda>h. \<not> sh_in_use h) (p_shm p) = Some j"
    and none: "scan (shm_has name (p_container_id p)) (sm_list s) = None" and g: "scan (\<lambda>e. \<not> s_in_use e) (sm_list s) = Some g"
    and np: "user (top_page p)" "\<not> present (sm_kmem s) (p_pgdir p) (top_page p)" and xs: "xs = x # x' # xs'"
  shows "\<exists>k' ys. shm_get at0 pi name s = Inr (p_sz p, got_state name pi j g (V2P x) k' s) \<and>
    page_added kend (p_pgdir p) (top_page p) (V2P x) (sm_kmem s) xs k' ys \<and> (\<forall>b. page_of b = x \<longrightarrow> kmem_mem k' b = 0) \<and>
    uvm_inv kend k' ys (p_pgdir p)"
proof -
  let ?d = "p_pgdir p" and ?a = "top_page p" and ?k = "sm_kmem s" and ?e = "sm_list s ! g"
  have uv: "uvm_inv kend ?k (x # x' # xs') ?d" using inv p xs by (simp add: shm_inv_def)
  have a: "page_of ?a = ?a" by (rule page_of_self [OF PGROUNDUP_aligned])
  note ck = shm_get_checks [OF inv nm at0 fresh(1) [unfolded p], folded p]
  obtain r where r: "strncmp_arr (name @ [0]) at0 (length name) = Inr r" "r \<noteq> 0" using ck(1,2) by auto
  have f: "find_shared name (p_container_id p) 0 None (sm_list s) = Inr (None, Some g)"
    using ck(4) [of "p_container_id p"] g none by auto
  have j: "j < length (p_shm p)" using fresh(2) by (rule scan_SomeD)
  have gl: "g < length (sm_list s)" using g by (rule scan_SomeD)
  have nh: "\<not> shm_has name (p_container_id p) ?e" using none gl by (simp add: scan_None)
  from uv a np show ?thesis
  proof (cases rule: alloc_page)
    case (ok k1 k2 zs ws)
    have "length (s_name ?e) = 16" using inv gl by (simp add: shm_inv_def field_ok_def)
    from copy_name [OF nm this] have cn: "strncpy_arr (s_name ?e) (name @ [0]) (length name) = Inr (name @ drop (length name) (s_name ?e))" .
    let ?s = "s\<lparr>sm_list := (sm_list s)[g := ?e\<lparr>s_in_use := True, s_name := name @ drop (length name) (s_name ?e), s_pa := V2P x\<rparr>], sm_kmem := k2\<rparr>"
    have "shm_attach pi (Some j) g name ?s = Inr (p_sz p, got_state name pi j g (V2P x) k2 s)"
      using shm_attach_ok [OF inv nm, of j ?s g] j p gl nh by (simp add: got_state_def got_entry_def)
    then have "shm_get at0 pi name s = Inr (p_sz p, got_state name pi j g (V2P x) k2 s)"
      using ok(1-3) r f ck(3) fresh(2) cn by (simp add: shm_get_def Let_def p [symmetric])
    moreover have "page_added kend ?d ?a (V2P x) ?k xs k2 ws"
      using ok(4-10) xs uvm_pgt [OF ok(5)] by (auto simp: page_added_def)
    ultimately show ?thesis using ok(5,8) by blast
  next
    case (full k1 k2)
    then show ?thesis by simp
  qed
qed

section \<open>shm_rem\<close>

lemma scan_upd: "scan P xs = None \<Longrightarrow> g < length xs \<Longrightarrow> P v \<Longrightarrow> scan P (xs[g := v]) = Some g"
  by (simp add: scan_Some scan_None)

lemma field_ok_copy: "good_name name \<Longrightarrow> field_ok f \<Longrightarrow> field_ok (name @ drop (length name) f)"
  by (auto simp: field_ok_def good_name_def nth_append)

lemma field_ok_nul: "field_ok f \<Longrightarrow> 0 \<in> set f"
  unfolding field_ok_def by (metis nth_mem numeral_less_iff semiring_norm(76,78,81))

lemma shm_inv_got:
  assumes inv: "shm_inv kend pi s xs" and nm: "good_name name" and k': "uvm_inv kend k' ys (p_pgdir (sm_procs s ! pi))"
    and j: "j < length (p_shm (sm_procs s ! pi))" and g: "g < length (sm_list s)"
  shows "shm_inv kend pi (got_state name pi j g pa k' s) ys"
proof -
  let ?p = "sm_procs s ! pi"
  have f: "\<forall>h\<in>set (p_shm ?p). field_ok (sh_name h)" "\<forall>e\<in>set (sm_list s). field_ok (s_name e)" "pi < length (sm_procs s)"
    using inv by (simp_all add: shm_inv_def)
  have "field_ok (sh_name (p_shm ?p ! j))" "field_ok (s_name (sm_list s ! g))" using f j g by simp_all
  then have "field_ok (sh_name h)" if "h \<in> set (p_shm (got_proc name j g ?p))" for h
    using that f(1) j field_ok_copy [OF nm] unfolding got_proc_def by (auto simp: set_conv_nth nth_upd)
  moreover have "field_ok (s_name e)" if "e \<in> set ((sm_list s)[g := got_entry name (p_container_id ?p) pa (sm_list s ! g)])" for e
    using that f(2) g field_ok_copy [OF nm] unfolding got_entry_def by (auto simp: set_conv_nth nth_upd split: if_splits)
  ultimately show ?thesis using f(3) k' by (simp add: shm_inv_def got_state_def) (simp add: got_proc_def)
qed

text \<open>
  The last reference goes: the page mapped at the address kept in the slot is freed, and its
  entry cleared.
\<close>

lemma shm_detach_last:
  assumes inv: "shm_inv kend pi s xs" and p: "p = sm_procs s ! pi" and j: "j < length (p_shm p)" and g: "g < length (sm_list s)"
    and v: "va = sh_va (p_shm p ! j)" "user va" "present (sm_kmem s) (p_pgdir p) va" and rc: "s_refcount (sm_list s ! g) = 1"
  shows "\<exists>k2 nm em. shm_detach kend pi g j s =
      Inr (0, s\<lparr>sm_procs := (sm_procs s)[pi := p\<lparr>p_sz := p_sz p - PGSIZE, p_shm := (p_shm p)[j := (p_shm p ! j)\<lparr>sh_in_use := False, sh_name := nm, sh_va := -1\<rparr>]\<rparr>],
                sm_list := (sm_list s)[g := (sm_list s ! g)\<lparr>s_name := em, s_pa := -1, s_in_use := False, s_refcount := 0\<rparr>], sm_kmem := k2\<rparr>) \<and>
    uvm_inv kend k2 (upage (sm_kmem s) (p_pgdir p) va # xs) (p_pgdir p) \<and>
    (\<forall>va'. pt_entry k2 (p_pgdir p) va' = (if page_of va' = page_of va then 0 else pt_entry (sm_kmem s) (p_pgdir p) va'))"
proof -
  let ?d = "p_pgdir p" and ?k = "sm_kmem s" and ?a = "page_of va" and ?u = "upage (sm_kmem s) (p_pgdir p) va"
  have uv: "uvm_inv kend ?k xs ?d" using inv p by (simp add: shm_inv_def)
  have aa: "page_of ?a = ?a" by (rule page_of_self [OF page_of_le(3)])
  have ua: "user ?a" using v(2) page_of_le(1) [of va] by (simp add: user_def word_less_nat_alt)
  have pa: "present ?k ?d ?a" "upage ?k ?d ?a = ?u" using present_page [OF aa, of ?k ?d] v(3) by simp_all
  have ix: "PDX ?a = PDX va" "PTX ?a = PTX va" using same_index [of ?a va] aa by simp_all
  let ?pte = "tab_page ?k ?d (PDX va) + 4 * PTX va"
  from free_entry [OF uv aa ua pa(1)] obtain k1 where k1: "kfree kend ?u ?k = Inr k1"
    "uvm_inv kend (wr32 ?pte 0 k1) (?u # xs) ?d" "\<And>va'. pt_entry (wr32 ?pte 0 k1) ?d va' = (if page_of va' = ?a then 0 else pt_entry ?k ?d va')"
    by (auto simp: Let_def pa(2) ix)
  have t: "has_tab ?k ?d (PDX va)" using v(3) by (cases "has_tab ?k ?d (PDX va)") (simp_all add: present_def pt_entry_def)
  have w: "fst (walkpgdir ?d va False ?k) = ?pte" using t by (simp add: walk_find)
  have nz: "?pte \<noteq> 0" by (rule slot_nonzero [of kend]) (use uvm_pgt [OF uv] t in \<open>auto simp: pgt_inv_def\<close>)
  have rd: "rd32 ?k ?pte = pt_entry ?k ?d va" using t by (simp add: pt_entry_def)
  note up = uvm_page [OF uv v(2,3)]
  have "page_same (tab_page ?k ?d (PDX va)) ?k k1"
  proof -
    have "kmem_inv kend ?k xs" using uvm_pgt [OF uv] by (simp add: pgt_inv_def)
    from kmem_inv_free [OF this up(1,2)] k1(1) have fr: "\<And>b. \<not> in_range ?u 4096 b \<Longrightarrow> kmem_mem k1 b = kmem_mem ?k b" by auto
    have "tab_page ?k ?d (PDX va) \<noteq> ?u" using tab_pages_in(2) [OF idx_less(1) t] up(3) by auto
    then show ?thesis using fr in_range_page [OF up(4)] by (auto simp: page_same_def)
  qed
  then have rd1: "rd32 k1 ?pte = pt_entry ?k ?d va"
    using rd32_same [OF pgt_pages(2) [OF uvm_pgt [OF uv]]] t rd by simp
  have "field_ok (sh_name (p_shm p ! j))" "field_ok (s_name (sm_list s ! g))" using inv j g p by (simp_all add: shm_inv_def)
  then obtain nm em where "clear_name (sh_name (p_shm p ! j)) = Inr nm" "clear_name (s_name (sm_list s ! g)) = Inr em"
    using clear_name_ok field_ok_nul by blast
  moreover have "P2V (PTE_ADDR (pt_entry ?k ?d va)) = ?u" by (simp add: upage_def)
  ultimately have "shm_detach kend pi g j s =
      Inr (0, s\<lparr>sm_procs := (sm_procs s)[pi := p\<lparr>p_sz := p_sz p - PGSIZE, p_shm := (p_shm p)[j := (p_shm p ! j)\<lparr>sh_in_use := False, sh_name := nm, sh_va := -1\<rparr>]\<rparr>],
                sm_list := (sm_list s)[g := (sm_list s ! g)\<lparr>s_name := em, s_pa := -1, s_in_use := False, s_refcount := 0\<rparr>], sm_kmem := wr32 ?pte 0 k1\<rparr>)"
    using w nz rd rd1 rc k1(1) v(3) unfolding shm_detach_def by (simp add: Let_def p [symmetric] v(1) [symmetric] present_def)
  with k1(2,3) show ?thesis by blast
qed

text \<open>Creating a page and removing it again, by the same process.\<close>

lemma shm_get_rem:
  assumes inv: "shm_inv kend pi s xs" and nm: "good_name name" and at0: "length name \<le> length at0" "\<not> named name at0"
    and p: "p = sm_procs s ! pi" and fresh: "\<forall>h\<in>set (p_shm p). \<not> named name (sh_name h)" "scan (\<lambda>h. \<not> sh_in_use h) (p_shm p) = Some j"
    and none: "scan (shm_has name (p_container_id p)) (sm_list s) = None" and g: "scan (\<lambda>e. \<not> s_in_use e) (sm_list s) = Some g"
    and rc: "s_refcount (sm_list s ! g) = 0"
    and np: "user (top_page p)" "\<not> present (sm_kmem s) (p_pgdir p) (top_page p)" and xs: "xs = x # x' # xs'"
    and last: "user (p_sz p)" "page_of (p_sz p) = top_page p \<or> present (sm_kmem s) (p_pgdir p) (p_sz p)"
  shows "\<exists>s1 s2 ys. shm_get at0 pi name s = Inr (p_sz p, s1) \<and> shm_rem kend pi name s1 = Inr (0, s2) \<and> set ys \<subseteq> set xs \<and>
    uvm_inv kend (sm_kmem s2) ((if page_of (p_sz p) = top_page p then x else upage (sm_kmem s) (p_pgdir p) (p_sz p)) # ys) (p_pgdir p) \<and>
    p_sz (sm_procs s2 ! pi) = p_sz p \<and> p_pgdir (sm_procs s2 ! pi) = p_pgdir p \<and> \<not> s_in_use (sm_list s2 ! g) \<and>
    (\<forall>va. pt_entry (sm_kmem s2) (p_pgdir p) va =
       (if page_of va = page_of (p_sz p) then 0 else if page_of va = top_page p then V2P x OR 7 else pt_entry (sm_kmem s) (p_pgdir p) va))"
proof -
  let ?d = "p_pgdir p" and ?a = "top_page p" and ?cid = "p_container_id p"
  from shm_get_create [OF inv nm at0 p fresh none g np xs] obtain k1 ys
    where g1: "shm_get at0 pi name s = Inr (p_sz p, got_state name pi j g (V2P x) k1 s)"
      and pa: "page_added kend ?d ?a (V2P x) (sm_kmem s) xs k1 ys" and uv: "uvm_inv kend k1 ys ?d" by blast
  let ?s1 = "got_state name pi j g (V2P x) k1 s"
  have j: "j < length (p_shm p)" using fresh(2) by (rule scan_SomeD)
  have gl: "g < length (sm_list s)" using g by (rule scan_SomeD)
  have pl: "pi < length (sm_procs s)" using inv by (simp add: shm_inv_def)
  have nh: "\<not> shm_has name ?cid (sm_list s ! g)" using none gl by (simp add: scan_None)
  have i1: "shm_inv kend pi ?s1 ys" by (rule shm_inv_got [OF inv nm _ _ gl]) (use uv j p in simp_all)
  let ?p1 = "got_proc name j g p"
  have p1: "sm_procs ?s1 ! pi = ?p1" "sm_kmem ?s1 = k1" "p_container_id ?p1 = ?cid" "p_pgdir ?p1 = ?d" "sh_va (p_shm ?p1 ! j) = p_sz p" "j < length (p_shm ?p1)"
    using pl j by (simp_all add: got_state_def p got_proc_def)
  have "shm_has name ?cid (got_entry name ?cid (V2P x) (sm_list s ! g))" using nh by (simp add: got_entry_def) (simp add: shm_has_def named_copy)
  then have f1: "scan (shm_has name ?cid) (sm_list ?s1) = Some g" using scan_upd [OF none gl] by (simp add: got_state_def p)
  have "scan (\<lambda>h. named name (sh_name h)) (p_shm p) = None" using fresh(1) by (simp add: scan_None)
  from scan_upd [OF this j] have r1: "scan (\<lambda>h. named name (sh_name h)) (p_shm ?p1) = Some j" by (simp add: got_proc_def named_copy)
  have fd: "\<forall>h\<in>set (p_shm ?p1). length (sh_name h) = 16" "\<forall>e\<in>set (sm_list ?s1). length (s_name e) = 16"
    using i1 by (simp_all add: shm_inv_def field_ok_def p1)
  have rm: "shm_rem kend pi name ?s1 = shm_detach kend pi g j ?s1"
    using find_shared_ok [OF nm fd(2), of ?cid 0 None] rem_slot_ok [OF nm fd(1), of 0] f1 r1 p1
    by (auto simp: shm_rem_def Let_def scan_def shm_has_def [abs_def])
  have ent: "pt_entry k1 ?d va = (if page_of va = ?a then V2P x OR 7 else pt_entry (sm_kmem s) ?d va)" for va
    using pa by (simp add: page_added_def)
  have x7: "(V2P x OR 7) AND PTE_P \<noteq> 0" "P2V (PTE_ADDR (V2P x OR 7)) = x"
  proof -
    have "unat x mod 4096 = 0" using inv p xs by (simp add: shm_inv_def uvm_inv_def pgt_inv_def kmem_inv_def page_ok_def)
    from pte_split(1) [OF V2P_aligned [OF this], of 7] show "P2V (PTE_ADDR (V2P x OR 7)) = x" by simp
    have "bit (V2P x OR 7) 0" by (simp add: bit_simps)
    then show "(V2P x OR 7) AND PTE_P \<noteq> 0" by (simp add: PTE_P_def and_one_eq bit_0 odd_iff_mod_2_eq_one)
  qed
  have pr: "present k1 ?d (p_sz p)" using last(2) ent [of "p_sz p"] x7(1) by (auto simp: present_def)
  have u: "upage k1 ?d (p_sz p) = (if page_of (p_sz p) = ?a then x else upage (sm_kmem s) ?d (p_sz p))"
    using ent [of "p_sz p"] x7(2) by (simp add: upage_def)
  have ge: "sm_list ?s1 ! g = got_entry name ?cid (V2P x) (sm_list s ! g)" "length (sm_list ?s1) = length (sm_list s)" "length (sm_procs ?s1) = length (sm_procs s)"
    using gl by (simp_all add: got_state_def p)
  have rc1: "s_refcount (sm_list ?s1 ! g) = 1" using rc by (simp add: ge got_entry_def)
  from shm_detach_last [OF i1 p1(1) [symmetric] p1(6), of g "p_sz p"] obtain k2 nm' em where d:
    "shm_detach kend pi g j ?s1 = Inr (0, ?s1\<lparr>sm_procs := (sm_procs ?s1)[pi := ?p1\<lparr>p_sz := p_sz ?p1 - PGSIZE, p_shm := (p_shm ?p1)[j := (p_shm ?p1 ! j)\<lparr>sh_in_use := False, sh_name := nm', sh_va := -1\<rparr>]\<rparr>],
                sm_list := (sm_list ?s1)[g := (sm_list ?s1 ! g)\<lparr>s_name := em, s_pa := -1, s_in_use := False, s_refcount := 0\<rparr>], sm_kmem := k2\<rparr>)"
    "uvm_inv kend k2 (upage k1 ?d (p_sz p) # ys) ?d" "\<forall>va. pt_entry k2 ?d va = (if page_of va = page_of (p_sz p) then 0 else pt_entry k1 ?d va)"
    using gl rc1 pr last(1) unfolding p1 ge(2) by blast
  have "set ys \<subseteq> set xs" using pa by (simp add: page_added_def)
  moreover have "p_sz ?p1 - PGSIZE = p_sz p" by (simp add: got_proc_def)
  ultimately show ?thesis using g1 rm d(1) pl gl ge(2,3) d(2) [unfolded u] d(3) ent p1(4)
    by (intro exI [of _ ?s1] exI conjI; (rule g1)?; (simp only: rm d(1))?; (simp add: d u ent)?)
qed

section \<open>Properties\<close>

lemma round_up_gt:
  assumes "n mod 4096 \<noteq> (0 :: nat)"
  shows "n < (n + 4095) div 4096 * 4096"
proof -
  have "(n mod 4096 + 4095) div 4096 = 1" using assms mod_less_divisor [of 4096 n] by (intro div_nat_eqI) simp_all
  moreover have "n + 4095 = (n mod 4096 + 4095) + n div 4096 * 4096" using div_mult_mod_eq [of n 4096] by linarith
  then have "(n + 4095) div 4096 = n div 4096 + (n mod 4096 + 4095) div 4096" using div_mult_self1 [of 4096 "n mod 4096 + 4095" "n div 4096"] by (metis zero_neq_numeral)
  ultimately have "(n + 4095) div 4096 * 4096 = n div 4096 * 4096 + 4096" by simp
  then show ?thesis using div_mult_mod_eq [of n 4096] mod_less_divisor [of 4096 n] by linarith
qed

text \<open>A call of shm_get that has all it needs: a free slot j, an entry g for the name, and free pages.\<close>

definition shm_ready :: "u32 \<Rightarrow> u8 list \<Rightarrow> nat \<Rightarrow> u8 list \<Rightarrow> shm_state \<Rightarrow> u32 list \<Rightarrow> nat \<Rightarrow> nat \<Rightarrow> bool" where
  "shm_ready kend at0 pi name s xs j g \<longleftrightarrow> shm_inv kend pi s xs \<and> good_name name \<and> length name \<le> length at0 \<and> \<not> named name at0 \<and>
     (let p = sm_procs s ! pi in
      (\<forall>h\<in>set (p_shm p). \<not> named name (sh_name h)) \<and> scan (\<lambda>h. \<not> sh_in_use h) (p_shm p) = Some j \<and>
      shm_target name (p_container_id p) (sm_list s) = Some g \<and>
      user (top_page p) \<and> \<not> present (sm_kmem s) (p_pgdir p) (top_page p)) \<and> 2 \<le> length xs"

lemma shm_get_ready:
  assumes r: "shm_ready kend at0 pi name s xs j g" and p: "p = sm_procs s ! pi"
  shows "\<exists>k' ys. shm_get at0 pi name s = Inr (p_sz p, got_state name pi j g (V2P (hd xs)) k' s) \<and>
    page_added kend (p_pgdir p) (top_page p) (s_pa (got_entry name (p_container_id p) (V2P (hd xs)) (sm_list s ! g))) (sm_kmem s) xs k' ys \<and>
    (\<not> shm_has name (p_container_id p) (sm_list s ! g) \<longrightarrow> \<not> s_in_use (sm_list s ! g) \<and> (\<forall>b. page_of b = hd xs \<longrightarrow> kmem_mem k' b = 0))"
proof -
  have inv: "shm_inv kend pi s xs" and nm: "good_name name" and at0: "length name \<le> length at0" "\<not> named name at0"
    and fr: "\<forall>h\<in>set (p_shm p). \<not> named name (sh_name h)" "scan (\<lambda>h. \<not> sh_in_use h) (p_shm p) = Some j"
    and tg: "shm_target name (p_container_id p) (sm_list s) = Some g"
    and np: "user (top_page p)" "\<not> present (sm_kmem s) (p_pgdir p) (top_page p)"
    and xl: "2 \<le> length xs"
    using r by (auto simp: shm_ready_def p Let_def)
  obtain x x' xs' where xs: "xs = x # x' # xs'" using xl by (cases xs; cases "tl xs") auto
  show ?thesis
  proof (cases "scan (shm_has name (p_container_id p)) (sm_list s)")
    case None
    then have g: "scan (\<lambda>e. \<not> s_in_use e) (sm_list s) = Some g" using tg by (simp add: shm_target_def)
    then have gl: "g < length (sm_list s)" "\<not> s_in_use (sm_list s ! g)" using scan_SomeD by fastforce+
    then have "\<not> shm_has name (p_container_id p) (sm_list s ! g)" using None by (simp add: scan_None)
    then show ?thesis using shm_get_create [OF inv nm at0 p fr None g np xs] gl xs by (auto simp: got_entry_def)
  next
    case (Some g')
    then have g: "scan (shm_has name (p_container_id p)) (sm_list s) = Some g" using tg by (simp add: shm_target_def)
    then have "shm_has name (p_container_id p) (sm_list s ! g)" by (rule scan_SomeD)
    then show ?thesis using shm_get_join [OF inv nm at0 p fr g np(2), of "V2P (hd xs)"] xs by (auto simp: got_entry_def)
  qed
qed


text \<open>A call that succeeds on a name its container has.\<close>

lemma shm_get_joined:
  assumes inv: "shm_inv kend pi s xs" and nm: "good_name name" and p: "p = sm_procs s ! pi"
    and g: "scan (shm_has name (p_container_id p)) (sm_list s) = Some g"
    and ok: "shm_get at0 pi name s = Inr (r, s')" "r \<noteq> -1"
  shows "\<exists>ys. page_added kend (p_pgdir p) (top_page p) (s_pa (sm_list s ! g)) (sm_kmem s) xs (sm_kmem s') ys"
proof -
  have l: "\<forall>h\<in>set (p_shm p). length (sh_name h) = 16" "\<forall>e\<in>set (sm_list s). length (s_name e) = 16"
    using inv p by (simp_all add: shm_inv_def field_ok_def)
  obtain c where c: "strncmp_arr (name @ [0]) at0 (length name) = Inr c" "c \<noteq> 0"
    using ok by (cases "strncmp_arr (name @ [0]) at0 (length name)") (auto simp: shm_get_def Let_def split: if_splits)
  obtain f where f: "find_shared name (p_container_id p) 0 None (sm_list s) = Inr (Some g, f)"
    using find_shared_ok [OF nm l(2), of "p_container_id p" 0 None] g by (auto simp: scan_def shm_has_def [abs_def])
  obtain sl where sl: "get_slots name 0 None (p_shm p) = Inr (Some sl)"
    using ok c by (auto simp: shm_get_def Let_def p [symmetric] get_slots_ok [OF nm l(1)] split: if_splits)
  have pg: "pgt_inv kend (sm_kmem s) xs (p_pgdir p)" using inv p by (simp add: shm_inv_def uvm_inv_def)
  have eq: "shm_get at0 pi name s = bindr (mappages (p_pgdir p) (top_page p) PGSIZE (s_pa (sm_list s ! g)) (PTE_W OR PTE_U) (sm_kmem s))
      (\<lambda>(r, k). if r < 0 then Inr (-1, s\<lparr>sm_kmem := k\<rparr>) else shm_attach pi sl g name (s\<lparr>sm_kmem := k\<rparr>))"
    using c f sl by (simp add: shm_get_def Let_def p [symmetric])
  show ?thesis using pg PGROUNDUP_aligned [of "p_sz p"]
  proof (cases rule: map_one [where pa = "s_pa (sm_list s ! g)" and perm = "PTE_W OR PTE_U"])
    case (ok k' zs ys)
    have "shm_attach pi sl g name (s\<lparr>sm_kmem := k'\<rparr>) = Inr (r, s')" using eq ok(1) assms(5) by simp
    then have "sm_kmem s' = k'" by (auto simp: shm_attach_def Let_def bindr_eq_Inr split: option.splits)
    with ok show ?thesis by (auto simp: page_added_def vm_frame_def perm7)
  qed (use eq ok in auto)
qed

text \<open>What a successful shm_get of pi means for another process pj of the container.\<close>

lemma shm_get_other:
  assumes r: "shm_ready kend at0 pi name s xs j g" and st: "s1 = got_state name pi j g (V2P (hd xs)) k' s" and p: "p = sm_procs s ! pi" "q = sm_procs s ! pj"
    and pa: "page_added kend (p_pgdir p) a pa (sm_kmem s) xs k' ys"
    and q: "shm_inv kend pj s xs" "pj \<noteq> pi" "p_container_id q = p_container_id p"
    and dj: "tab_pages (sm_kmem s) (p_pgdir q) \<inter> tab_pages (sm_kmem s) (p_pgdir p) = {}"
  shows "shm_inv kend pj s1 ys" "sm_procs s1 ! pj = q" "sm_kmem s1 = k'" "scan (shm_has name (p_container_id q)) (sm_list s1) = Some g"
    "sm_list s1 ! g = got_entry name (p_container_id p) (V2P (hd xs)) (sm_list s ! g)"
    "tab_pages k' (p_pgdir q) = tab_pages (sm_kmem s) (p_pgdir q)" "\<And>va. pt_entry k' (p_pgdir q) va = pt_entry (sm_kmem s) (p_pgdir q) va"
    "tab_pages k' (p_pgdir q) \<inter> tab_pages k' (p_pgdir p) = {}"
proof -
  let ?cid = "p_container_id p" and ?d = "p_pgdir p" and ?d' = "p_pgdir q" and ?k = "sm_kmem s"
  have inv: "shm_inv kend pi s xs" "good_name name" and tg: "shm_target name ?cid (sm_list s) = Some g"
    using r by (auto simp: shm_ready_def Let_def p)
  have gl: "g < length (sm_list s)" using tg scan_SomeD(1) unfolding shm_target_def by (auto split: option.splits)
  have xq: "p' \<notin> set xs" if "p' \<in> tab_pages ?k ?d'" for p' using q(1) that p by (auto simp: shm_inv_def uvm_inv_def pgt_inv_def tab_pages_def)
  have sq: "page_same p' ?k k'" if "p' \<in> tab_pages ?k ?d'" for p' using pa xq [OF that] that dj by (auto simp: page_added_def)
  have ki: "kmem_inv kend k' ys" "set ys \<subseteq> set xs" using pa by (auto simp: page_added_def pgt_inv_def)
  have uq: "uvm_inv kend ?k xs ?d'" using q(1) p by (simp add: shm_inv_def)
  note fq = uvm_inv_frame [OF uq ki(1,2) sq]
  show pq: "sm_procs s1 ! pj = q" "sm_kmem s1 = k'" using q(2) by (simp_all add: st got_state_def p)
  show ge: "sm_list s1 ! g = got_entry name ?cid (V2P (hd xs)) (sm_list s ! g)" using gl by (simp add: st got_state_def p)
  have fld: "field_ok (s_name e)" if "e \<in> set (sm_list s1)" for e
  proof -
    have "field_ok (s_name (got_entry name ?cid (V2P (hd xs)) (sm_list s ! g)))"
      using inv gl field_ok_copy [OF inv(2)] by (auto simp: got_entry_def shm_inv_def)
    then show ?thesis using that inv(1) set_update_subset_insert [of "sm_list s" g] by (auto simp: st got_state_def shm_inv_def p)
  qed
  show "shm_inv kend pj s1 ys" using q(1) fq(1) fld pq p(2) unfolding shm_inv_def by (simp add: st got_state_def)
  have has: "shm_has name ?cid (sm_list s1 ! g)" unfolding ge by (simp add: got_entry_def) (simp add: shm_has_def named_copy)
  show "scan (shm_has name (p_container_id q)) (sm_list s1) = Some g" unfolding q(3)
  proof (cases "scan (shm_has name ?cid) (sm_list s)")
    case None
    then show "scan (shm_has name ?cid) (sm_list s1) = Some g" using scan_upd [OF None gl] has ge by (simp add: st got_state_def p)
  next
    case (Some g')
    then have "scan (shm_has name ?cid) (sm_list s) = Some g" using tg by (simp add: shm_target_def)
    then show "scan (shm_has name ?cid) (sm_list s1) = Some g" using has unfolding scan_Some by (auto simp: st got_state_def nth_upd)
  qed
  show "tab_pages k' ?d' = tab_pages ?k ?d'" "\<And>va. pt_entry k' ?d' va = pt_entry ?k ?d' va" using fq(2,3) by simp_all
  show "tab_pages k' ?d' \<inter> tab_pages k' ?d = {}" using fq(3) dj xq pa by (auto simp: page_added_def)
qed

text \<open>
  C16.  Processes of one container that ask for the same name share the page.  After process pi has
  got the name, any successful shm_get of it by another process pj of the container, whose
  address space is disjoint from that of pi, leaves both with the same physical page at the
  top of their memory, mapped and writable.
\<close>

theorem shm_get_shares:
  assumes r: "shm_ready kend at0 pi name s xs j g" and s1: "shm_get at0 pi name s = Inr (r1, s1)"
    and q: "shm_inv kend pj s xs" "pj \<noteq> pi" "p_container_id (sm_procs s ! pj) = p_container_id (sm_procs s ! pi)"
    and dj: "tab_pages (sm_kmem s) (p_pgdir (sm_procs s ! pj)) \<inter> tab_pages (sm_kmem s) (p_pgdir (sm_procs s ! pi)) = {}"
    and s2: "shm_get at0' pj name s1 = Inr (r2, s2)" "r2 \<noteq> -1"
  shows "pt_entry (sm_kmem s2) (p_pgdir (sm_procs s ! pi)) (top_page (sm_procs s ! pi)) = s_pa (sm_list s1 ! g) OR 7 \<and>
    pt_entry (sm_kmem s2) (p_pgdir (sm_procs s ! pj)) (top_page (sm_procs s ! pj)) = s_pa (sm_list s1 ! g) OR 7"
proof -
  let ?p = "sm_procs s ! pi" and ?q = "sm_procs s ! pj"
  let ?d = "p_pgdir ?p"
  from shm_get_ready [OF r refl] s1 obtain k' ys where st: "s1 = got_state name pi j g (V2P (hd xs)) k' s"
    and pa: "page_added kend ?d (top_page ?p) (s_pa (got_entry name (p_container_id ?p) (V2P (hd xs)) (sm_list s ! g))) (sm_kmem s) xs k' ys" by auto
  note o = shm_get_other [OF r st refl refl pa q dj]
  have nm: "good_name name" using r by (simp add: shm_ready_def)
  from shm_get_joined [OF o(1) nm o(2) [symmetric] o(4) s2] obtain zs
    where pb: "page_added kend (p_pgdir ?q) (top_page ?q) (s_pa (sm_list s1 ! g)) k' ys (sm_kmem s2) zs" by (auto simp: o(3))
  have top: "page_of (top_page p) = top_page p" for p by (rule page_of_self [OF PGROUNDUP_aligned])
  have ki: "pgt_inv kend k' ys ?d" using pa by (simp add: page_added_def)
  have "page_same p k' (sm_kmem s2)" if "p \<in> tab_pages k' ?d" for p
  proof -
    have "p \<notin> set ys" using ki that by (auto simp: pgt_inv_def tab_pages_def)
    then show ?thesis using pb that o(8) by (auto simp: page_added_def)
  qed
  from tab_pages_frame(2) [OF ki this] have "pt_entry (sm_kmem s2) ?d (top_page ?p) = pt_entry k' ?d (top_page ?p)" .
  also have "\<dots> = s_pa (sm_list s1 ! g) OR 7" using pa top o(5) by (simp add: page_added_def)
  finally show ?thesis using pb top by (simp add: page_added_def)
qed

text \<open>
  C37.  shm_rem takes away the wrong page when the size of the process is not a multiple of the page
  size.  The process creates a page, which is mapped at its size rounded up, while the slot
  keeps the size itself; removing the page frees the process's own last page and clears its
  entry, and the shared page stays mapped and is never freed.
\<close>

theorem shm_rem_unaligned:
  assumes r: "shm_ready kend at0 pi name s xs j g" and p: "p = sm_procs s ! pi"
    and new: "\<not> shm_has name (p_container_id p) (sm_list s ! g)" "s_refcount (sm_list s ! g) = 0"
    and sz: "unat (p_sz p) mod 4096 \<noteq> 0" "user (p_sz p)" "present (sm_kmem s) (p_pgdir p) (p_sz p)"
  shows "\<exists>s1 s2 ys. shm_get at0 pi name s = Inr (p_sz p, s1) \<and> shm_rem kend pi name s1 = Inr (0, s2) \<and>
    kmem_inv kend (sm_kmem s2) (upage (sm_kmem s) (p_pgdir p) (p_sz p) # ys) \<and>
    \<not> present (sm_kmem s2) (p_pgdir p) (p_sz p) \<and> pt_entry (sm_kmem s2) (p_pgdir p) (top_page p) = V2P (hd xs) OR 7"
proof -
  have inv: "shm_inv kend pi s xs" "good_name name" "length name \<le> length at0" "\<not> named name at0"
    and fr: "\<forall>h\<in>set (p_shm p). \<not> named name (sh_name h)" "scan (\<lambda>h. \<not> sh_in_use h) (p_shm p) = Some j"
    and tg: "shm_target name (p_container_id p) (sm_list s) = Some g"
    and np: "user (top_page p)" "\<not> present (sm_kmem s) (p_pgdir p) (top_page p)" and xl: "2 \<le> length xs"
    using r by (auto simp: shm_ready_def p Let_def)
  obtain x x' xs' where xs: "xs = x # x' # xs'" using xl by (cases xs; cases "tl xs") auto
  have none: "scan (shm_has name (p_container_id p)) (sm_list s) = None"
    using tg new(1) scan_SomeD(2) unfolding shm_target_def by (fastforce split: option.splits)
  then have g: "scan (\<lambda>e. \<not> s_in_use e) (sm_list s) = Some g" using tg by (simp add: shm_target_def)
  have ne: "page_of (p_sz p) \<noteq> top_page p"
  proof
    assume e: "page_of (p_sz p) = top_page p"
    have "unat (p_sz p) + 4095 < 2 ^ 32" using sz(2) by (simp add: user_def word_less_nat_alt KERNBASE_def)
    from unat_PGROUNDUP [OF this] e page_of_le(1) [of "p_sz p"] have "(unat (p_sz p) + 4095) div 4096 * 4096 \<le> unat (p_sz p)" by simp
    with round_up_gt [OF sz(1)] show False by simp
  qed
  have top: "page_of (top_page p) = top_page p" by (rule page_of_self [OF PGROUNDUP_aligned])
  from shm_get_rem [OF inv p fr none g new(2) np xs sz(2)] sz(3) ne obtain s1 s2 ys where s:
    "shm_get at0 pi name s = Inr (p_sz p, s1)" "shm_rem kend pi name s1 = Inr (0, s2)"
    "uvm_inv kend (sm_kmem s2) (upage (sm_kmem s) (p_pgdir p) (p_sz p) # ys) (p_pgdir p)"
    "\<forall>va. pt_entry (sm_kmem s2) (p_pgdir p) va = (if page_of va = page_of (p_sz p) then 0
       else if page_of va = top_page p then V2P x OR 7 else pt_entry (sm_kmem s) (p_pgdir p) va)" by auto
  have "kmem_inv kend (sm_kmem s2) (upage (sm_kmem s) (p_pgdir p) (p_sz p) # ys)" using s(3) by (simp add: uvm_inv_def pgt_inv_def)
  then show ?thesis using s(1,2,4) ne top xs by (auto simp: present_def)
qed

section \<open>An example state\<close>

text \<open>
  Two processes: the first has one page and the size 100, the second has no memory; three pages
  are free.
\<close>

definition ex_kmem :: kmem where
  "ex_kmem = wr32 0x80100000 0x101007 (wr32 0x80101000 0x102007 (wr32 0x80104000 0x80105000 (wr32 0x80105000 0x80106000
     \<lparr>kmem_mem = (\<lambda>_. 0), use_lock = True, freelist = 0x80104000\<rparr>)))"

definition ex_shm :: shm_state where
  "ex_shm = \<lparr>sm_procs = [zero_proc\<lparr>p_sz := 100, p_pgdir := 0x80100000\<rparr>, zero_proc\<lparr>p_pgdir := 0x80103000\<rparr>],
     sm_list = replicate SHM_MAXNUM \<lparr>s_name = replicate 16 0, s_pa = 0, s_refcount = 0, s_in_use = False, s_container_id = 0\<rparr>, sm_kmem = ex_kmem\<rparr>"

abbreviation ex_free :: "u32 list" where
  "ex_free \<equiv> [0x80104000, 0x80105000, 0x80106000]"

lemma ex_rd:
  assumes "unat q mod 4096 = 0" "j < 1024"
  shows "rd32 ex_kmem (q + 4 * j) =
    (if j \<noteq> 0 then 0 else if q = 0x80100000 then 0x101007 else if q = 0x80101000 then 0x102007
     else if q = 0x80104000 then 0x80105000 else if q = 0x80105000 then 0x80106000 else 0)"
proof -
  have w: "rd32 (wr32 p v k) (q + 4 * j) = (if p = q \<and> j = 0 then v else rd32 k (q + 4 * j))" if "unat p mod 4096 = 0" for p v k
    using rd32_wr32 [OF that _ assms, of 0 v k] by auto
  have z: "rd32 \<lparr>kmem_mem = \<lambda>_. 0, use_lock = True, freelist = 0x80104000\<rparr> a = 0" for a by (simp add: rd32_def load32_def)
  have al: "unat (0x80100000 :: u32) mod 4096 = 0" "unat (0x80101000 :: u32) mod 4096 = 0" "unat (0x80104000 :: u32) mod 4096 = 0"
    "unat (0x80105000 :: u32) mod 4096 = 0" by simp_all
  show ?thesis unfolding ex_kmem_def al [THEN w] z by auto
qed

lemma ex_tables:
  "has_tab ex_kmem 0x80100000 i \<longleftrightarrow> i = 0" "tab_page ex_kmem 0x80100000 0 = 0x80101000" "\<not> has_tab ex_kmem 0x80103000 i" if "i < 1024"
  using ex_rd [of "0x80100000" i] ex_rd [of "0x80100000" 0] ex_rd [of "0x80103000" i] that
  by (auto simp: has_tab_def tab_page_def pde_def PTE_P_def PTE_ADDR_def P2V_def KERNBASE_def)

lemma ex_entries:
  "pt_entry ex_kmem 0x80100000 va = (if page_of va = 0 then 0x102007 else 0)" "pt_entry ex_kmem 0x80103000 va = 0"
proof -
  have "PDX 0 = 0" "PTX 0 = 0" by (simp_all add: PDX_def PTX_def)
  then have e: "page_of va = 0 \<longleftrightarrow> PDX va = 0 \<and> PTX va = 0" using same_index [of va 0] page_of_self [of 0] by auto
  show "pt_entry ex_kmem 0x80100000 va = (if page_of va = 0 then 0x102007 else 0)"
    using ex_tables [OF idx_less(1) [of va]] ex_rd [of "0x80101000" "PTX va"] by (auto simp: pt_entry_def e)
  show "pt_entry ex_kmem 0x80103000 va = 0" using ex_tables [OF idx_less(1) [of va]] by (simp add: pt_entry_def)
qed

lemma ex_kmem_inv: "kmem_inv 0x80100000 ex_kmem ex_free"
proof -
  have "freelist ex_kmem = 0x80104000" by (simp add: ex_kmem_def)
  moreover have "load32 (kmem_mem ex_kmem) 0x80104000 = 0x80105000" "load32 (kmem_mem ex_kmem) 0x80105000 = 0x80106000"
    "load32 (kmem_mem ex_kmem) 0x80106000 = 0"
    using ex_rd [of "0x80104000" 0] ex_rd [of "0x80105000" 0] ex_rd [of "0x80106000" 0] by (simp_all add: rd32_def)
  ultimately show ?thesis by (simp add: kmem_inv_def page_ok_def V2P_def page_consts)
qed

lemma ex_uvm: "uvm_inv 0x80100000 ex_kmem ex_free 0x80100000" "uvm_inv 0x80100000 ex_kmem ex_free 0x80103000"
proof -
  have "{i. i < 1024 \<and> has_tab ex_kmem 0x80100000 i} = {0}" using ex_tables(1) by auto
  then have tp: "tab_pages ex_kmem 0x80100000 = {0x80100000, 0x80101000}" using ex_tables(2) [of 0] by (auto simp: tab_pages_def)
  have up: "present ex_kmem 0x80100000 va \<longleftrightarrow> page_of va = 0" "page_of va = 0 \<Longrightarrow> upage ex_kmem 0x80100000 va = 0x80102000" for va
    by (simp_all add: present_def upage_def ex_entries PTE_P_def PTE_ADDR_def P2V_def KERNBASE_def)
  have "pgt_inv 0x80100000 ex_kmem ex_free 0x80100000"
    using ex_kmem_inv ex_tables by (auto simp: pgt_inv_def page_ok_def V2P_def page_consts)
  then show "uvm_inv 0x80100000 ex_kmem ex_free 0x80100000"
    by (auto simp: uvm_inv_def up tp page_ok_def V2P_def page_consts)
  have "pgt_inv 0x80100000 ex_kmem ex_free 0x80103000"
    using ex_kmem_inv ex_tables by (auto simp: pgt_inv_def page_ok_def V2P_def page_consts)
  then show "uvm_inv 0x80100000 ex_kmem ex_free 0x80103000" by (simp add: uvm_inv_def present_def ex_entries)
qed

lemma ex_shm_inv: "pi < 2 \<Longrightarrow> shm_inv 0x80100000 pi ex_shm ex_free"
  using ex_uvm by (auto simp: shm_inv_def ex_shm_def zero_proc_def zero_shmem_def field_ok_def less_2_cases_iff)

lemma ex_ready: "shm_ready 0x80100000 [1] 0 [7] ex_shm ex_free 0 0"
proof -
  have r: "top_page (sm_procs ex_shm ! 0) = 0x1000" by (simp add: ex_shm_def PGROUNDUP_def PGSIZE_def)
  have "page_of 0x1000 = 0x1000" by (rule page_of_self) simp
  moreover have "shm_target [7] 0 (sm_list ex_shm) = Some 0"
    by (simp add: shm_target_def ex_shm_def scan_def shm_has_def named_def SHM_MAXNUM_def numeral_eq_Suc)
  moreover have "scan (\<lambda>h. \<not> sh_in_use h) (p_shm (sm_procs ex_shm ! 0)) = Some 0"
    by (simp add: ex_shm_def scan_def zero_proc_def zero_shmem_def SHM_MAXNUM_def numeral_eq_Suc)
  ultimately show ?thesis using ex_shm_inv [of 0] r
    by (simp add: shm_ready_def Let_def good_name_def named_def user_def KERNBASE_def present_def ex_entries ex_shm_def)
       (simp add: ex_entries zero_proc_def zero_shmem_def)
qed

lemma ex_got: "got_entry [7] 0 (V2P 0x80104000) (sm_list ex_shm ! 0) =
    \<lparr>s_name = 7 # replicate 15 0, s_pa = 0x104000, s_refcount = 1, s_in_use = True, s_container_id = 0\<rparr>"
    "\<not> shm_has [7] 0 (sm_list ex_shm ! 0)" "s_refcount (sm_list ex_shm ! 0) = 0"
  by (simp_all add: got_entry_def shm_has_def named_def ex_shm_def SHM_MAXNUM_def V2P_def KERNBASE_def)

lemma ex_procs: "sm_kmem ex_shm = ex_kmem" "p_sz (sm_procs ex_shm ! 0) = 100" "p_pgdir (sm_procs ex_shm ! 0) = 0x80100000" "p_container_id (sm_procs ex_shm ! 0) = 0"
    "p_sz (sm_procs ex_shm ! 1) = 0" "p_pgdir (sm_procs ex_shm ! 1) = 0x80103000" "p_container_id (sm_procs ex_shm ! 1) = 0"
    "p_shm (sm_procs ex_shm ! 1) = replicate 4 zero_shmem"
    "PGROUNDUP 100 = 0x1000" "PGROUNDUP 0 = 0" "page_of 0x1000 = 0x1000" "page_of 0 = 0" "page_of 100 = 0"
  by (simp_all add: ex_shm_def zero_proc_def SHM_MAXNUM_def PGROUNDUP_def PGROUNDDOWN_def page_of_def PGSIZE_def)


theorem shm_rem_unaligned_witness:
  "\<exists>s1 s2. shm_get [1] 0 [7] ex_shm = Inr (100, s1) \<and> shm_rem 0x80100000 0 [7] s1 = Inr (0, s2) \<and>
     \<not> present (sm_kmem s2) 0x80100000 100 \<and> pt_entry (sm_kmem s2) 0x80100000 0x1000 = 0x104007"
  using shm_rem_unaligned [OF ex_ready refl] ex_got(2,3)
  by (auto simp: ex_procs present_def ex_entries PTE_P_def user_def KERNBASE_def V2P_def)

theorem shm_get_shares_witness:
  "\<exists>s1 r s2. shm_get [1] 0 [7] ex_shm = Inr (100, s1) \<and> shm_get [1] 1 [7] s1 = Inr (r, s2) \<and>
     pt_entry (sm_kmem s2) 0x80100000 0x1000 = 0x104007 \<and> pt_entry (sm_kmem s2) 0x80103000 0 = 0x104007"
proof -
  from shm_get_ready [OF ex_ready refl] obtain k' ys where g: "shm_get [1] 0 [7] ex_shm = Inr (100, got_state [7] 0 0 0 (V2P (hd ex_free)) k' ex_shm)"
    and pa: "page_added 0x80100000 0x80100000 0x1000 0x104000 ex_kmem ex_free k' ys" by (auto simp: ex_procs ex_got)
  let ?s1 = "got_state [7] 0 0 0 (V2P (hd ex_free)) k' ex_shm"
  have dj: "tab_pages ex_kmem 0x80103000 \<inter> tab_pages ex_kmem 0x80100000 = {}"
    using ex_tables by (auto simp: tab_pages_def)
  have one: "(1 :: nat) < 2" "(1 :: nat) \<noteq> 0" by simp_all
  note o = shm_get_other [OF ex_ready refl refl refl _ ex_shm_inv, of "0x1000" "0x104000" k' ys 1, unfolded ex_procs, OF pa one refl dj]
  have ys: "ys \<noteq> []" using pa by (auto simp: page_added_def)
  let ?q = "sm_procs ex_shm ! 1"
  have "scan (shm_has [7] (p_container_id ?q)) (sm_list ?s1) = Some 0" using o(4) unfolding ex_procs .
  moreover have "\<not> present (sm_kmem ?s1) (p_pgdir ?q) (top_page ?q)" using o(7) unfolding o(3) ex_procs by (simp add: present_def ex_entries)
  moreover have "\<forall>h\<in>set (p_shm ?q). \<not> named [7] (sh_name h)" "scan (\<lambda>h. \<not> sh_in_use h) (p_shm ?q) = Some 0"
    unfolding ex_procs by (simp add: zero_shmem_def named_def) (simp add: scan_def zero_shmem_def numeral_eq_Suc)
  ultimately have "\<exists>k'' zs. shm_get [1] 1 [7] ?s1 = Inr (p_sz ?q, got_state [7] 1 0 0 0 k'' ?s1) \<and>
      page_added 0x80100000 (p_pgdir ?q) (top_page ?q) (s_pa (sm_list ?s1 ! 0)) (sm_kmem ?s1) ys k'' zs"
    by (intro shm_get_join [OF o(1) _ _ _ o(2) [symmetric] _ _ _ _ ys]) (assumption | simp add: good_name_def named_def)+
  then obtain r s2 where s2: "shm_get [1] 1 [7] ?s1 = Inr (r, s2)" "r \<noteq> -1" unfolding ex_procs by fastforce
  have "s_pa (sm_list ?s1 ! 0) = 0x104000" using o(5) ex_got by simp
  then show ?thesis using shm_get_shares [OF ex_ready g ex_shm_inv [of 1] _ _ _ s2, unfolded ex_procs, OF one refl dj] g s2 by auto
qed

end
