(* ===== verification/Fs.thy ===== *)
theory Fs
  imports LogOps Carray
begin

text \<open>
  The file system (fs.c, fs.h, file.h, stat.h): the free map, the table of inodes in memory, the
  inodes on disk, the contents of files and directories.  Every routine works through the
  buffer cache and the log; pointers to inodes are indices into the inode table.
\<close>

section \<open>Data\<close>

definition ROOTINO :: u32 where "ROOTINO = 1"
definition NINODE :: nat where "NINODE = 50"
definition NDEV :: int where "NDEV = 10"
definition NDIRECT :: nat where "NDIRECT = 12"
definition NINDIRECT :: nat where "NINDIRECT = BSIZE div 4"
definition MAXFILE :: nat where "MAXFILE = NDIRECT + NINDIRECT"
definition IPB :: nat where "IPB = BSIZE div 64"
definition BPB :: nat where "BPB = BSIZE * 8"
definition DIRSIZ :: nat where "DIRSIZ = 14"
definition T_DIR :: u16 where "T_DIR = 1"
definition T_FILE :: u16 where "T_FILE = 2"
definition T_DEV :: u16 where "T_DEV = 3"

record superblock =
  sb_size :: u32
  sb_nblocks :: u32
  sb_ninodes :: u32
  sb_nlog :: u32
  sb_logstart :: u32
  sb_inodestart :: u32
  sb_bmapstart :: u32

record dinode =
  d_type :: u16
  d_major :: u16
  d_minor :: u16
  d_nlink :: u16
  d_size :: u32
  d_addrs :: "u32 list"

record inode =
  i_dev :: u32
  i_inum :: u32
  i_ref :: int
  i_lock :: sleeplock
  i_valid :: bool
  i_type :: u16
  i_major :: u16
  i_minor :: u16
  i_nlink :: u16
  i_size :: u32
  i_addrs :: "u32 list"

record stat =
  st_type :: u16
  st_dev :: u32
  st_ino :: u32
  st_nlink :: u16
  st_size :: u32

record dirent =
  de_inum :: u16
  de_name :: "u8 list"

record fsys =
  fs_log :: log
  fs_bio :: bio
  fs_sb :: superblock
  fs_icache :: "inode list"

definition IBLOCK :: "u32 \<Rightarrow> superblock \<Rightarrow> u32" where "IBLOCK i sb = i div of_nat IPB + sb_inodestart sb"
definition BBLOCK :: "u32 \<Rightarrow> superblock \<Rightarrow> u32" where "BBLOCK b sb = b div of_nat BPB + sb_bmapstart sb"

text \<open>The structures in the bytes of a block.\<close>

definition superblock_of :: "block \<Rightarrow> superblock" where
  "superblock_of d = \<lparr>sb_size = get32 d 0, sb_nblocks = get32 d 4, sb_ninodes = get32 d 8, sb_nlog = get32 d 12,
     sb_logstart = get32 d 16, sb_inodestart = get32 d 20, sb_bmapstart = get32 d 24\<rparr>"

definition dinode_of :: "block \<Rightarrow> nat \<Rightarrow> dinode" where
  "dinode_of d k = \<lparr>d_type = get16 d (64 * k), d_major = get16 d (64 * k + 2), d_minor = get16 d (64 * k + 4),
     d_nlink = get16 d (64 * k + 6), d_size = get32 d (64 * k + 8), d_addrs = get32s d (64 * k + 12) (NDIRECT + 1)\<rparr>"

definition put_dinode :: "nat \<Rightarrow> dinode \<Rightarrow> block \<Rightarrow> block" where
  "put_dinode k di d = put32s (put32 (put16 (put16 (put16 (put16 d (64 * k) (d_type di)) (64 * k + 2) (d_major di))
     (64 * k + 4) (d_minor di)) (64 * k + 6) (d_nlink di)) (64 * k + 8) (d_size di)) (64 * k + 12) (d_addrs di)"

definition dirent_of :: "u8 list \<Rightarrow> dirent" where
  "dirent_of d = \<lparr>de_inum = get16 d 0, de_name = take DIRSIZ (drop 2 d)\<rparr>"

definition dirent_bytes :: "dirent \<Rightarrow> u8 list" where
  "dirent_bytes de = [ucast (de_inum de), ucast (drop_bit 8 (de_inum de))] @ de_name de"

section \<open>The buffer cache and the log as the file system uses them\<close>

definition fbread :: "int \<Rightarrow> u32 \<Rightarrow> u32 \<Rightarrow> fsys \<Rightarrow> (nat \<times> fsys) res" where
  "fbread pid dev bn s = bindr (bread pid dev bn (fs_bio s)) (\<lambda>(b, bs). Inr (b, s\<lparr>fs_bio := bs\<rparr>))"

definition fbrelse :: "nat \<Rightarrow> fsys \<Rightarrow> fsys res" where
  "fbrelse b s = bindr (brelse b (fs_bio s)) (\<lambda>bs. Inr (s\<lparr>fs_bio := bs\<rparr>))"

definition flog_write :: "nat \<Rightarrow> fsys \<Rightarrow> fsys res" where
  "flog_write b s = bindr (log_write b (fs_log s, fs_bio s)) (\<lambda>(l, bs). Inr (s\<lparr>fs_log := l, fs_bio := bs\<rparr>))"

definition fdata :: "nat \<Rightarrow> fsys \<Rightarrow> block" where
  "fdata b s = b_data (bufs (fs_bio s) ! b)"

definition fset :: "nat \<Rightarrow> block \<Rightarrow> fsys \<Rightarrow> fsys" where
  "fset b d s = s\<lparr>fs_bio := set_data b d (fs_bio s)\<rparr>"

text \<open>bp->data = d; log_write(bp); brelse(bp);\<close>

definition fwrite_release :: "nat \<Rightarrow> block \<Rightarrow> fsys \<Rightarrow> fsys res" where
  "fwrite_release b d s = bindr (flog_write b (fset b d s)) (fbrelse b)"

section \<open>Blocks\<close>

definition readsb :: "int \<Rightarrow> u32 \<Rightarrow> fsys \<Rightarrow> (superblock \<times> fsys) res" where
  "readsb pid dev s =
     bindr (fbread pid dev 1 s) (\<lambda>(b, s).
     let sb = superblock_of (fdata b s) in bindr (fbrelse b s) (\<lambda>s. Inr (sb, s)))"

definition bzero :: "int \<Rightarrow> u32 \<Rightarrow> u32 \<Rightarrow> fsys \<Rightarrow> fsys res" where
  "bzero pid dev bno s = bindr (fbread pid dev bno s) (\<lambda>(b, s). fwrite_release b (replicate BSIZE 0) s)"

definition map_bit :: "block \<Rightarrow> nat \<Rightarrow> bool" where
  "map_bit d bi \<longleftrightarrow> d ! (bi div 8) AND push_bit (bi mod 8) 1 \<noteq> 0"

definition mark_bit :: "nat \<Rightarrow> block \<Rightarrow> block" where
  "mark_bit bi d = d[bi div 8 := d ! (bi div 8) OR push_bit (bi mod 8) 1]"

definition clear_bit :: "nat \<Rightarrow> block \<Rightarrow> block" where
  "clear_bit bi d = d[bi div 8 := d ! (bi div 8) AND NOT (push_bit (bi mod 8) 1)]"

text \<open>The loop over the blocks of the free map; the first argument lists the values of b.\<close>

fun balloc_loop :: "nat list \<Rightarrow> int \<Rightarrow> u32 \<Rightarrow> fsys \<Rightarrow> (u32 \<times> fsys) res" where
  "balloc_loop [] pid dev s = Inl (Panic ''balloc: out of blocks'')"
| "balloc_loop (b # bs) pid dev s =
     bindr (fbread pid dev (BBLOCK (of_nat b) (fs_sb s)) s) (\<lambda>(bp, s).
     case find (\<lambda>bi. \<not> map_bit (fdata bp s) bi) [0..<min BPB (unat (sb_size (fs_sb s)) - b)] of
       Some bi \<Rightarrow>
         bindr (fwrite_release bp (mark_bit bi (fdata bp s)) s) (\<lambda>s.
         bindr (bzero pid dev (of_nat (b + bi)) s) (\<lambda>s. Inr (of_nat (b + bi), s)))
     | None \<Rightarrow> bindr (fbrelse bp s) (balloc_loop bs pid dev))"

definition balloc :: "int \<Rightarrow> u32 \<Rightarrow> fsys \<Rightarrow> (u32 \<times> fsys) res" where
  "balloc pid dev s = balloc_loop (map (\<lambda>k. k * BPB) [0..<(unat (sb_size (fs_sb s)) + BPB - 1) div BPB]) pid dev s"

definition bfree :: "int \<Rightarrow> u32 \<Rightarrow> u32 \<Rightarrow> fsys \<Rightarrow> fsys res" where
  "bfree pid dev b s =
     bindr (readsb pid dev s) (\<lambda>(sb, s).
     let s = s\<lparr>fs_sb := sb\<rparr> in
     bindr (fbread pid dev (BBLOCK b (fs_sb s)) s) (\<lambda>(bp, s).
     let bi = unat b mod BPB in
     if \<not> map_bit (fdata bp s) bi then Inl (Panic ''freeing free block'')
     else fwrite_release bp (clear_bit bi (fdata bp s)) s))"

section \<open>Inodes\<close>

abbreviation ino :: "nat \<Rightarrow> fsys \<Rightarrow> inode" where
  "ino ip s \<equiv> fs_icache s ! ip"

definition upd_ino :: "nat \<Rightarrow> (inode \<Rightarrow> inode) \<Rightarrow> fsys \<Rightarrow> fsys" where
  "upd_ino ip f s = s\<lparr>fs_icache := (fs_icache s)[ip := f (fs_icache s ! ip)]\<rparr>"

definition iinit :: "int \<Rightarrow> u32 \<Rightarrow> fsys \<Rightarrow> fsys res" where
  "iinit pid dev s =
     bindr (readsb pid dev (s\<lparr>fs_icache := map (\<lambda>ip. ip\<lparr>i_lock := initsleeplock\<rparr>) (fs_icache s)\<rparr>)) (\<lambda>(sb, s).
     Inr (s\<lparr>fs_sb := sb\<rparr>))"

definition iget :: "u32 \<Rightarrow> u32 \<Rightarrow> fsys \<Rightarrow> (nat \<times> fsys) res" where
  "iget dev inum s =
     (case scan (\<lambda>ip. i_ref ip > 0 \<and> i_dev ip = dev \<and> i_inum ip = inum) (fs_icache s) of
        Some ip \<Rightarrow> Inr (ip, upd_ino ip (\<lambda>i. i\<lparr>i_ref := i_ref i + 1\<rparr>) s)
      | None \<Rightarrow>
          (case scan (\<lambda>ip. i_ref ip = 0) (fs_icache s) of
             None \<Rightarrow> Inl (Panic ''iget: no inodes'')
           | Some ip \<Rightarrow> Inr (ip, upd_ino ip (\<lambda>i. i\<lparr>i_dev := dev, i_inum := inum, i_ref := 1, i_valid := False\<rparr>) s)))"

definition idup :: "nat \<Rightarrow> fsys \<Rightarrow> fsys" where
  "idup ip s = upd_ino ip (\<lambda>i. i\<lparr>i_ref := i_ref i + 1\<rparr>) s"

fun ialloc_loop :: "nat list \<Rightarrow> int \<Rightarrow> u32 \<Rightarrow> u16 \<Rightarrow> fsys \<Rightarrow> (nat \<times> fsys) res" where
  "ialloc_loop [] pid dev ty s = Inl (Panic ''ialloc: no inodes'')"
| "ialloc_loop (inum # rest) pid dev ty s =
     bindr (fbread pid dev (IBLOCK (of_nat inum) (fs_sb s)) s) (\<lambda>(bp, s).
     let k = inum mod IPB in
     if d_type (dinode_of (fdata bp s) k) = 0
     then bindr (fwrite_release bp (put_dinode k \<lparr>d_type = ty, d_major = 0, d_minor = 0, d_nlink = 0, d_size = 0,
                                                  d_addrs = replicate (NDIRECT + 1) 0\<rparr> (fdata bp s)) s) (iget dev (of_nat inum))
     else bindr (fbrelse bp s) (ialloc_loop rest pid dev ty))"

definition ialloc :: "int \<Rightarrow> u32 \<Rightarrow> u16 \<Rightarrow> fsys \<Rightarrow> (nat \<times> fsys) res" where
  "ialloc pid dev ty s = ialloc_loop [1..<unat (sb_ninodes (fs_sb s))] pid dev ty s"

definition iupdate :: "int \<Rightarrow> nat \<Rightarrow> fsys \<Rightarrow> fsys res" where
  "iupdate pid ip s =
     (let i = ino ip s in
      bindr (fbread pid (i_dev i) (IBLOCK (i_inum i) (fs_sb s)) s) (\<lambda>(bp, s).
      fwrite_release bp (put_dinode (unat (i_inum i) mod IPB)
        \<lparr>d_type = i_type i, d_major = i_major i, d_minor = i_minor i, d_nlink = i_nlink i, d_size = i_size i, d_addrs = i_addrs i\<rparr>
        (fdata bp s)) s))"

definition ilock :: "int \<Rightarrow> nat \<Rightarrow> fsys \<Rightarrow> fsys res" where
  "ilock pid ip s =
     (if i_ref (ino ip s) < 1 then Inl (Panic ''ilock'')
      else bindr (acquiresleep pid (i_lock (ino ip s))) (\<lambda>lk.
           let s = upd_ino ip (\<lambda>i. i\<lparr>i_lock := lk\<rparr>) s in
           if i_valid (ino ip s) then Inr s
           else bindr (fbread pid (i_dev (ino ip s)) (IBLOCK (i_inum (ino ip s)) (fs_sb s)) s) (\<lambda>(bp, s).
                let di = dinode_of (fdata bp s) (unat (i_inum (ino ip s)) mod IPB) in
                bindr (fbrelse bp s) (\<lambda>s.
                if d_type di = 0 then Inl (Panic ''ilock: no type'')
                else Inr (upd_ino ip (\<lambda>i. i\<lparr>i_type := d_type di, i_major := d_major di, i_minor := d_minor di, i_nlink := d_nlink di,
                                            i_size := d_size di, i_addrs := d_addrs di, i_valid := True\<rparr>) s)))))"

definition iunlock :: "nat \<Rightarrow> fsys \<Rightarrow> fsys res" where
  "iunlock ip s =
     (if \<not> holdingsleep (i_lock (ino ip s)) \<or> i_ref (ino ip s) < 1 then Inl (Panic ''iunlock'')
      else Inr (upd_ino ip (\<lambda>i. i\<lparr>i_lock := releasesleep (i_lock i)\<rparr>) s))"

section \<open>Contents of inodes\<close>

text \<open>if ((addr = ip->addrs[k]) == 0) ip->addrs[k] = addr = balloc(ip->dev)\<close>

definition addr_slot :: "int \<Rightarrow> nat \<Rightarrow> nat \<Rightarrow> fsys \<Rightarrow> (u32 \<times> fsys) res" where
  "addr_slot pid ip k s =
     (let addr = i_addrs (ino ip s) ! k in
      if addr \<noteq> 0 then Inr (addr, s)
      else bindr (balloc pid (i_dev (ino ip s)) s) (\<lambda>(addr, s).
           Inr (addr, upd_ino ip (\<lambda>i. i\<lparr>i_addrs := (i_addrs i)[k := addr]\<rparr>) s)))"

definition bmap :: "int \<Rightarrow> nat \<Rightarrow> nat \<Rightarrow> fsys \<Rightarrow> (u32 \<times> fsys) res" where
  "bmap pid ip bn s =
     (if bn < NDIRECT then addr_slot pid ip bn s
      else let bn = bn - NDIRECT in
      if bn < NINDIRECT
      then bindr (addr_slot pid ip NDIRECT s) (\<lambda>(addr, s).
           bindr (fbread pid (i_dev (ino ip s)) addr s) (\<lambda>(bp, s).
           let addr = get32 (fdata bp s) (4 * bn) in
           if addr \<noteq> 0 then bindr (fbrelse bp s) (\<lambda>s. Inr (addr, s))
           else bindr (balloc pid (i_dev (ino ip s)) s) (\<lambda>(addr, s).
                bindr (fwrite_release bp (put32 (fdata bp s) (4 * bn) addr) s) (\<lambda>s. Inr (addr, s)))))
      else Inl (Panic ''bmap: out of range''))"

definition itrunc_direct :: "int \<Rightarrow> nat \<Rightarrow> nat \<Rightarrow> fsys \<Rightarrow> fsys res" where
  "itrunc_direct pid ip k s =
     (let i = ino ip s in
      if i_addrs i ! k \<noteq> 0
      then bindr (bfree pid (i_dev i) (i_addrs i ! k) s) (\<lambda>s. Inr (upd_ino ip (\<lambda>i. i\<lparr>i_addrs := (i_addrs i)[k := 0]\<rparr>) s))
      else Inr s)"

definition itrunc_indirect :: "int \<Rightarrow> nat \<Rightarrow> fsys \<Rightarrow> fsys res" where
  "itrunc_indirect pid ip s =
     (let i = ino ip s in
      if i_addrs i ! NDIRECT \<noteq> 0
      then bindr (fbread pid (i_dev i) (i_addrs i ! NDIRECT) s) (\<lambda>(bp, s).
           bindr (forM [0..<NINDIRECT] (\<lambda>j s. let a = get32 (fdata bp s) (4 * j) in if a \<noteq> 0 then bfree pid (i_dev i) a s else Inr s) s) (\<lambda>s.
           bindr (fbrelse bp s) (itrunc_direct pid ip NDIRECT)))
      else Inr s)"

definition itrunc :: "int \<Rightarrow> nat \<Rightarrow> fsys \<Rightarrow> fsys res" where
  "itrunc pid ip s =
     bindr (forM [0..<NDIRECT] (itrunc_direct pid ip) s) (\<lambda>s.
     bindr (itrunc_indirect pid ip s) (\<lambda>s.
     iupdate pid ip (upd_ino ip (\<lambda>i. i\<lparr>i_size := 0\<rparr>) s)))"

definition iput :: "int \<Rightarrow> nat \<Rightarrow> fsys \<Rightarrow> fsys res" where
  "iput pid ip s =
     bindr (acquiresleep pid (i_lock (ino ip s))) (\<lambda>lk.
     let s = upd_ino ip (\<lambda>i. i\<lparr>i_lock := lk\<rparr>) s in
     bindr (if i_valid (ino ip s) \<and> i_nlink (ino ip s) = 0 \<and> i_ref (ino ip s) = 1
            then bindr (itrunc pid ip s) (\<lambda>s.
                 bindr (iupdate pid ip (upd_ino ip (\<lambda>i. i\<lparr>i_type := 0\<rparr>) s)) (\<lambda>s.
                 Inr (upd_ino ip (\<lambda>i. i\<lparr>i_valid := False\<rparr>) s)))
            else Inr s) (\<lambda>s.
     Inr (upd_ino ip (\<lambda>i. i\<lparr>i_lock := releasesleep (i_lock i), i_ref := i_ref i - 1\<rparr>) s)))"

definition iunlockput :: "int \<Rightarrow> nat \<Rightarrow> fsys \<Rightarrow> fsys res" where
  "iunlockput pid ip s = bindr (iunlock ip s) (iput pid ip)"

definition stati :: "nat \<Rightarrow> fsys \<Rightarrow> stat" where
  "stati ip s = (let i = ino ip s in
     \<lparr>st_type = i_type i, st_dev = i_dev i, st_ino = i_inum i, st_nlink = i_nlink i, st_size = i_size i\<rparr>)"

text \<open>
  Reading and writing.  The device table is an argument: it gives the device's function, which
  returns the count and the bytes.
\<close>

function readi_loop :: "int \<Rightarrow> nat \<Rightarrow> nat \<Rightarrow> nat \<Rightarrow> fsys \<Rightarrow> (u8 list \<times> fsys) res" where
  "readi_loop pid ip off rest s =
     (if rest = 0 then Inr ([], s)
      else bindr (bmap pid ip (off div BSIZE) s) (\<lambda>(addr, s).
           bindr (fbread pid (i_dev (ino ip s)) addr s) (\<lambda>(bp, s).
           let m = min rest (BSIZE - off mod BSIZE); d = take m (drop (off mod BSIZE) (fdata bp s)) in
           bindr (fbrelse bp s) (\<lambda>s.
           bindr (readi_loop pid ip (off + m) (rest - m) s) (\<lambda>(ds, s). Inr (d @ ds, s))))))"
  by auto
termination
  by (relation "measure (\<lambda>(pid, ip, off, rest, s). rest)") (auto simp: BSIZE_def)

declare readi_loop.simps [simp del]

definition dev_fun :: "(int \<Rightarrow> 'a option) \<Rightarrow> inode \<Rightarrow> 'a option" where
  "dev_fun devsw i = (if sint (i_major i) < 0 \<or> sint (i_major i) \<ge> NDEV then None else devsw (sint (i_major i)))"

definition readi :: "(int \<Rightarrow> (u32 \<Rightarrow> (int \<times> u8 list) res) option) \<Rightarrow> int \<Rightarrow> nat \<Rightarrow> u32 \<Rightarrow> u32 \<Rightarrow> fsys \<Rightarrow> ((int \<times> u8 list) \<times> fsys) res" where
  "readi devsw pid ip off n s =
     (let i = ino ip s in
      if i_type i = T_DEV
      then case dev_fun devsw i of None \<Rightarrow> Inr ((-1, []), s) | Some f \<Rightarrow> bindr (f n) (\<lambda>r. Inr (r, s))
      else if off > i_size i \<or> off + n < off then Inr ((-1, []), s)
      else let n = (if off + n > i_size i then i_size i - off else n) in
           bindr (readi_loop pid ip (unat off) (unat n) s) (\<lambda>(ds, s). Inr ((sint n, ds), s)))"

function writei_loop :: "int \<Rightarrow> nat \<Rightarrow> u8 list \<Rightarrow> nat \<Rightarrow> nat \<Rightarrow> fsys \<Rightarrow> fsys res" where
  "writei_loop pid ip src off rest s =
     (if rest = 0 then Inr s
      else bindr (bmap pid ip (off div BSIZE) s) (\<lambda>(addr, s).
           bindr (fbread pid (i_dev (ino ip s)) addr s) (\<lambda>(bp, s).
           let m = min rest (BSIZE - off mod BSIZE) in
           bindr (fwrite_release bp (splice (fdata bp s) (off mod BSIZE) (take m src)) s)
             (writei_loop pid ip (drop m src) (off + m) (rest - m)))))"
  by auto
termination
  by (relation "measure (\<lambda>(pid, ip, src, off, rest, s). rest)") (auto simp: BSIZE_def)

declare writei_loop.simps [simp del]

definition writei :: "(int \<Rightarrow> (u8 list \<Rightarrow> int res) option) \<Rightarrow> int \<Rightarrow> nat \<Rightarrow> u8 list \<Rightarrow> u32 \<Rightarrow> u32 \<Rightarrow> fsys \<Rightarrow> (int \<times> fsys) res" where
  "writei devsw pid ip src off n s =
     (let i = ino ip s in
      if i_type i = T_DEV
      then case dev_fun devsw i of None \<Rightarrow> Inr (-1, s) | Some f \<Rightarrow> bindr (f (take (unat n) src)) (\<lambda>r. Inr (r, s))
      else if off > i_size i \<or> off + n < off then Inr (-1, s)
      else if off + n > of_nat (MAXFILE * BSIZE) then Inr (-1, s)
      else bindr (writei_loop pid ip src (unat off) (unat n) s) (\<lambda>s.
           bindr (if n > 0 \<and> off + n > i_size (ino ip s)
                  then iupdate pid ip (upd_ino ip (\<lambda>i. i\<lparr>i_size := off + n\<rparr>) s) else Inr s) (\<lambda>s.
           Inr (sint n, s))))"

section \<open>Directories and paths\<close>

definition namecmp :: "u8 list \<Rightarrow> u8 list \<Rightarrow> int res" where
  "namecmp s t = strncmp_arr s t DIRSIZ"

text \<open>readi(dp, &de, off, sizeof(de)) of a directory entry; what is the message of the panic.\<close>

definition read_dirent :: "string \<Rightarrow> int \<Rightarrow> nat \<Rightarrow> nat \<Rightarrow> fsys \<Rightarrow> (dirent \<times> fsys) res" where
  "read_dirent what pid dp off s =
     bindr (readi (\<lambda>_. None) pid dp (of_nat off) 16 s) (\<lambda>((r, d), s).
     if r \<noteq> 16 then Inl (Panic what) else Inr (dirent_of d, s))"

text \<open>The offsets the loops over a directory visit.\<close>

definition dir_offs :: "nat \<Rightarrow> fsys \<Rightarrow> nat list" where
  "dir_offs dp s = map (\<lambda>k. 16 * k) [0..<(unat (i_size (ino dp s)) + 15) div 16]"

fun dirlookup_loop :: "nat list \<Rightarrow> int \<Rightarrow> nat \<Rightarrow> u8 list \<Rightarrow> fsys \<Rightarrow> ((nat \<times> nat) option \<times> fsys) res" where
  "dirlookup_loop [] pid dp name s = Inr (None, s)"
| "dirlookup_loop (off # offs) pid dp name s =
     bindr (read_dirent ''dirlookup read'' pid dp off s) (\<lambda>(de, s).
     if de_inum de = 0 then dirlookup_loop offs pid dp name s
     else bindr (namecmp name (de_name de)) (\<lambda>c.
          if c = 0 then bindr (iget (i_dev (ino dp s)) (ucast (de_inum de)) s) (\<lambda>(ip, s). Inr (Some (ip, off), s))
          else dirlookup_loop offs pid dp name s))"

definition dirlookup :: "int \<Rightarrow> nat \<Rightarrow> u8 list \<Rightarrow> fsys \<Rightarrow> ((nat \<times> nat) option \<times> fsys) res" where
  "dirlookup pid dp name s =
     (if i_type (ino dp s) \<noteq> T_DIR then Inl (Panic ''dirlookup not DIR'')
      else dirlookup_loop (dir_offs dp s) pid dp name s)"

text \<open>The offset of the first empty entry, or the end of the directory.\<close>

fun dirlink_slot :: "nat list \<Rightarrow> int \<Rightarrow> nat \<Rightarrow> fsys \<Rightarrow> (nat \<times> fsys) res" where
  "dirlink_slot [] pid dp s = Inr (16 * length (dir_offs dp s), s)"
| "dirlink_slot (off # offs) pid dp s =
     bindr (read_dirent ''dirlink read'' pid dp off s) (\<lambda>(de, s).
     if de_inum de = 0 then Inr (off, s) else dirlink_slot offs pid dp s)"

definition dirlink :: "int \<Rightarrow> nat \<Rightarrow> u8 list \<Rightarrow> u32 \<Rightarrow> fsys \<Rightarrow> (int \<times> fsys) res" where
  "dirlink pid dp name inum s =
     bindr (dirlookup pid dp name s) (\<lambda>(found, s).
     case found of
       Some (ip, _) \<Rightarrow> bindr (iput pid ip s) (\<lambda>s. Inr (-1, s))
     | None \<Rightarrow>
         bindr (dirlink_slot (dir_offs dp s) pid dp s) (\<lambda>(off, s).
         bindr (strncpy_arr (replicate DIRSIZ 0) name DIRSIZ) (\<lambda>nm.
         bindr (writei (\<lambda>_. None) pid dp (dirent_bytes \<lparr>de_inum = ucast inum, de_name = nm\<rparr>) (of_nat off) 16 s) (\<lambda>(r, s).
         if r \<noteq> 16 then Inl (Panic ''dirlink'') else Inr (0, s)))))"

text \<open>
  skipelem on a path, the NUL left out, and the buffer for the name: the rest of the path and the
  buffer, or None when no name is left.
\<close>

definition skipelem :: "u8 list \<Rightarrow> u8 list \<Rightarrow> (u8 list \<times> u8 list) option" where
  "skipelem path name =
     (let path = dropWhile (\<lambda>c. c = 47) path in
      if path = [] then None
      else let e = takeWhile (\<lambda>c. c \<noteq> 47) path; len = length e;
               name = (if len \<ge> DIRSIZ then splice name 0 (take DIRSIZ e) else (splice name 0 e)[len := 0]) in
           Some (dropWhile (\<lambda>c. c = 47) (drop len path), name))"

lemma skipelem_shorter: "skipelem path name = Some (path', name') \<Longrightarrow> length path' < length path"
proof -
  assume a: "skipelem path name = Some (path', name')"
  let ?p = "dropWhile (\<lambda>c. c = 47) path"
  have p: "?p \<noteq> []" "path' = dropWhile (\<lambda>c. c = 47) (drop (length (takeWhile (\<lambda>c. c \<noteq> 47) ?p)) ?p)"
    using a by (auto simp: skipelem_def Let_def split: if_splits)
  have "hd ?p \<noteq> 47" using p(1) hd_dropWhile [of "\<lambda>c. c = 47" path] by blast
  then have "0 < length (takeWhile (\<lambda>c. c \<noteq> 47) ?p)" using p(1) by (cases ?p) auto
  then have "length (drop (length (takeWhile (\<lambda>c. c \<noteq> 47) ?p)) ?p) < length ?p" using p(1) by simp
  moreover have "length path' \<le> length (drop (length (takeWhile (\<lambda>c. c \<noteq> 47) ?p)) ?p)" unfolding p(2) by (rule length_dropWhile_le)
  moreover have "length ?p \<le> length path" by (rule length_dropWhile_le)
  ultimately show ?thesis by linarith
qed

text \<open>
  What namex uses of the current process: its container id, the root of its container and its
  working directory; None when there is no process.
\<close>

type_synonym who = "(u32 \<times> nat option \<times> nat option) option"

definition starts_at_root :: "u8 list \<Rightarrow> bool" where
  "starts_at_root path \<longleftrightarrow> path \<noteq> [] \<and> hd path = 47"

definition dup_or_null :: "nat option \<Rightarrow> fsys \<Rightarrow> (nat \<times> fsys) res" where
  "dup_or_null ip s = (case ip of None \<Rightarrow> Inl (Undefined ''idup'') | Some i \<Rightarrow> Inr (i, idup i s))"

definition namex_path :: "who \<Rightarrow> u8 list \<Rightarrow> u8 list" where
  "namex_path w path = (case w of Some (cid, _) \<Rightarrow> if cid > 0 \<and> path = [46, 46] then [46] else path | None \<Rightarrow> path)"

definition namex_start :: "who \<Rightarrow> u8 list \<Rightarrow> fsys \<Rightarrow> (nat \<times> fsys) res" where
  "namex_start w path s =
     (case w of
        Some (cid, root, cwd) \<Rightarrow>
          if starts_at_root path then (if cid > 0 then dup_or_null root s else iget ROOTDEV ROOTINO s)
          else dup_or_null cwd s
      | None \<Rightarrow> if starts_at_root path then iget ROOTDEV ROOTINO s else Inl (Undefined ''myproc''))"

function namex_loop :: "int \<Rightarrow> bool \<Rightarrow> nat \<Rightarrow> u8 list \<Rightarrow> u8 list \<Rightarrow> fsys \<Rightarrow> ((nat option \<times> u8 list) \<times> fsys) res" where
  "namex_loop pid parent ip path name s =
     (case skipelem path name of
        None \<Rightarrow> if parent then bindr (iput pid ip s) (\<lambda>s. Inr ((None, name), s)) else Inr ((Some ip, name), s)
      | Some (path', name') \<Rightarrow>
          if i_ref (ino ip s) < 1 then Inr ((None, name'), s)
          else bindr (ilock pid ip s) (\<lambda>s.
               if i_type (ino ip s) \<noteq> T_DIR then bindr (iunlockput pid ip s) (\<lambda>s. Inr ((None, name'), s))
               else if parent \<and> path' = [] then bindr (iunlock ip s) (\<lambda>s. Inr ((Some ip, name'), s))
               else bindr (dirlookup pid ip name' s) (\<lambda>(found, s).
                    case found of
                      None \<Rightarrow> bindr (iunlockput pid ip s) (\<lambda>s. Inr ((None, name'), s))
                    | Some (nx, _) \<Rightarrow>
                        if i_ref (ino nx s) < 1 then bindr (iunlockput pid ip s) (\<lambda>s. Inr ((None, name'), s))
                        else bindr (iunlockput pid ip s) (namex_loop pid parent nx path' name'))))"
  by auto
termination
  by (relation "measure (\<lambda>(pid, parent, ip, path, name, s). length path)") (auto dest: skipelem_shorter)

declare namex_loop.simps [simp del]

definition namex :: "who \<Rightarrow> int \<Rightarrow> u8 list \<Rightarrow> bool \<Rightarrow> u8 list \<Rightarrow> fsys \<Rightarrow> ((nat option \<times> u8 list) \<times> fsys) res" where
  "namex w pid path parent name s =
     (let path = namex_path w path in
      bindr (namex_start w path s) (\<lambda>(ip, s). namex_loop pid parent ip path name s))"

definition namei :: "who \<Rightarrow> int \<Rightarrow> u8 list \<Rightarrow> fsys \<Rightarrow> (nat option \<times> fsys) res" where
  "namei w pid path s = bindr (namex w pid path False (replicate DIRSIZ 0) s) (\<lambda>((ip, _), s). Inr (ip, s))"

definition nameiparent :: "who \<Rightarrow> int \<Rightarrow> u8 list \<Rightarrow> u8 list \<Rightarrow> fsys \<Rightarrow> ((nat option \<times> u8 list) \<times> fsys) res" where
  "nameiparent w pid path name s = namex w pid path True name s"

definition copy_file :: "who \<Rightarrow> int \<Rightarrow> u8 list \<Rightarrow> u8 list \<Rightarrow> fsys \<Rightarrow> (int \<times> fsys) res" where
  "copy_file w pid dir file s =
     bindr (namei w pid dir s) (\<lambda>(d, s).
     bindr (namei w pid file s) (\<lambda>(f, s).
     case (d, f) of
       (Some d, Some f) \<Rightarrow>
         bindr (dirlink pid d (file @ [0]) (i_inum (ino f s)) s) (\<lambda>(r, s). Inr (if r < 0 then 0 else 1, s))
     | _ \<Rightarrow> Inl (Undefined ''copy_file'')))"

end
