(* ===== verification/Files.thy ===== *)
theory Files
  imports Fs
begin

text \<open>
  What the file system promises: reading and updating one block through the cache and the log,
  the contents of a file as a function from offsets to bytes, and readi, writei, balloc, iupdate
  and ilock in these terms.
\<close>

section \<open>One block\<close>

definition fs_ready :: "fsys \<Rightarrow> bool" where
  "fs_ready s \<longleftrightarrow> log_ready (fs_log s) (fs_bio s)"

abbreviation fview :: "fsys \<Rightarrow> u32 \<Rightarrow> block" where "fview s \<equiv> view (fs_bio s)"
abbreviation fsize :: "fsys \<Rightarrow> u32" where "fsize s \<equiv> disksize (fs_bio s)"

text \<open>Only the cache has changed.\<close>

definition fs_quiet :: "fsys \<Rightarrow> fsys \<Rightarrow> bool" where
  "fs_quiet s s' \<longleftrightarrow> fs_ready s' \<and> fview s' = fview s \<and> fs_log s' = fs_log s \<and> fs_sb s' = fs_sb s \<and>
     fs_icache s' = fs_icache s \<and> fsize s' = fsize s"

lemma fs_quiet_refl: "fs_ready s \<Longrightarrow> fs_quiet s s"
  by (simp add: fs_quiet_def)

lemma fs_quiet_trans: "fs_quiet s s1 \<Longrightarrow> fs_quiet s1 s2 \<Longrightarrow> fs_quiet s s2"
  by (simp add: fs_quiet_def)

text \<open>A block with contents d has been written in the transaction.\<close>

definition fs_wrote :: "fsys \<Rightarrow> u32 \<Rightarrow> block \<Rightarrow> fsys \<Rightarrow> bool" where
  "fs_wrote s bn d s' \<longleftrightarrow> fs_ready s' \<and> fview s' = (fview s)(bn := d) \<and> fs_sb s' = fs_sb s \<and> fs_icache s' = fs_icache s \<and>
     fsize s' = fsize s \<and> in_log (fs_log s') = in_log (fs_log s)"

text \<open>Room for n more blocks in the transaction.\<close>

definition fs_room :: "fsys \<Rightarrow> nat \<Rightarrow> bool" where
  "fs_room s n \<longleftrightarrow> 1 \<le> outstanding (fs_log s) \<and> log_size (fs_log s) \<le> int NBUF \<and>
     lh_n (fs_log s) + int n \<le> int LOGSIZE \<and> lh_n (fs_log s) + int n < log_size (fs_log s)"

lemma fs_room_le: "fs_room s n \<Longrightarrow> m \<le> n \<Longrightarrow> fs_room s m"
  by (auto simp: fs_room_def)

lemma fs_room_quiet: "fs_quiet s s' \<Longrightarrow> fs_room s' n = fs_room s n"
  by (simp add: fs_quiet_def fs_room_def)

lemma fs_view_length: "fs_ready s \<Longrightarrow> length (fview s b) = BSIZE"
  unfolding fs_ready_def log_ready_def using calm_view_length by blast

lemma fs_read:
  assumes "fs_ready s" "bn < fsize s"
  shows "\<exists>b s1 s2. fbread pid ROOTDEV bn s = Inr (b, s1) \<and> fdata b s1 = fview s bn \<and> fs_icache s1 = fs_icache s \<and> fs_sb s1 = fs_sb s \<and>
    fbrelse b s1 = Inr s2 \<and> fs_quiet s s2"
proof -
  have g: "log_geom (fs_log s) (fsize s)" and c: "calm {} (fs_bio s)" and dy: "dirtyb (fs_bio s) = set (logged (fs_log s))"
    and hd: "get32 (disk (fs_bio s) (log_start (fs_log s))) 0 = 0" using assms(1) by (auto simp: fs_ready_def log_ready_def)
  have "card (dirtyb (fs_bio s)) < NBUF" using card_logged [OF g] g dy by (simp add: log_geom_def)
  from read_block [OF c assms(2) this, of pid] obtain b b1 b2 where
    b: "bread pid ROOTDEV bn (fs_bio s) = Inr (b, b1)" "b_data (bufs b1 ! b) = fview s bn" "brelse b b1 = Inr b2" "writes [] (fs_bio s) b2" by blast
  then show ?thesis using g dy hd by (simp add: fbread_def fdata_def fbrelse_def fs_quiet_def fs_ready_def log_ready_def writes_def)
qed

lemma fs_update:
  assumes r: "fs_ready s" "fs_room s (Suc n)" and bn: "bn < fsize s" "\<not> in_log (fs_log s) bn" and d: "length d = BSIZE"
  shows "\<exists>b s1 s2. fbread pid ROOTDEV bn s = Inr (b, s1) \<and> fdata b s1 = fview s bn \<and> fs_icache s1 = fs_icache s \<and> fs_sb s1 = fs_sb s \<and>
    fwrite_release b d s1 = Inr s2 \<and> fs_wrote s bn d s2 \<and> fs_room s2 n"
proof -
  from logged_update_spec [of "fs_log s" "fs_bio s" bn "\<lambda>_. d" pid] r bn d obtain l' b' where
    u: "logged_update pid bn (\<lambda>_. d) (fs_log s, fs_bio s) = Inr (l', b')" "log_ready l' b'" "view b' = (fview s)(bn := d)"
      "outstanding l' = outstanding (fs_log s)" "log_start l' = log_start (fs_log s)" "log_size l' = log_size (fs_log s)"
      "disksize b' = fsize s" "lh_n l' \<le> lh_n (fs_log s) + 1"
    by (auto simp: fs_ready_def fs_room_def)
  from fs_read [OF r(1) bn(1), of pid] obtain b s1 where b: "fbread pid ROOTDEV bn s = Inr (b, s1)" "fdata b s1 = fview s bn"
    "fs_icache s1 = fs_icache s" "fs_sb s1 = fs_sb s" by blast
  then obtain b1 where b1: "bread pid ROOTDEV bn (fs_bio s) = Inr (b, b1)" "s1 = s\<lparr>fs_bio := b1\<rparr>"
    by (auto simp: fbread_def bindr_eq_Inr)
  have "fwrite_release b d s1 = Inr (s\<lparr>fs_log := l', fs_bio := b'\<rparr>)"
    using u(1) b1 by (auto simp: logged_update_def fwrite_release_def flog_write_def fset_def fbrelse_def bindr_eq_Inr)
  moreover have "in_log l' = in_log (fs_log s)" using u by (auto simp: in_log_def)
  ultimately show ?thesis using b u r(2) by (auto simp: fs_wrote_def fs_ready_def fs_room_def)
qed

section \<open>The contents of a file\<close>

text \<open>The address of block k of an inode over the blocks v, and the byte at an offset.\<close>

definition file_addr :: "inode \<Rightarrow> (u32 \<Rightarrow> block) \<Rightarrow> nat \<Rightarrow> u32" where
  "file_addr i v k = (if k < NDIRECT then i_addrs i ! k else get32 (v (i_addrs i ! NDIRECT)) (4 * (k - NDIRECT)))"

definition file_byte :: "inode \<Rightarrow> (u32 \<Rightarrow> block) \<Rightarrow> nat \<Rightarrow> u8" where
  "file_byte i v k = v (file_addr i v (k div BSIZE)) ! (k mod BSIZE)"

text \<open>The blocks the first n bytes of a file need are there, on a disk of sz blocks.\<close>

definition file_ok :: "inode \<Rightarrow> (u32 \<Rightarrow> block) \<Rightarrow> u32 \<Rightarrow> nat \<Rightarrow> bool" where
  "file_ok i v sz n \<longleftrightarrow> i_dev i = ROOTDEV \<and>
     (\<forall>k. k * BSIZE < n \<longrightarrow> k < MAXFILE \<and> file_addr i v k \<noteq> 0 \<and> file_addr i v k < sz \<and>
        (NDIRECT \<le> k \<longrightarrow> i_addrs i ! NDIRECT \<noteq> 0 \<and> i_addrs i ! NDIRECT < sz))"

lemma file_okD:
  assumes "file_ok i v sz n" "off < n"
  shows "i_dev i = ROOTDEV" "off div BSIZE < MAXFILE" "file_addr i v (off div BSIZE) \<noteq> 0" "file_addr i v (off div BSIZE) < sz"
    "NDIRECT \<le> off div BSIZE \<Longrightarrow> i_addrs i ! NDIRECT \<noteq> 0" "NDIRECT \<le> off div BSIZE \<Longrightarrow> i_addrs i ! NDIRECT < sz"
proof -
  have "off div BSIZE * BSIZE < n" using assms(2) div_times_less_eq_dividend [of off BSIZE] by linarith
  then show "i_dev i = ROOTDEV" "off div BSIZE < MAXFILE" "file_addr i v (off div BSIZE) \<noteq> 0" "file_addr i v (off div BSIZE) < sz"
    "NDIRECT \<le> off div BSIZE \<Longrightarrow> i_addrs i ! NDIRECT \<noteq> 0" "NDIRECT \<le> off div BSIZE \<Longrightarrow> i_addrs i ! NDIRECT < sz"
    using assms(1) by (simp_all add: file_ok_def)
qed

lemma bmap_ok:
  assumes r: "fs_ready s" and f: "file_ok (ino ip s) (fview s) (fsize s) n" and off: "off < n"
  shows "\<exists>s'. bmap pid ip (off div BSIZE) s = Inr (file_addr (ino ip s) (fview s) (off div BSIZE), s') \<and> fs_quiet s s'"
proof (cases "off div BSIZE < NDIRECT")
  case True
  then show ?thesis using file_okD [OF f off] fs_quiet_refl [OF r] by (simp add: bmap_def addr_slot_def file_addr_def Let_def)
next
  case False
  let ?a = "i_addrs (ino ip s) ! NDIRECT"
  note o = file_okD [OF f off]
  have a: "?a \<noteq> 0" "?a < fsize s" using False o by simp_all
  from fs_read [OF r a(2), of pid] obtain b s1 s2 where b: "fbread pid ROOTDEV ?a s = Inr (b, s1)" "fdata b s1 = fview s ?a"
    "fbrelse b s1 = Inr s2" "fs_quiet s s2" by blast
  have "off div BSIZE - NDIRECT < NINDIRECT" using o(2) False by (simp add: MAXFILE_def)
  then show ?thesis using False a b o by (auto simp: bmap_def addr_slot_def file_addr_def Let_def)
qed

lemma within_block:
  assumes "j < m" "m \<le> B - off mod B"
  shows "(off + j) div B = off div B" "(off + j) mod B = off mod B + (j :: nat)"
proof -
  have l: "off mod B + j < B" using assms by simp
  have e: "off + j = off mod B + j + off div B * B" using mod_div_mult_eq [of off B] by simp
  have "(off mod B + j + off div B * B) div B = off div B" using l div_mult_self1 [of B "off mod B + j" "off div B"] by simp
  with e show "(off + j) div B = off div B" by metis
  have "(off mod B + j + off div B * B) mod B = off mod B + j" using l mod_mult_self1 [of "off mod B + j" "off div B" B] by simp
  with e show "(off + j) mod B = off mod B + j" by metis
qed

lemma block_part:
  assumes "m \<le> BSIZE - off mod BSIZE" "length (v (file_addr i v (off div BSIZE))) = BSIZE"
  shows "take m (drop (off mod BSIZE) (v (file_addr i v (off div BSIZE)))) = map (file_byte i v) [off..<off + m]"
proof (rule nth_equalityI)
  show "length (take m (drop (off mod BSIZE) (v (file_addr i v (off div BSIZE))))) = length (map (file_byte i v) [off..<off + m])"
    using assms by simp
next
  fix j assume "j < length (take m (drop (off mod BSIZE) (v (file_addr i v (off div BSIZE)))))"
  then have j: "j < m" "off mod BSIZE + j < BSIZE" using assms by auto
  then show "take m (drop (off mod BSIZE) (v (file_addr i v (off div BSIZE)))) ! j = map (file_byte i v) [off..<off + m] ! j"
    using within_block [OF j(1) assms(1)] assms(2) by (simp add: file_byte_def)
qed

lemma readi_loop_ok:
  assumes "fs_ready s" "file_ok (ino ip s) (fview s) (fsize s) n" "off + rest \<le> n"
  shows "\<exists>s'. readi_loop pid ip off rest s = Inr (map (file_byte (ino ip s) (fview s)) [off..<off + rest], s') \<and> fs_quiet s s'"
  using assms
proof (induction rest arbitrary: off s rule: less_induct)
  case (less rest)
  show ?case
  proof (cases "rest = 0")
    case True
    then show ?thesis using fs_quiet_refl [OF less.prems(1)] by (simp add: readi_loop.simps)
  next
    case False
    define m where "m = min rest (BSIZE - off mod BSIZE)"
    have B: "off mod BSIZE < BSIZE" by (simp add: BSIZE_def)
    have m: "0 < m" "m \<le> rest" "m \<le> BSIZE - off mod BSIZE" using False B by (auto simp: m_def)
    let ?i = "ino ip s" and ?v = "fview s"
    let ?a = "file_addr ?i ?v (off div BSIZE)"
    have off: "off < n" using False less.prems(3) by simp
    note o = file_okD [OF less.prems(2) off]
    from bmap_ok [OF less.prems(1,2) off, of pid] obtain s1 where s1: "bmap pid ip (off div BSIZE) s = Inr (?a, s1)" "fs_quiet s s1" by blast
    have q1: "fs_ready s1" "ino ip s1 = ?i" "fview s1 = ?v" "fsize s1 = fsize s" using s1(2) by (simp_all add: fs_quiet_def)
    from fs_read [OF q1(1), of ?a pid] q1 o(4) obtain b s2 s3 where b: "fbread pid ROOTDEV ?a s1 = Inr (b, s2)" "fdata b s2 = ?v ?a"
      "fbrelse b s2 = Inr s3" "fs_quiet s1 s3" by auto
    have q3: "fs_quiet s s3" by (rule fs_quiet_trans [OF s1(2) b(4)])
    then have e3: "fs_ready s3" "ino ip s3 = ?i" "fview s3 = ?v" "fsize s3 = fsize s" by (simp_all add: fs_quiet_def)
    have "rest - m < rest" using m by simp
    from less.IH [OF this, of s3 "off + m"] e3 less.prems(2,3) m(2) obtain s4 where
      s4: "readi_loop pid ip (off + m) (rest - m) s3 = Inr (map (file_byte ?i ?v) [off + m..<off + rest], s4)" "fs_quiet s3 s4" by auto
    have "map (file_byte ?i ?v) [off..<off + rest] = map (file_byte ?i ?v) [off..<off + m] @ map (file_byte ?i ?v) [off + m..<off + rest]"
      using m(2) upt_add_eq_append [of off "off + m" "rest - m"] by simp
    moreover have "take m (drop (off mod BSIZE) (?v ?a)) = map (file_byte ?i ?v) [off..<off + m]"
      by (rule block_part [OF m(3) fs_view_length [OF less.prems(1)]])
    ultimately show ?thesis using False s1(1) b(1-3) s4 o(1) q1 fs_quiet_trans [OF q3 s4(2)]
      by (simp add: readi_loop.simps [of pid ip off rest s] m_def [symmetric] Let_def)
  qed
qed

lemma file_resize [simp]:
  "file_addr (i\<lparr>i_size := z\<rparr>) = file_addr i" "file_byte (i\<lparr>i_size := z\<rparr>) = file_byte i" "file_ok (i\<lparr>i_size := z\<rparr>) = file_ok i"
  by (simp_all add: file_addr_def file_byte_def file_ok_def fun_eq_iff)

section \<open>Writing\<close>

text \<open>
  The blocks of the first n bytes, and that they can be written without touching each other, the
  indirect block or the log.
\<close>

definition own_blocks :: "inode \<Rightarrow> (u32 \<Rightarrow> block) \<Rightarrow> nat \<Rightarrow> u32 set" where
  "own_blocks i v n = file_addr i v ` {k. k * BSIZE < n}"

definition own_ok :: "inode \<Rightarrow> (u32 \<Rightarrow> block) \<Rightarrow> (u32 \<Rightarrow> bool) \<Rightarrow> nat \<Rightarrow> bool" where
  "own_ok i v l n \<longleftrightarrow> inj_on (file_addr i v) {k. k * BSIZE < n} \<and> (\<forall>b\<in>own_blocks i v n. \<not> l b) \<and>
     i_addrs i ! NDIRECT \<notin> own_blocks i v n"

lemma block_below: "off < n \<Longrightarrow> off div BSIZE * BSIZE < n"
  using div_times_less_eq_dividend [of off BSIZE] by linarith

lemma own_block: "off < n \<Longrightarrow> file_addr i v (off div BSIZE) \<in> own_blocks i v n"
  using block_below [of off n] by (simp add: own_blocks_def)

text \<open>A change of blocks that leaves the indirect block alone does not move the file.\<close>

lemma file_addr_upd: "v' (i_addrs i ! NDIRECT) = v (i_addrs i ! NDIRECT) \<Longrightarrow> file_addr i v' = file_addr i v"
  by (auto simp: file_addr_def)

lemma file_upd:
  assumes "v' (i_addrs i ! NDIRECT) = v (i_addrs i ! NDIRECT)"
  shows "file_ok i v' sz n = file_ok i v sz n" "own_ok i v' l n = own_ok i v l n" "own_blocks i v' n = own_blocks i v n"
  using file_addr_upd [of v' i v, OF assms] by (simp_all add: file_ok_def own_ok_def own_blocks_def)

lemma write_part:
  assumes own: "own_ok i v l n" and len: "length (v (file_addr i v (off div BSIZE))) = BSIZE" and m: "m \<le> BSIZE - off mod BSIZE" "0 < m"
    and src: "length src = m" and off: "off + m \<le> n"
    and v': "v' = v(file_addr i v (off div BSIZE) := splice (v (file_addr i v (off div BSIZE))) (off mod BSIZE) src)"
  shows "v' (i_addrs i ! NDIRECT) = v (i_addrs i ! NDIRECT)"
    and "x < n \<Longrightarrow> file_byte i v' x = (if off \<le> x \<and> x < off + m then src ! (x - off) else file_byte i v x)"
proof -
  let ?a = "file_addr i v (off div BSIZE)"
  have ol: "off < n" using off m by simp
  have "i_addrs i ! NDIRECT \<noteq> ?a" using own own_block [OF ol, of i v] by (auto simp: own_ok_def)
  then show ind: "v' (i_addrs i ! NDIRECT) = v (i_addrs i ! NDIRECT)" by (simp add: v')
  assume x: "x < n"
  have B: "off mod BSIZE < BSIZE" by (simp add: BSIZE_def)
  have va: "v' ?a = splice (v ?a) (off mod BSIZE) src" "\<And>b. b \<noteq> ?a \<Longrightarrow> v' b = v b" by (simp_all add: v')
  have fa: "file_addr i v' = file_addr i v" by (rule file_addr_upd) (rule ind)
  show "file_byte i v' x = (if off \<le> x \<and> x < off + m then src ! (x - off) else file_byte i v x)"
  proof (cases "x div BSIZE = off div BSIZE")
    case True
    have xe: "x = off div BSIZE * BSIZE + x mod BSIZE" "off = off div BSIZE * BSIZE + off mod BSIZE"
      using True mod_div_mult_eq [of x BSIZE] by simp_all
    have "off \<le> x \<longleftrightarrow> off mod BSIZE \<le> x mod BSIZE" "x < off + m \<longleftrightarrow> x mod BSIZE < off mod BSIZE + m"
      by (intro iffI; use xe in linarith)+
    moreover have "x - off = x mod BSIZE - off mod BSIZE" using xe by linarith
    moreover have "x mod BSIZE < BSIZE" by (simp add: BSIZE_def)
    ultimately show ?thesis using m src len B by (simp add: file_byte_def fa True va(1) nth_splice)
  next
    case False
    have "file_addr i v (x div BSIZE) \<noteq> ?a"
      using own block_below [OF x] block_below [OF ol] False unfolding own_ok_def inj_on_def by blast
    moreover have "\<not> (off \<le> x \<and> x < off + m)"
    proof
      assume "off \<le> x \<and> x < off + m"
      then have "x - off < m" "off + (x - off) = x" by auto
      then show False using within_block(1) [of "x - off" m BSIZE off] m(1) False by simp
    qed
    ultimately show ?thesis by (auto simp: file_byte_def fa va(2))
  qed
qed

text \<open>What a write of src at off may have changed.\<close>

definition file_wrote :: "nat \<Rightarrow> nat \<Rightarrow> u8 list \<Rightarrow> nat \<Rightarrow> fsys \<Rightarrow> fsys \<Rightarrow> bool" where
  "file_wrote ip n src off s s' \<longleftrightarrow> fs_ready s' \<and> fs_sb s' = fs_sb s \<and> fs_icache s' = fs_icache s \<and> fsize s' = fsize s \<and>
     in_log (fs_log s') = in_log (fs_log s) \<and>
     (\<forall>b. b \<notin> own_blocks (ino ip s) (fview s) n \<longrightarrow> fview s' b = fview s b) \<and>
     (\<forall>x<n. file_byte (ino ip s) (fview s') x =
        (if off \<le> x \<and> x < off + length src then src ! (x - off) else file_byte (ino ip s) (fview s) x))"

lemma file_wrote_none: "fs_ready s \<Longrightarrow> file_wrote ip n [] off s s"
  by (auto simp: file_wrote_def)

lemma writei_loop_ok:
  assumes "fs_ready s" "fs_room s (N + e)" "src \<noteq> [] \<Longrightarrow> off mod BSIZE + length src \<le> N * BSIZE" "off + length src \<le> n"
    "file_ok (ino ip s) (fview s) (fsize s) n" "own_ok (ino ip s) (fview s) (in_log (fs_log s)) n"
  shows "\<exists>s'. writei_loop pid ip src off (length src) s = Inr s' \<and> file_wrote ip n src off s s' \<and> fs_room s' e"
  using assms
proof (induction N arbitrary: off src s)
  case 0
  then have "src = []" by (cases src) auto
  then show ?case using 0(1) file_wrote_none fs_room_le [OF 0(2), of e] by (simp add: writei_loop.simps)
next
  case (Suc N)
  show ?case
  proof (cases "src = []")
    case True
    then show ?thesis using Suc.prems(1) file_wrote_none fs_room_le [OF Suc.prems(2), of e] by (simp add: writei_loop.simps)
  next
    case False
    let ?i = "ino ip s" and ?v = "fview s"
    let ?a = "file_addr ?i ?v (off div BSIZE)"
    define m where "m = min (length src) (BSIZE - off mod BSIZE)"
    have B: "off mod BSIZE < BSIZE" by (simp add: BSIZE_def)
    have m: "0 < m" "m \<le> length src" "m \<le> BSIZE - off mod BSIZE" using False B by (auto simp: m_def)
    have off: "off < n" using False Suc.prems(4) by (cases src) simp_all
    note o = file_okD [OF Suc.prems(5) off]
    have nl: "\<not> in_log (fs_log s) ?a" using Suc.prems(6) own_block [OF off, of ?i ?v] by (simp add: own_ok_def)
    let ?d = "splice (?v ?a) (off mod BSIZE) (take m src)"
    have vl: "length (?v ?a) = BSIZE" by (rule fs_view_length [OF Suc.prems(1)])
    have dl: "length ?d = BSIZE" using m vl by simp
    from bmap_ok [OF Suc.prems(1,5) off, of pid] obtain s1 where s1: "bmap pid ip (off div BSIZE) s = Inr (?a, s1)" "fs_quiet s s1" by blast
    have q1: "fs_ready s1" "fs_icache s1 = fs_icache s" "fview s1 = ?v" "fsize s1 = fsize s" "fs_log s1 = fs_log s" "fs_sb s1 = fs_sb s"
      using s1(2) by (simp_all add: fs_quiet_def)
    have r1: "fs_room s1 (Suc (N + e))" using Suc.prems(2) fs_room_quiet [OF s1(2)] by simp
    from fs_update [OF q1(1) r1 _ _ dl, of ?a pid] q1 o(4) nl obtain b s2 s3 where b: "fbread pid ROOTDEV ?a s1 = Inr (b, s2)" "fdata b s2 = ?v ?a"
      "fwrite_release b ?d s2 = Inr s3" "fs_wrote s1 ?a ?d s3" "fs_room s3 (N + e)" "fs_icache s2 = fs_icache s" by auto
    have w3: "fs_ready s3" "fs_icache s3 = fs_icache s" "fview s3 = ?v(?a := ?d)" "fsize s3 = fsize s" "fs_sb s3 = fs_sb s"
      "in_log (fs_log s3) = in_log (fs_log s)" using b(4) q1 by (simp_all add: fs_wrote_def)
    have tl: "length (take m src) = m" "off + m \<le> n" using m Suc.prems(4) by simp_all
    note wp = write_part [OF Suc.prems(6) vl m(3,1) tl w3(3)]
    have step: "writei_loop pid ip src off (length src) s = writei_loop pid ip (drop m src) (off + m) (length (drop m src)) s3"
      using False s1(1) b(1-3) o(1) q1(2) by (simp add: writei_loop.simps [of pid ip src off "length src" s] m_def [symmetric] Let_def)
    have lim: "(off + m) mod BSIZE + length (drop m src) \<le> N * BSIZE" if "drop m src \<noteq> []"
    proof -
      have me: "m = BSIZE - off mod BSIZE" using that by (simp add: m_def min_def split: if_splits)
      then have "off + m = off div BSIZE * BSIZE + BSIZE" using B mod_div_mult_eq [of off BSIZE] by linarith
      then have "(off + m) mod BSIZE = 0" by simp
      then show ?thesis using Suc.prems(3) [OF False] me B by simp
    qed
    have own3: "file_ok (ino ip s3) (fview s3) (fsize s3) n" "own_ok (ino ip s3) (fview s3) (in_log (fs_log s3)) n"
      "own_blocks (ino ip s3) (fview s3) n = own_blocks ?i ?v n"
      using Suc.prems(5,6) file_upd [of "fview s3" ?i ?v, OF wp(1)] by (simp_all only: w3(2,4,6))
    have rest: "off + m + length (drop m src) \<le> n" using Suc.prems(4) m by simp
    from Suc.IH [OF w3(1) b(5) lim rest own3(1,2)] obtain s4 where
      s4: "writei_loop pid ip (drop m src) (off + m) (length (drop m src)) s3 = Inr s4" "file_wrote ip n (drop m src) (off + m) s3 s4" "fs_room s4 e"
      by blast
    have "file_wrote ip n src off s s4" unfolding file_wrote_def
    proof (intro conjI allI impI)
      fix c assume c: "c \<notin> own_blocks ?i ?v n"
      then have "c \<noteq> ?a" using own_block [OF off, of ?i ?v] by auto
      then show "fview s4 c = ?v c" using s4(2) own3(3) c w3(3) by (simp add: file_wrote_def)
    next
      fix x assume x: "x < n"
      have "file_byte ?i (fview s4) x = (if off + m \<le> x \<and> x < off + m + length (drop m src) then drop m src ! (x - (off + m)) else file_byte ?i (fview s3) x)"
        using s4(2) x w3(2) by (simp add: file_wrote_def)
      also have "\<dots> = (if off \<le> x \<and> x < off + length src then src ! (x - off) else file_byte ?i ?v x)"
        using wp(2) [OF x] m by auto
      finally show "file_byte ?i (fview s4) x = (if off \<le> x \<and> x < off + length src then src ! (x - off) else file_byte ?i ?v x)" .
    qed (use s4(2) w3 in \<open>simp_all add: file_wrote_def\<close>)
    then show ?thesis using step s4 by auto
  qed
qed

section \<open>Inodes on disk\<close>

lemma get16_put32s_before: "j + 2 \<le> k \<Longrightarrow> get16 (put32s d k vs) j = get16 d j"
  by (induction vs arbitrary: d k) auto

lemma length_put_dinode [simp]: "length (put_dinode k di d) = length d"
  by (simp add: put_dinode_def)

lemma dinode_of_put:
  assumes "64 * k + 64 \<le> length d" "length (d_addrs di) = NDIRECT + 1"
  shows "dinode_of (put_dinode k di d) k = di"
proof -
  have "get32s (put32s d' (64 * k + 12) (d_addrs di)) (64 * k + 12) (NDIRECT + 1) = d_addrs di" if "length d' = length d" for d'
    using get32s_put32s [of "64 * k + 12" "d_addrs di" d'] assms that by (simp add: NDIRECT_def)
  then show ?thesis using assms by (cases di) (simp add: dinode_of_def put_dinode_def get16_put32s_before get32_put32s_before)
qed

lemma iupdate_ok:
  assumes "fs_ready s" "fs_room s (Suc e)" "i_dev (ino ip s) = ROOTDEV"
    "IBLOCK (i_inum (ino ip s)) (fs_sb s) < fsize s" "\<not> in_log (fs_log s) (IBLOCK (i_inum (ino ip s)) (fs_sb s))"
  shows "\<exists>s' d. iupdate pid ip s = Inr s' \<and> fs_wrote s (IBLOCK (i_inum (ino ip s)) (fs_sb s)) d s' \<and> fs_room s' e \<and>
    d = put_dinode (unat (i_inum (ino ip s)) mod IPB)
      \<lparr>d_type = i_type (ino ip s), d_major = i_major (ino ip s), d_minor = i_minor (ino ip s), d_nlink = i_nlink (ino ip s),
       d_size = i_size (ino ip s), d_addrs = i_addrs (ino ip s)\<rparr> (fview s (IBLOCK (i_inum (ino ip s)) (fs_sb s)))"
proof -
  let ?b = "IBLOCK (i_inum (ino ip s)) (fs_sb s)"
  let ?d = "put_dinode (unat (i_inum (ino ip s)) mod IPB)
      \<lparr>d_type = i_type (ino ip s), d_major = i_major (ino ip s), d_minor = i_minor (ino ip s), d_nlink = i_nlink (ino ip s),
       d_size = i_size (ino ip s), d_addrs = i_addrs (ino ip s)\<rparr> (fview s ?b)"
  have "length ?d = BSIZE" using fs_view_length [OF assms(1)] by simp
  from fs_update [OF assms(1,2,4,5) this, of pid] show ?thesis using assms(3) by (auto simp: iupdate_def Let_def)
qed

section \<open>Reading a file\<close>

lemma file_size_bound: "file_ok i v sz n \<Longrightarrow> n \<le> MAXFILE * BSIZE"
  unfolding file_ok_def by (meson less_irrefl not_le)

lemma unat_of_nat_back: "of_nat (unat x) = (x :: u32)"
  by simp

lemma sint_small: "n < 2147483648 \<Longrightarrow> sint (of_nat n :: u32) = int n"
  using signed_take_bit_int_eq_self [of 31 "int n"] by (simp add: signed_of_nat)

lemma readi_file:
  assumes r: "fs_ready s" and t: "i_type (ino ip s) \<noteq> T_DEV" and f: "file_ok (ino ip s) (fview s) (fsize s) (unat (i_size (ino ip s)))"
    and off: "off \<le> i_size (ino ip s)" "unat off + unat n < 2 ^ 32"
  defines "m \<equiv> min (unat n) (unat (i_size (ino ip s)) - unat off)"
  shows "\<exists>s'. readi devsw pid ip off n s = Inr ((int m, map (file_byte (ino ip s) (fview s)) [unat off..<unat off + m]), s') \<and> fs_quiet s s'"
proof -
  let ?i = "ino ip s"
  have on: "unat (off + n) = unat off + unat n" using off(2) by (simp add: unat_word_ariths)
  have le: "unat off \<le> unat (i_size ?i)" using off(1) by (simp add: word_le_nat_alt)
  have w: "\<not> off > i_size ?i" "\<not> off + n < off" using le on by (simp_all add: word_less_nat_alt)
  let ?n = "if off + n > i_size ?i then i_size ?i - off else n"
  have n: "unat ?n = m" using le on off(1) by (auto simp: m_def word_less_nat_alt unat_sub)
  have "m \<le> unat (i_size ?i)" using n le by (simp add: m_def)
  then have "m < 2147483648" using file_size_bound [OF f] by (simp add: MAXFILE_def NDIRECT_def NINDIRECT_def BSIZE_def)
  from sint_small [OF this] have "sint ?n = int m" using n unat_of_nat_back by metis
  moreover have "unat off + m \<le> unat (i_size ?i)" using le by (simp add: m_def)
  from readi_loop_ok [OF r f this, of pid] obtain s' where
    "readi_loop pid ip (unat off) m s = Inr (map (file_byte ?i (fview s)) [unat off..<unat off + m], s')" "fs_quiet s s'" by blast
  ultimately show ?thesis using t w n by (simp add: readi_def Let_def)
qed

text \<open>
  C8.  readi returns what the file holds.  For a file or directory whose blocks are allocated, a
  read of n bytes at an offset inside the file returns the bytes at the offsets from there up
  to n of them or the end of the file, whichever comes first, through the direct and the
  indirect addresses; it allocates nothing, changes no block, and leaves the log and the inode
  table as they were.
\<close>

theorem readi_ok:
  assumes "fs_ready s" "i_type (ino ip s) \<noteq> T_DEV" "file_ok (ino ip s) (fview s) (fsize s) (unat (i_size (ino ip s)))"
    "off \<le> i_size (ino ip s)" "unat off + unat n < 2 ^ 32" "m = min (unat n) (unat (i_size (ino ip s)) - unat off)"
  shows "\<exists>s'. readi devsw pid ip off n s = Inr ((int m, map (file_byte (ino ip s) (fview s)) [unat off..<unat off + m]), s') \<and> fs_quiet s s'"
  unfolding assms(6) by (rule readi_file [OF assms(1-5)])

section \<open>Writing a file\<close>

text \<open>Where a write of L bytes at off can go: all blocks are there, and so is room in the log.\<close>

definition write_ready :: "nat \<Rightarrow> nat \<Rightarrow> nat \<Rightarrow> fsys \<Rightarrow> bool" where
  "write_ready ip off L s \<longleftrightarrow>
     (let i = ino ip s; E = max (unat (i_size i)) (off + L); ib = IBLOCK (i_inum i) (fs_sb s) in
      fs_ready s \<and> ip < length (fs_icache s) \<and> i_type i \<noteq> T_DEV \<and> 0 < L \<and> off \<le> unat (i_size i) \<and>
      file_ok i (fview s) (fsize s) E \<and> own_ok i (fview s) (in_log (fs_log s)) E \<and>
      fs_room s ((off mod BSIZE + L + BSIZE - 1) div BSIZE + 1) \<and>
      ib < fsize s \<and> \<not> in_log (fs_log s) ib \<and> ib \<notin> own_blocks i (fview s) E \<and> ib \<noteq> i_addrs i ! NDIRECT)"

lemma blocks_enough: "x \<le> (x + BSIZE - 1) div BSIZE * BSIZE"
proof -
  have "x + BSIZE - 1 < ((x + BSIZE - 1) div BSIZE + 1) * BSIZE" using dividend_less_times_div [of BSIZE "x + BSIZE - 1"] by (simp add: BSIZE_def)
  then show ?thesis by (simp add: BSIZE_def)
qed

lemma writei_file:
  assumes w: "write_ready ip (unat off) (length src) s"
  shows "\<exists>s1. writei devsw pid ip src off (of_nat (length src)) s = Inr (int (length src), s1) \<and> fs_ready s1 \<and> fsize s1 = fsize s \<and>
    ino ip s1 = (ino ip s)\<lparr>i_size := of_nat (max (unat (i_size (ino ip s))) (unat off + length src))\<rparr> \<and>
    (\<forall>b. b \<notin> own_blocks (ino ip s) (fview s) (max (unat (i_size (ino ip s))) (unat off + length src)) \<and> b \<noteq> IBLOCK (i_inum (ino ip s)) (fs_sb s) \<longrightarrow>
       fview s1 b = fview s b) \<and>
    (\<forall>x < max (unat (i_size (ino ip s))) (unat off + length src). file_byte (ino ip s) (fview s1) x =
       (if unat off \<le> x \<and> x < unat off + length src then src ! (x - unat off) else file_byte (ino ip s) (fview s) x))"
proof -
  let ?i = "ino ip s" and ?o = "unat off" and ?L = "length src"
  let ?E = "max (unat (i_size ?i)) (?o + ?L)" and ?ib = "IBLOCK (i_inum ?i) (fs_sb s)" and ?N = "(?o mod BSIZE + ?L + BSIZE - 1) div BSIZE"
  have r: "fs_ready s" "ip < length (fs_icache s)" "i_type ?i \<noteq> T_DEV" "0 < ?L" "?o \<le> unat (i_size ?i)"
    and f: "file_ok ?i (fview s) (fsize s) ?E" and o: "own_ok ?i (fview s) (in_log (fs_log s)) ?E"
    and rm: "fs_room s (?N + 1)" and ib: "?ib < fsize s" "\<not> in_log (fs_log s) ?ib" "?ib \<notin> own_blocks ?i (fview s) ?E" "?ib \<noteq> i_addrs ?i ! NDIRECT"
    using w unfolding write_ready_def Let_def by blast+
  have mx: "?o + ?L \<le> 274432" using file_size_bound [OF f] by (simp add: MAXFILE_def NDIRECT_def NINDIRECT_def BSIZE_def)
  have nL: "unat (of_nat ?L :: u32) = ?L" using mx by (simp add: unat_of_nat_u32)
  have on: "unat (off + of_nat ?L) = ?o + ?L" using mx nL by (simp add: unat_word_ariths)
  have g: "\<not> off > i_size ?i" "\<not> off + of_nat ?L < off" "\<not> off + of_nat ?L > of_nat (MAXFILE * BSIZE)" "of_nat ?L > (0 :: u32)"
    using r(4,5) on mx nL by (simp_all add: word_less_nat_alt MAXFILE_def NDIRECT_def NINDIRECT_def BSIZE_def)
  have si: "sint (of_nat ?L :: u32) = int ?L" by (rule sint_small) (use mx in simp)
  have b: "src \<noteq> [] \<Longrightarrow> ?o mod BSIZE + ?L \<le> ?N * BSIZE" using blocks_enough [of "?o mod BSIZE + ?L"] by simp
  have E: "?o + ?L \<le> ?E" by simp
  from writei_loop_ok [OF r(1) rm b E f o, of pid] obtain s1 where
    s1: "writei_loop pid ip src ?o ?L s = Inr s1" "file_wrote ip ?E src ?o s s1" "fs_room s1 1" by blast
  have e1: "fs_ready s1" "fs_sb s1 = fs_sb s" "fs_icache s1 = fs_icache s" "fsize s1 = fsize s" "in_log (fs_log s1) = in_log (fs_log s)"
    using s1(2) by (simp_all add: file_wrote_def)
  show ?thesis
  proof (cases "off + of_nat ?L > i_size ?i")
    case False
    then have le: "?o + ?L \<le> unat (i_size ?i)" using on by (simp add: word_less_nat_alt)
    have "writei devsw pid ip src off (of_nat ?L) s = Inr (int ?L, s1)"
      using r(3) g s1(1) nL si False e1(3) by (simp add: writei_def Let_def)
    moreover have "?i = ?i\<lparr>i_size := of_nat ?E\<rparr>" using le by (simp add: max_absorb1)
    ultimately show ?thesis using s1(2) e1 unfolding file_wrote_def by metis
  next
    case True
    then have le: "?E = ?o + ?L" using on by (simp add: word_less_nat_alt)
    let ?s = "upd_ino ip (\<lambda>i. i\<lparr>i_size := off + of_nat ?L\<rparr>) s1"
    have i2: "ino ip ?s = ?i\<lparr>i_size := of_nat ?E\<rparr>" using e1(3) r(2) le on by (simp add: upd_ino_def)
    have s: "fs_bio ?s = fs_bio s1" "fs_log ?s = fs_log s1" "fs_sb ?s = fs_sb s" "fs_ready ?s" "fs_room ?s (Suc 0)"
      using e1 s1(3) by (simp_all add: upd_ino_def fs_ready_def fs_room_def)
    have "i_dev ?i = ROOTDEV" using f by (simp add: file_ok_def)
    then obtain s2 d where s2: "iupdate pid ip ?s = Inr s2" "fs_wrote ?s ?ib d s2"
      using iupdate_ok [OF s(4,5), of ip pid] ib(1,2) i2 s e1 by auto
    have v2: "fview s2 = (fview s1)(?ib := d)" "fs_icache s2 = fs_icache ?s" "fs_ready s2" "fsize s2 = fsize s" using s2(2) s e1 by (simp_all add: fs_wrote_def)
    have "writei devsw pid ip src off (of_nat ?L) s = Inr (int ?L, s2)"
      using r(3) g s1(1) nL si True e1(3) s2(1) by (simp add: writei_def Let_def)
    moreover have "file_byte ?i (fview s2) x = file_byte ?i (fview s1) x" if "x < ?E" for x
    proof -
      have own: "i_addrs ?i ! NDIRECT \<notin> own_blocks ?i (fview s) ?E" using o by (simp add: own_ok_def)
      have ind: "fview s1 (i_addrs ?i ! NDIRECT) = fview s (i_addrs ?i ! NDIRECT)" using s1(2) own by (simp add: file_wrote_def)
      have fa1: "file_addr ?i (fview s1) = file_addr ?i (fview s)" by (rule file_addr_upd) (rule ind)
      have fa2: "file_addr ?i (fview s2) = file_addr ?i (fview s1)" by (rule file_addr_upd) (use v2(1) ib(4) in simp)
      have "file_addr ?i (fview s) (x div BSIZE) \<noteq> ?ib" using own_block [OF that, of ?i "fview s"] ib(3) by auto
      then have "fview s2 (file_addr ?i (fview s) (x div BSIZE)) = fview s1 (file_addr ?i (fview s) (x div BSIZE))" by (simp add: v2(1))
      then show ?thesis by (simp add: file_byte_def fa2 fa1)
    qed
    ultimately show ?thesis using s1(2) v2 i2 unfolding file_wrote_def by (auto intro!: exI [of _ s2])
  qed
qed


section \<open>The free map\<close>

lemma length_mark_bit [simp]: "length (mark_bit bi d) = length d"
  by (simp add: mark_bit_def)

lemma map_bit_iff: "map_bit d bi \<longleftrightarrow> bit (d ! (bi div 8)) (bi mod 8)"
  unfolding map_bit_def by (simp add: push_bit_of_1 and_exp_eq_0_iff_not_bit)

lemma map_bit_mark:
  assumes "bi < BPB" "bj < BPB" "length d = BSIZE"
  shows "map_bit (mark_bit bi d) bj \<longleftrightarrow> bj = bi \<or> map_bit d bj"
proof -
  have "bi div 8 < length d" using assms by (simp add: BPB_def BSIZE_def less_mult_imp_div_less)
  moreover have "bj = bi \<longleftrightarrow> bj div 8 = bi div 8 \<and> bj mod 8 = bi mod 8" by (metis div_mod_decomp)
  ultimately show ?thesis by (auto simp: map_bit_iff mark_bit_def nth_upd bit_simps)
qed

text \<open>Block b is free according to the map in the blocks v.\<close>

definition bfree_in :: "superblock \<Rightarrow> (u32 \<Rightarrow> block) \<Rightarrow> nat \<Rightarrow> bool" where
  "bfree_in sb v b \<longleftrightarrow> \<not> map_bit (v (BBLOCK (of_nat b) sb)) (b mod BPB)"

lemma find_upt_Some:
  "P b \<Longrightarrow> b < n \<Longrightarrow> (\<And>c. c < b \<Longrightarrow> \<not> P c) \<Longrightarrow> find P [0..<n] = Some b"
  by (auto simp: find_Some_iff intro!: exI [of _ b])

lemma BBLOCK_nat:
  assumes "b < 2 ^ 32"
  shows "BBLOCK (of_nat b) sb = of_nat (b div BPB) + sb_bmapstart sb"
proof -
  have "unat (of_nat b div of_nat BPB :: u32) = unat (of_nat (b div BPB) :: u32)"
    using assms by (simp add: unat_div unat_of_nat_u32 BPB_def BSIZE_def)
  then have "(of_nat b div of_nat BPB :: u32) = of_nat (b div BPB)" unfolding word_unat_eq_iff .
  then show ?thesis by (simp add: BBLOCK_def)
qed

lemma block_index: "c < BPB \<Longrightarrow> (k * BPB + c) div BPB = k" "c < BPB \<Longrightarrow> (k * BPB + c) mod BPB = c"
  by simp_all

text \<open>The block b is the first free one, and it and its block of the map can be written.\<close>

definition balloc_ready :: "nat \<Rightarrow> fsys \<Rightarrow> bool" where
  "balloc_ready b s \<longleftrightarrow> fs_ready s \<and> fs_room s 2 \<and> b < unat (sb_size (fs_sb s)) \<and> bfree_in (fs_sb s) (fview s) b \<and>
     (\<forall>k \<le> b div BPB. of_nat k + sb_bmapstart (fs_sb s) < fsize s) \<and> \<not> in_log (fs_log s) (BBLOCK (of_nat b) (fs_sb s)) \<and>
     of_nat b < fsize s \<and> \<not> in_log (fs_log s) (of_nat b) \<and> of_nat b \<noteq> BBLOCK (of_nat b) (fs_sb s)"

definition balloc_result :: "nat \<Rightarrow> fsys \<Rightarrow> fsys \<Rightarrow> bool" where
  "balloc_result b s s' \<longleftrightarrow> fs_ready s' \<and> fs_sb s' = fs_sb s \<and> fs_icache s' = fs_icache s \<and>
     fview s' = (fview s)(BBLOCK (of_nat b) (fs_sb s) := mark_bit (b mod BPB) (fview s (BBLOCK (of_nat b) (fs_sb s))), of_nat b := replicate BSIZE 0)"

lemma balloc_ready_u32: "balloc_ready b s \<Longrightarrow> b < 2 ^ 32"
  using less_trans [OF _ unat_lt_u32 [of "sb_size (fs_sb s)"], of b] by (simp add: balloc_ready_def)

lemma balloc_found:
  assumes r: "balloc_ready b s" and least: "\<And>c. b div BPB * BPB \<le> c \<Longrightarrow> c < b \<Longrightarrow> \<not> bfree_in (fs_sb s) (fview s) c"
  shows "\<exists>s'. balloc_loop (b div BPB * BPB # bs) pid ROOTDEV s = Inr (of_nat b, s') \<and> balloc_result b s s'"
proof -
  let ?j = "b div BPB" and ?B = "BBLOCK (of_nat b) (fs_sb s)"
  have b32: "b < 2 ^ 32" by (rule balloc_ready_u32 [OF r])
  have rs: "fs_ready s" "fs_room s (Suc 1)" "b < unat (sb_size (fs_sb s))" "bfree_in (fs_sb s) (fview s) b" "?B < fsize s"
      "\<not> in_log (fs_log s) ?B" "of_nat b < fsize s" "\<not> in_log (fs_log s) (of_nat b)" "of_nat b \<noteq> ?B"
    using r BBLOCK_nat [OF b32, of "fs_sb s"] unfolding balloc_ready_def numeral_2_eq_2 One_nat_def by auto
  have bm: "b = ?j * BPB + b mod BPB" "b mod BPB < BPB" by (simp_all add: BPB_def BSIZE_def)
  have blk: "BBLOCK (of_nat (?j * BPB + c)) (fs_sb s) = ?B" if "c \<le> b mod BPB" for c
  proof -
    have c: "c < BPB" "?j * BPB + c < 2 ^ 32" using that bm b32 by linarith+
    show ?thesis using BBLOCK_nat [OF c(2)] BBLOCK_nat [OF b32] block_index(1) [OF c(1)] by simp
  qed
  have find: "find (\<lambda>bi. \<not> map_bit (fview s ?B) bi) [0..<min BPB (unat (sb_size (fs_sb s)) - ?j * BPB)] = Some (b mod BPB)"
  proof (rule find_upt_Some)
    show "\<not> map_bit (fview s ?B) (b mod BPB)" using rs(4) by (simp add: bfree_in_def)
    show "b mod BPB < min BPB (unat (sb_size (fs_sb s)) - ?j * BPB)" using rs(3) bm by linarith
    fix c assume c: "c < b mod BPB"
    then have "?j * BPB + c < b" "c < BPB" using bm by linarith+
    then show "\<not> \<not> map_bit (fview s ?B) c" using least [of "?j * BPB + c"] blk [of c] c by (simp add: bfree_in_def)
  qed
  let ?d = "mark_bit (b mod BPB) (fview s ?B)"
  have dl: "length ?d = BSIZE" using fs_view_length [OF rs(1)] by simp
  from fs_update [OF rs(1,2,5,6) dl, of pid] obtain p s1 s2 where
    u: "fbread pid ROOTDEV ?B s = Inr (p, s1)" "fdata p s1 = fview s ?B" "fs_sb s1 = fs_sb s" "fwrite_release p ?d s1 = Inr s2" "fs_wrote s ?B ?d s2" "fs_room s2 (Suc 0)" by auto
  have w: "fs_ready s2" "of_nat b < fsize s2" "\<not> in_log (fs_log s2) (of_nat b)" using u(5) rs(7,8) by (simp_all add: fs_wrote_def)
  from fs_update [OF w(1) u(6) w(2,3), of "replicate BSIZE 0" pid] obtain q s3 s4 where
    z: "fbread pid ROOTDEV (of_nat b) s2 = Inr (q, s3)" "fwrite_release q (replicate BSIZE 0) s3 = Inr s4" "fs_wrote s2 (of_nat b) (replicate BSIZE 0) s4" by auto
  have "balloc_result b s s4" using u(5) z(3) by (simp add: balloc_result_def fs_wrote_def)
  moreover have "BBLOCK (of_nat (?j * BPB)) (fs_sb s) = ?B" using blk [of 0] by simp
  ultimately show ?thesis using u(1-4) z(1,2) find bm(1) by (simp add: bzero_def)
qed

lemma balloc_loop_ok:
  assumes r: "balloc_ready b s" and least: "\<And>c. c < b \<Longrightarrow> \<not> bfree_in (fs_sb s) (fview s) c" and j: "j \<le> b div BPB" "b div BPB < K"
  shows "\<exists>s'. balloc_loop (map (\<lambda>k. k * BPB) [j..<K]) pid ROOTDEV s = Inr (of_nat b, s') \<and> balloc_result b s s'"
  using assms
proof (induction "b div BPB - j" arbitrary: j s)
  case 0
  then have "j = b div BPB" by simp
  then have "map (\<lambda>k. k * BPB) [j..<K] = b div BPB * BPB # map (\<lambda>k. k * BPB) [Suc j..<K]" using 0(4,5) by (simp add: upt_rec)
  then show ?case using balloc_found [OF 0(2), of "map (\<lambda>k. k * BPB) [Suc j..<K]" pid] 0(3) by simp
next
  case (Suc d)
  let ?B = "BBLOCK (of_nat (j * BPB)) (fs_sb s)"
  have l: "map (\<lambda>k. k * BPB) [j..<K] = j * BPB # map (\<lambda>k. k * BPB) [Suc j..<K]" using Suc.hyps(2) Suc.prems(4) by (simp add: upt_rec)
  have jb: "j < b div BPB" using Suc.hyps(2) by simp
  have "Suc j * BPB \<le> b div BPB * BPB" using jb by (intro mult_le_mono1) simp
  then have "j * BPB + BPB \<le> b" using div_times_less_eq_dividend [of b BPB] by (simp only: mult_Suc add.commute)
  then have below: "j * BPB + c < b" if "c < BPB" for c using that by linarith
  have b32: "b < 2 ^ 32" by (rule balloc_ready_u32 [OF Suc.prems(1)])
  have blk: "BBLOCK (of_nat (j * BPB + c)) (fs_sb s) = of_nat j + sb_bmapstart (fs_sb s)" if "c < BPB" for c
    using BBLOCK_nat [of "j * BPB + c"] below [OF that] b32 block_index(1) [OF that] by simp
  have B: "?B = of_nat j + sb_bmapstart (fs_sb s)" using blk [of 0] by (simp add: BPB_def BSIZE_def)
  have rd: "fs_ready s" "?B < fsize s" using Suc.prems(1) jb B by (auto simp: balloc_ready_def)
  from fs_read [OF rd, of pid] obtain p s1 s2 where u: "fbread pid ROOTDEV ?B s = Inr (p, s1)" "fdata p s1 = fview s ?B" "fs_sb s1 = fs_sb s"
    "fbrelse p s1 = Inr s2" "fs_quiet s s2" by blast
  have "map_bit (fview s ?B) c" if "c < BPB" for c
    using Suc.prems(2) [OF below [OF that]] blk [OF that] B block_index(2) [OF that] by (simp add: bfree_in_def)
  then have "find (\<lambda>bi. \<not> map_bit (fview s ?B) bi) [0..<min BPB (unat (sb_size (fs_sb s)) - j * BPB)] = None" by (simp add: find_None_iff)
  then have step: "balloc_loop (map (\<lambda>k. k * BPB) [j..<K]) pid ROOTDEV s = balloc_loop (map (\<lambda>k. k * BPB) [Suc j..<K]) pid ROOTDEV s2"
    unfolding l using u by simp
  have q: "balloc_ready b s2" "\<And>c. c < b \<Longrightarrow> \<not> bfree_in (fs_sb s2) (fview s2) c"
    using Suc.prems(1,2) u(5) fs_room_quiet [OF u(5)] by (auto simp: balloc_ready_def fs_quiet_def)
  have q3: "balloc_result b s2 s' \<Longrightarrow> balloc_result b s s'" for s' using u(5) by (simp add: fs_quiet_def balloc_result_def)
  have "d = b div BPB - Suc j" "Suc j \<le> b div BPB" using Suc.hyps(2) by simp_all
  from Suc.hyps(1) [OF this(1) q(1,2) this(2) Suc.prems(4)] show ?case using step q3 by auto
qed

text \<open>
  C9.  balloc gives out the first free block.  If b is the first block the free map shows free, and
  the blocks to be written are outside the log with room for two of them, balloc returns b;
  exactly the bit of b has been set in the map and block b has been filled with zeros, in
  what every reader sees, and no other block and no inode has changed.
\<close>

theorem balloc_ok:
  assumes "balloc_ready b s" "\<And>c. c < b \<Longrightarrow> \<not> bfree_in (fs_sb s) (fview s) c"
  shows "\<exists>s'. balloc pid ROOTDEV s = Inr (of_nat b, s') \<and> balloc_result b s s' \<and>
    (\<forall>c < BPB. map_bit (fview s' (BBLOCK (of_nat b) (fs_sb s))) c \<longleftrightarrow> c = b mod BPB \<or> map_bit (fview s (BBLOCK (of_nat b) (fs_sb s))) c)"
proof -
  let ?K = "(unat (sb_size (fs_sb s)) + BPB - 1) div BPB"
  have "b < unat (sb_size (fs_sb s))" using assms(1) by (simp add: balloc_ready_def)
  then have "b div BPB < ?K"
  proof -
    have "(b + BPB) div BPB \<le> ?K" using \<open>b < unat (sb_size (fs_sb s))\<close> by (intro div_le_mono) simp
    then show ?thesis by (simp add: BPB_def BSIZE_def)
  qed
  from balloc_loop_ok [OF assms _ this, of 0 pid] obtain s' where
    s': "balloc pid ROOTDEV s = Inr (of_nat b, s')" "balloc_result b s s'" by (auto simp: balloc_def)
  have "fs_ready s" "of_nat b \<noteq> BBLOCK (of_nat b) (fs_sb s)" using assms(1) by (simp_all add: balloc_ready_def)
  moreover have "b mod BPB < BPB" by (simp add: BPB_def BSIZE_def)
  ultimately show ?thesis using s' map_bit_mark fs_view_length by (fastforce simp: balloc_result_def)
qed

section \<open>Writing an inode and reading it back\<close>

text \<open>
  C38.  An inode survives in its block.  After iupdate has written the entry ip to disk, whatever the
  entry holds when the inode is locked again (for the same number, in use, unlocked and not
  valid), ilock brings back the type, device numbers, link count, size and addresses that
  iupdate wrote.
\<close>

theorem iupdate_ilock:
  assumes r: "fs_ready s" "fs_room s 1" and ip: "ip < length (fs_icache s)" "i_dev (ino ip s) = ROOTDEV" "i_type (ino ip s) \<noteq> 0"
      "length (i_addrs (ino ip s)) = NDIRECT + 1"
    and ib: "IBLOCK (i_inum (ino ip s)) (fs_sb s) < fsize s" "\<not> in_log (fs_log s) (IBLOCK (i_inum (ino ip s)) (fs_sb s))"
    and i': "i_dev i' = ROOTDEV" "i_inum i' = i_inum (ino ip s)" "1 \<le> i_ref i'" "\<not> sl_locked (i_lock i')" "\<not> i_valid i'"
  shows "\<exists>s1 s2. iupdate pid ip s = Inr s1 \<and> ilock pid ip (s1\<lparr>fs_icache := (fs_icache s1)[ip := i']\<rparr>) = Inr s2 \<and>
    i_type (ino ip s2) = i_type (ino ip s) \<and> i_major (ino ip s2) = i_major (ino ip s) \<and> i_minor (ino ip s2) = i_minor (ino ip s) \<and>
    i_nlink (ino ip s2) = i_nlink (ino ip s) \<and> i_size (ino ip s2) = i_size (ino ip s) \<and> i_addrs (ino ip s2) = i_addrs (ino ip s) \<and> i_valid (ino ip s2)"
proof -
  let ?i = "ino ip s" and ?b = "IBLOCK (i_inum (ino ip s)) (fs_sb s)" and ?k = "unat (i_inum (ino ip s)) mod IPB"
  let ?di = "\<lparr>d_type = i_type ?i, d_major = i_major ?i, d_minor = i_minor ?i, d_nlink = i_nlink ?i, d_size = i_size ?i, d_addrs = i_addrs ?i\<rparr>"
  from iupdate_ok [OF r(1) _ ip(2) ib, of 0 pid] r(2) obtain s1 where
    s1: "iupdate pid ip s = Inr s1" "fs_wrote s ?b (put_dinode ?k ?di (fview s ?b)) s1" by auto
  have e1: "fs_ready s1" "fs_sb s1 = fs_sb s" "fs_icache s1 = fs_icache s" "fsize s1 = fsize s" "fview s1 ?b = put_dinode ?k ?di (fview s ?b)"
    using s1(2) by (simp_all add: fs_wrote_def)
  have "?k < IPB" by (simp add: IPB_def BSIZE_def)
  then have "64 * ?k + 64 \<le> length (fview s ?b)" using fs_view_length [OF r(1)] by (simp add: IPB_def BSIZE_def)
  from dinode_of_put [OF this, of ?di] ip(4) have di: "dinode_of (fview s1 ?b) ?k = ?di" by (simp add: e1(5))
  let ?j = "i'\<lparr>i_lock := \<lparr>sl_locked = True, sl_pid = pid\<rparr>\<rparr>"
  let ?s = "s1\<lparr>fs_icache := (fs_icache s1)[ip := ?j]\<rparr>"
  have rs: "fs_ready ?s" "?b < fsize ?s" using e1 ib(1) by (simp_all add: fs_ready_def)
  from fs_read [OF rs, of pid] obtain b s2 s3 where b: "fbread pid ROOTDEV ?b ?s = Inr (b, s2)" "fdata b s2 = fview s1 ?b" "fbrelse b s2 = Inr s3"
    "fs_icache s2 = fs_icache ?s" "fs_quiet ?s s3" by auto
  have l: "ip < length (fs_icache s1)" using ip(1) e1(3) by simp
  have "ilock pid ip (s1\<lparr>fs_icache := (fs_icache s1)[ip := i']\<rparr>) =
      Inr (upd_ino ip (\<lambda>i. i\<lparr>i_type := i_type ?i, i_major := i_major ?i, i_minor := i_minor ?i, i_nlink := i_nlink ?i,
                                i_size := i_size ?i, i_addrs := i_addrs ?i, i_valid := True\<rparr>) s3)"
    using i' l b(1-4) di ip(3) e1(2) by (simp add: ilock_def upd_ino_def Let_def)
  then show ?thesis using s1(1) l b(5) by (auto simp: upd_ino_def fs_quiet_def)
qed

section \<open>Paths\<close>

text \<open>The elements skipelem yields one after the other, as the strings in the name buffer.\<close>

function elems :: "u8 list \<Rightarrow> u8 list \<Rightarrow> u8 list list" where
  "elems path name = (case skipelem path name of None \<Rightarrow> [] | Some (path', name') \<Rightarrow> cstr name' # elems path' name')"
  by auto
termination
  by (relation "measure (\<lambda>(path, name). length path)") (auto dest: skipelem_shorter)

declare elems.simps [simp del]

text \<open>The words of a path between its slashes.\<close>

fun split_slash :: "u8 list \<Rightarrow> u8 list list" where
  "split_slash [] = [[]]"
| "split_slash (c # cs) = (if c = 47 then [] # split_slash cs else (c # hd (split_slash cs)) # tl (split_slash cs))"

lemma split_nonempty [simp]: "split_slash p \<noteq> []"
  by (induction p) auto

lemma split_word: "47 \<notin> set e \<Longrightarrow> split_slash e = [e]" "47 \<notin> set e \<Longrightarrow> split_slash (e @ 47 # r) = e # split_slash r"
  by (induction e) auto

lemma words_skip: "filter (\<lambda>w. w \<noteq> []) (split_slash (dropWhile (\<lambda>c. c = 47) p)) = filter (\<lambda>w. w \<noteq> []) (split_slash p)"
  by (induction p) auto

lemma name_buffer:
  assumes "0 \<notin> set e" "length name = DIRSIZ"
  defines "nm \<equiv> (if length e \<ge> DIRSIZ then splice name 0 (take DIRSIZ e) else (splice name 0 e)[length e := 0])"
  shows "cstr nm = take DIRSIZ e" "length nm = DIRSIZ"
proof -
  have tw: "takeWhile (\<lambda>c. c \<noteq> 0) (e @ 0 # r) = e" for r :: "u8 list" using assms(1) by (induction e) auto
  have tk: "takeWhile (\<lambda>c. c \<noteq> 0) (take n e) = take n e" for n using assms(1) by (auto simp: takeWhile_eq_all_conv dest: in_set_takeD)
  show "length nm = DIRSIZ" using assms(2) by (auto simp: nm_def)
  show "cstr nm = take DIRSIZ e"
  proof (cases "length e \<ge> DIRSIZ")
    case True
    then show ?thesis using assms(2) tk by (simp add: nm_def cstr_def splice_def)
  next
    case False
    then obtain x xs where "drop (length e) name = x # xs" using assms(2) by (cases "drop (length e) name") auto
    then have "nm = e @ 0 # xs" using False by (simp add: nm_def splice_def)
    then show ?thesis using tw False by (simp add: cstr_def)
  qed
qed

text \<open>
  C39.  skipelem takes paths apart as it should: the elements it yields until it returns 0 are the
  nonempty words between the slashes of the path, in order, each cut to DIRSIZ characters, for
  any contents of the name buffer.
\<close>

theorem skipelem_elements:
  assumes "0 \<notin> set path" "length name = DIRSIZ"
  shows "elems path name = map (take DIRSIZ) (filter (\<lambda>w. w \<noteq> []) (split_slash path))"
  using assms
proof (induction "length path" arbitrary: path name rule: less_induct)
  case less
  let ?p = "dropWhile (\<lambda>c. c = 47) path"
  have w: "filter (\<lambda>w. w \<noteq> []) (split_slash path) = filter (\<lambda>w. w \<noteq> []) (split_slash ?p)" by (rule words_skip [symmetric])
  show ?case
  proof (cases "?p = []")
    case True
    then have "skipelem path name = None" by (simp add: skipelem_def)
    then show ?thesis using w True by (simp add: elems.simps)
  next
    case False
    define e where "e = takeWhile (\<lambda>c. c \<noteq> 47) ?p"
    define r where "r = dropWhile (\<lambda>c. c \<noteq> 47) ?p"
    have pe: "?p = e @ r" unfolding e_def r_def by (rule takeWhile_dropWhile_id [symmetric])
    then have pd: "drop (length e) ?p = r" by simp
    have "hd ?p \<noteq> 47" using False hd_dropWhile [of "\<lambda>c. c = 47" path] by blast
    then have en: "e \<noteq> []" using False by (cases ?p) (auto simp: e_def)
    have e47: "47 \<notin> set e" by (auto simp: e_def dest: set_takeWhileD)
    have e0: "0 \<notin> set e" "0 \<notin> set (dropWhile (\<lambda>c. c = 47) r)"
      using less.prems(1) by (auto simp: e_def r_def dest!: set_takeWhileD set_dropWhileD)
    define nm where "nm = (if length e \<ge> DIRSIZ then splice name 0 (take DIRSIZ e) else (splice name 0 e)[length e := 0])"
    note nb = name_buffer [OF e0(1) less.prems(2), folded nm_def]
    have sk: "skipelem path name = Some (dropWhile (\<lambda>c. c = 47) r, nm)"
      using False pd by (simp add: skipelem_def Let_def e_def nm_def)
    have "filter (\<lambda>w. w \<noteq> []) (split_slash ?p) = e # filter (\<lambda>w. w \<noteq> []) (split_slash r)"
    proof (cases r)
      case Nil
      then show ?thesis using pe split_word(1) [OF e47] en by simp
    next
      case (Cons c r')
      then have "c = 47" using hd_dropWhile [of "\<lambda>c. c \<noteq> 47" ?p] by (auto simp: r_def)
      then show ?thesis using pe Cons split_word(2) [OF e47, of r'] en by simp
    qed
    moreover have "elems (dropWhile (\<lambda>c. c = 47) r) nm = map (take DIRSIZ) (filter (\<lambda>w. w \<noteq> []) (split_slash r))"
      using less.hyps [OF skipelem_shorter [OF sk] e0(2) nb(2)] by (simp only: words_skip)
    ultimately show ?thesis using sk nb(1) w by (simp add: elems.simps [of path name])
  qed
qed

section \<open>An example file system\<close>

definition fs_example :: fsys where
  "fs_example = \<lparr>fs_log = log_example, fs_bio = bio_example,
     fs_sb = \<lparr>sb_size = 1000, sb_nblocks = 941, sb_ninodes = 200, sb_nlog = 30, sb_logstart = 2, sb_inodestart = 32, sb_bmapstart = 45\<rparr>,
     fs_icache = [\<lparr>i_dev = ROOTDEV, i_inum = 5, i_ref = 1, i_lock = initsleeplock, i_valid = True, i_type = T_FILE, i_major = 0, i_minor = 0,
                   i_nlink = 1, i_size = 10, i_addrs = 50 # replicate 12 0\<rparr>]\<rparr>"

lemma ex_view: "fview fs_example = (\<lambda>_. replicate BSIZE 0)" "fsize fs_example = 1000"
  by (simp_all add: fs_example_def bio_example_def boot_calm)

lemma ex_fs_ready: "fs_ready fs_example" "fs_room fs_example 2" "in_log (fs_log fs_example) b \<longleftrightarrow> 2 \<le> unat b \<and> unat b < 32"
  using log_example_ready by (simp_all add: fs_ready_def fs_example_def fs_room_def log_example_def NBUF_def LOGSIZE_def in_log_def)

lemma ex_one_block: "k * BSIZE < n \<longleftrightarrow> k = 0" if "0 < n" "n \<le> BSIZE" for k n
  using that by (cases k) auto

lemma ex_file: "file_ok (ino 0 fs_example) (fview fs_example) (fsize fs_example) n" "own_blocks (ino 0 fs_example) (fview fs_example) n = {50}"
    "own_ok (ino 0 fs_example) (fview fs_example) (in_log (fs_log fs_example)) n" if "0 < n" "n \<le> BSIZE"
proof -
  have a: "file_addr (ino 0 fs_example) v 0 = 50" "i_dev (ino 0 fs_example) = ROOTDEV" "i_addrs (ino 0 fs_example) ! NDIRECT = 0" for v
    by (simp_all add: file_addr_def fs_example_def NDIRECT_def)
  show "file_ok (ino 0 fs_example) (fview fs_example) (fsize fs_example) n"
    unfolding file_ok_def ex_one_block [OF that] using a by (simp add: ex_view MAXFILE_def NDIRECT_def)
  show o: "own_blocks (ino 0 fs_example) (fview fs_example) n = {50}" unfolding own_blocks_def ex_one_block [OF that] using a by simp
  show "own_ok (ino 0 fs_example) (fview fs_example) (in_log (fs_log fs_example)) n"
    unfolding own_ok_def ex_one_block [OF that] o using a by (simp add: ex_fs_ready)
qed

theorem readi_ok_witness: "\<exists>s'. readi (\<lambda>_. None) 7 0 4 100 fs_example = Inr ((6, replicate 6 0), s')"
proof -
  have i: "i_size (ino 0 fs_example) = 10" "i_type (ino 0 fs_example) \<noteq> T_DEV" by (simp_all add: fs_example_def T_FILE_def T_DEV_def)
  have "file_byte (ino 0 fs_example) (fview fs_example) = (\<lambda>_. 0)" by (rule ext) (simp add: file_byte_def ex_view BSIZE_def)
  then have "map (file_byte (ino 0 fs_example) (fview fs_example)) [4..<10] = replicate 6 0" by (simp only: map_replicate_const length_upt) simp
  moreover have "(10 :: nat) \<le> BSIZE" by (simp add: BSIZE_def)
  ultimately show ?thesis using readi_ok [OF ex_fs_ready(1) i(2), of 4 100 6 "\<lambda>_. None" 7] ex_file(1) [of 10] i(1) by auto
qed


theorem balloc_ok_witness: "\<exists>s'. balloc 7 ROOTDEV fs_example = Inr (0, s') \<and> map_bit (fview s' 45) 0"
proof -
  have sb: "BBLOCK 0 (fs_sb fs_example) = 45" "sb_bmapstart (fs_sb fs_example) = 45" "sb_size (fs_sb fs_example) = 1000"
    by (simp_all add: fs_example_def BBLOCK_def BPB_def BSIZE_def)
  have "balloc_ready 0 fs_example" using ex_fs_ready sb by (simp add: balloc_ready_def bfree_in_def ex_view map_bit_iff BSIZE_def)
  from balloc_ok [OF this, of 7] show ?thesis by (auto simp: sb BPB_def BSIZE_def)
qed

theorem iupdate_ilock_witness:
  "\<exists>s1 s2. iupdate 7 0 fs_example = Inr s1 \<and> ilock 7 0 (s1\<lparr>fs_icache := (fs_icache s1)[0 := (ino 0 fs_example)\<lparr>i_valid := False, i_size := 0\<rparr>]\<rparr>) = Inr s2 \<and>
     i_size (ino 0 s2) = 10"
proof -
  let ?i = "(ino 0 fs_example)\<lparr>i_valid := False, i_size := 0\<rparr>"
  have i: "0 < length (fs_icache fs_example)" "i_dev (ino 0 fs_example) = ROOTDEV" "i_type (ino 0 fs_example) \<noteq> 0" "length (i_addrs (ino 0 fs_example)) = NDIRECT + 1"
    "IBLOCK (i_inum (ino 0 fs_example)) (fs_sb fs_example) = 32" "1 \<le> i_ref ?i" "\<not> sl_locked (i_lock ?i)" "i_size (ino 0 fs_example) = 10"
    by (simp_all add: fs_example_def T_FILE_def NDIRECT_def IBLOCK_def IPB_def BSIZE_def initsleeplock_def)
  have "fs_room fs_example 1" by (rule fs_room_le [OF ex_fs_ready(2)]) simp
  from iupdate_ilock [OF ex_fs_ready(1) this i(1-4), of ?i 7] i ex_fs_ready(3) show ?thesis by (auto simp: ex_view)
qed

theorem skipelem_elements_witness: "elems [47, 97, 47, 47, 98, 99] (replicate DIRSIZ 0) = [[97], [98, 99]]"
  using skipelem_elements [of "[47, 97, 47, 47, 98, 99]" "replicate DIRSIZ 0"] by (simp add: DIRSIZ_def)

end
