(* ===== verification/Syscall.thy ===== *)
theory Syscall
  imports Memory
begin

text \<open>
  Arguments of system calls (syscall.c).  The memory of the calling process, as its page table
  shows it, is a function from addresses to bytes; sz is the size of the process and esp the
  stack pointer in its trap frame.  The results of -1 are None.
\<close>

definition fetchint :: "mem \<Rightarrow> u32 \<Rightarrow> u32 \<Rightarrow> u32 option" where
  "fetchint u sz addr = (if addr \<ge> sz \<or> addr + 4 > sz then None else Some (load32 u addr))"

text \<open>fetchstr: the pointer and the length of the string.\<close>

definition fetchstr :: "mem \<Rightarrow> u32 \<Rightarrow> u32 \<Rightarrow> (u32 \<times> nat) option" where
  "fetchstr u sz addr =
     (if addr \<ge> sz then None
      else case find (\<lambda>i. u (addr + of_nat i) = 0) [0..<unat (sz - addr)] of
             Some len \<Rightarrow> Some (addr, len)
           | None \<Rightarrow> None)"

definition argint :: "mem \<Rightarrow> u32 \<Rightarrow> u32 \<Rightarrow> nat \<Rightarrow> u32 option" where
  "argint u sz esp n = fetchint u sz (esp + 4 + 4 * of_nat n)"

definition argptr :: "mem \<Rightarrow> u32 \<Rightarrow> u32 \<Rightarrow> nat \<Rightarrow> int \<Rightarrow> u32 option" where
  "argptr u sz esp n nb =
     (case argint u sz esp n of
        None \<Rightarrow> None
      | Some i \<Rightarrow> if nb < 0 \<or> i \<ge> sz \<or> i + word_of_int nb > sz then None else Some i)"

definition argstr :: "mem \<Rightarrow> u32 \<Rightarrow> u32 \<Rightarrow> nat \<Rightarrow> (u32 \<times> nat) option" where
  "argstr u sz esp n = (case argint u sz esp n of None \<Rightarrow> None | Some addr \<Rightarrow> fetchstr u sz addr)"

text \<open>The bytes of a string argument.\<close>

definition ustring :: "mem \<Rightarrow> u32 \<times> nat \<Rightarrow> u8 list" where
  "ustring u = (\<lambda>(p, len). map (\<lambda>i. u (p + of_nat i)) [0..<len])"

section \<open>Arguments lie inside the process\<close>

lemma fetchint_bounds:
  assumes "fetchint u sz addr = Some v" "sz \<le> 0x80000000"
  shows "unat addr + 4 \<le> unat sz"
proof -
  have a: "unat addr < unat sz" "unat (addr + 4) \<le> unat sz" "unat sz \<le> 2147483648"
    using assms by (auto simp: fetchint_def word_le_nat_alt word_less_nat_alt not_le not_less split: if_splits)
  then have "unat (addr + 4) = unat addr + 4" by (simp add: unat_word_ariths)
  with a show ?thesis by simp
qed

lemma argptr_bounds:
  assumes "argptr u sz esp n nb = Some p" "sz \<le> 0x80000000" "nb < 2147483648"
  shows "0 \<le> nb \<and> unat p < unat sz \<and> unat p + nat nb \<le> unat sz"
proof -
  have a: "0 \<le> nb" "unat p < unat sz" "unat (p + word_of_int nb) \<le> unat sz" "unat sz \<le> 2147483648"
    using assms by (auto simp: argptr_def word_le_nat_alt word_less_nat_alt not_le not_less split: option.splits if_splits)
  have "unat (word_of_int nb :: u32) = nat nb" using a(1) assms(3) by (simp add: unat_eq_nat_uint uint_word_of_int)
  then have "unat (p + word_of_int nb) = unat p + nat nb" using a assms(3) by (simp add: unat_word_ariths)
  with a show ?thesis by simp
qed

lemma fetchstr_bounds:
  assumes "fetchstr u sz addr = Some (p, len)"
  shows "p = addr \<and> unat p + len < unat sz \<and> u (p + of_nat len) = 0 \<and> (\<forall>i<len. u (p + of_nat i) \<noteq> 0)"
proof -
  have a: "addr < sz" "p = addr" "find (\<lambda>i. u (addr + of_nat i) = 0) [0..<unat (sz - addr)] = Some len"
    using assms by (auto simp: fetchstr_def not_le split: if_splits option.splits)
  then have "len < unat (sz - addr)" "u (addr + of_nat len) = 0" "\<forall>i<len. u (addr + of_nat i) \<noteq> 0"
    by (auto simp: find_Some_iff)
  moreover have "unat (sz - addr) = unat sz - unat addr" using a(1) by (simp add: unat_sub)
  ultimately show ?thesis using a(1,2) by (auto simp: word_less_nat_alt)
qed

text \<open>
  C15.  What the argument routines accept lies inside the calling process, with no help from luck
  in the 32-bit sums: for a process of at most KERNBASE bytes, an accepted integer argument, an
  accepted buffer of nb bytes, and an accepted string with its NUL are below the size of the
  process, and the string has no earlier NUL.
\<close>

theorem args_in_bounds:
  assumes "sz \<le> 0x80000000" "nb < 2147483648"
  shows "(\<forall>addr v. fetchint u sz addr = Some v \<longrightarrow> unat addr + 4 \<le> unat sz) \<and>
    (\<forall>p. argptr u sz esp n nb = Some p \<longrightarrow> 0 \<le> nb \<and> unat p + nat nb \<le> unat sz) \<and>
    (\<forall>p len. argstr u sz esp n = Some (p, len) \<longrightarrow> unat p + len < unat sz \<and> u (p + of_nat len) = 0 \<and> (\<forall>i<len. u (p + of_nat i) \<noteq> 0))"
  using fetchint_bounds [OF _ assms(1)] argptr_bounds [OF _ assms] fetchstr_bounds
  by (auto simp: argstr_def split: option.splits)

theorem args_in_bounds_witness:
  "fetchint (\<lambda>_. 0) 4096 4092 = Some 0 \<and> unat (4092 :: u32) + 4 \<le> unat (4096 :: u32)"
  using args_in_bounds [of 4096 1 "\<lambda>_. 0" 0 0] by (auto simp: fetchint_def load32_def)

end
