(* ===== verification/Kern.thy ===== *)
theory Kern
  imports Shm Mutex Pqueue Pipe Fs Syscall
begin

text \<open>
  The state of the whole kernel, as the file layer, the system calls and the life of processes
  use it: the process table and its queue, mutexes, shared memory, physical memory, the file
  system, the table of open files, pipes and containers (proc.c, cm.h, file.h).  Pipes are
  indexed by the address of the page that holds them, and are not also bytes of that page.
\<close>

datatype fdtype = FD_NONE | FD_PIPE | FD_INODE

record kfile =
  f_type :: fdtype
  f_ref :: int
  f_readable :: bool
  f_writable :: bool
  f_pipe :: u32
  f_ip :: "nat option"
  f_off :: u32

definition NFILE :: nat where "NFILE = 100"

record container =
  c_container_id :: u32
  c_nproc :: u32
  c_init :: u32
  c_fs :: u32
  c_root :: "nat option"

definition MAX_NUM_CONTAINERS :: nat where "MAX_NUM_CONTAINERS = 4"

record kern =
  k_procs :: "proc list"
  k_queue :: "plist list"
  k_nextpid :: int
  k_initproc :: "nat option"
  k_mux :: "mutex list"
  k_shl :: "shared_mem list"
  k_mem :: kmem
  k_fs :: fsys
  k_files :: "kfile list"
  k_pipes :: "u32 \<Rightarrow> pipe"
  k_cont :: "container list"
  k_nextcid :: int

text \<open>
  What the kernel is linked with: the symbols end and data, the addresses of trapret and
  forkret, the bytes of initcode, and the functions in the device table.
\<close>

record env =
  e_kend :: u32
  e_kdata :: u32
  e_trapret :: u32
  e_forkret :: u32
  e_initcode :: "u8 list"
  e_devr :: "int \<Rightarrow> (u32 \<Rightarrow> (int \<times> u8 list) res) option"
  e_devw :: "int \<Rightarrow> (u8 list \<Rightarrow> int res) option"

abbreviation proc_at :: "nat \<Rightarrow> kern \<Rightarrow> proc" where
  "proc_at c k \<equiv> k_procs k ! c"

definition upd_proc :: "nat \<Rightarrow> (proc \<Rightarrow> proc) \<Rightarrow> kern \<Rightarrow> kern" where
  "upd_proc c f k = k\<lparr>k_procs := (k_procs k)[c := f (k_procs k ! c)]\<rparr>"

definition upd_cont :: "nat \<Rightarrow> (container \<Rightarrow> container) \<Rightarrow> kern \<Rightarrow> kern" where
  "upd_cont c f k = k\<lparr>k_cont := (k_cont k)[c := f (k_cont k ! c)]\<rparr>"

definition upd_file :: "nat \<Rightarrow> (kfile \<Rightarrow> kfile) \<Rightarrow> kern \<Rightarrow> kern" where
  "upd_file i f k = k\<lparr>k_files := (k_files k)[i := f (k_files k ! i)]\<rparr>"

section \<open>Components inside the kernel\<close>

definition on_fs :: "(fsys \<Rightarrow> fsys res) \<Rightarrow> kern \<Rightarrow> kern res" where
  "on_fs g k = bindr (g (k_fs k)) (\<lambda>s. Inr (k\<lparr>k_fs := s\<rparr>))"

definition on_fs_r :: "(fsys \<Rightarrow> ('a \<times> fsys) res) \<Rightarrow> kern \<Rightarrow> ('a \<times> kern) res" where
  "on_fs_r g k = bindr (g (k_fs k)) (\<lambda>(r, s). Inr (r, k\<lparr>k_fs := s\<rparr>))"

definition on_mem :: "(kmem \<Rightarrow> kmem res) \<Rightarrow> kern \<Rightarrow> kern res" where
  "on_mem g k = bindr (g (k_mem k)) (\<lambda>m. Inr (k\<lparr>k_mem := m\<rparr>))"

definition on_mem_r :: "(kmem \<Rightarrow> ('a \<times> kmem) res) \<Rightarrow> kern \<Rightarrow> ('a \<times> kern) res" where
  "on_mem_r g k = bindr (g (k_mem k)) (\<lambda>(r, m). Inr (r, k\<lparr>k_mem := m\<rparr>))"

definition on_shm :: "(shm_state \<Rightarrow> ('a \<times> shm_state) res) \<Rightarrow> kern \<Rightarrow> ('a \<times> kern) res" where
  "on_shm g k = bindr (g \<lparr>sm_procs = k_procs k, sm_list = k_shl k, sm_kmem = k_mem k\<rparr>) (\<lambda>(r, s).
     Inr (r, k\<lparr>k_procs := sm_procs s, k_shl := sm_list s, k_mem := sm_kmem s\<rparr>))"

definition on_mux :: "(mst \<Rightarrow> mst res) \<Rightarrow> kern \<Rightarrow> kern res" where
  "on_mux g k = bindr (g (k_procs k, k_mux k)) (\<lambda>(ps, ms). Inr (k\<lparr>k_procs := ps, k_mux := ms\<rparr>))"

definition on_mux_r :: "(mst \<Rightarrow> ('a \<times> mst) res) \<Rightarrow> kern \<Rightarrow> ('a \<times> kern) res" where
  "on_mux_r g k = bindr (g (k_procs k, k_mux k)) (\<lambda>(r, ps, ms). Inr (r, k\<lparr>k_procs := ps, k_mux := ms\<rparr>))"

definition on_queue :: "(pq \<Rightarrow> pq res) \<Rightarrow> kern \<Rightarrow> kern res" where
  "on_queue g k = bindr (g (k_procs k, k_queue k)) (\<lambda>(ps, bins). Inr (k\<lparr>k_procs := ps, k_queue := bins\<rparr>))"

definition on_queue_r :: "(pq \<Rightarrow> ('a \<times> pq) res) \<Rightarrow> kern \<Rightarrow> ('a \<times> kern) res" where
  "on_queue_r g k = bindr (g (k_procs k, k_queue k)) (\<lambda>(r, ps, bins). Inr (r, k\<lparr>k_procs := ps, k_queue := bins\<rparr>))"

text \<open>A transaction of the log around calls of the file system: begin_op() and end_op().\<close>

definition fs_begin :: "fsys \<Rightarrow> fsys res" where
  "fs_begin s = bindr (begin_op (fs_log s)) (\<lambda>l. Inr (s\<lparr>fs_log := l\<rparr>))"

definition fs_end :: "int \<Rightarrow> fsys \<Rightarrow> fsys res" where
  "fs_end pid s = bindr (end_op pid (fs_log s, fs_bio s)) (\<lambda>(l, bs). Inr (s\<lparr>fs_log := l, fs_bio := bs\<rparr>))"

text \<open>wakeup on the channels of a pipe: the addresses of its counters nread and nwrite.\<close>

definition pipe_chan :: "u32 \<Rightarrow> pchan \<Rightarrow> chan" where
  "pipe_chan a ch = CObj (2 * unat a + (case ch of Chan_nread \<Rightarrow> 0 | Chan_nwrite \<Rightarrow> 1))"

definition pipe_wake :: "u32 \<Rightarrow> pchan list \<Rightarrow> kern \<Rightarrow> kern" where
  "pipe_wake a chs k = k\<lparr>k_procs := fold (\<lambda>ch. wakeup1 (pipe_chan a ch)) chs (k_procs k)\<rparr>"

text \<open>What namex sees of process c.\<close>

definition who_of :: "nat \<Rightarrow> kern \<Rightarrow> who" where
  "who_of c k = (let p = proc_at c k in
     Some (p_container_id p, (case p_container p of None \<Rightarrow> None | Some i \<Rightarrow> c_root (k_cont k ! i)), p_cwd p))"

section \<open>User addresses used by the kernel\<close>

text \<open>
  The kernel runs on the page table of the calling process, so it can read and write at the
  process's own addresses; the processor traps when there is no entry, or none for writing.
\<close>

definition uaddr :: "bool \<Rightarrow> u32 \<Rightarrow> u32 \<Rightarrow> kmem \<Rightarrow> u32 res" where
  "uaddr write d va m =
     (let pte = fst (walkpgdir d va False m) in
      if pte = 0 then Inl (Panic ''trap'')
      else if rd32 m pte AND PTE_P = 0 \<or> write \<and> rd32 m pte AND PTE_W = 0 then Inl (Panic ''trap'')
      else Inr (P2V (PTE_ADDR (rd32 m pte)) + (va AND 0xFFF)))"

fun uwrite :: "u32 \<Rightarrow> u32 \<Rightarrow> u8 list \<Rightarrow> kmem \<Rightarrow> kmem res" where
  "uwrite d va [] m = Inr m"
| "uwrite d va (b # bs) m = bindr (uaddr True d va m) (\<lambda>a. uwrite d (va + 1) bs (m\<lparr>kmem_mem := (kmem_mem m)(a := b)\<rparr>))"

text \<open>A string read at a user address; at most n bytes are looked at.\<close>

fun ureadstr :: "nat \<Rightarrow> u32 \<Rightarrow> u32 \<Rightarrow> kmem \<Rightarrow> u8 list res" where
  "ureadstr 0 d va m = Inl (Panic ''trap'')"
| "ureadstr (Suc n) d va m =
     bindr (uaddr False d va m) (\<lambda>a.
     let b = kmem_mem m a in
     if b = 0 then Inr [] else bindr (ureadstr n d (va + 1) m) (\<lambda>bs. Inr (b # bs)))"

section \<open>Frames\<close>

lemma on_fs_fields:
  "on_fs g k = Inr k' \<Longrightarrow> k' = k\<lparr>k_fs := k_fs k'\<rparr>"
  "on_fs_r h k = Inr (r, k') \<Longrightarrow> k' = k\<lparr>k_fs := k_fs k'\<rparr>"
  by (auto simp: on_fs_def on_fs_r_def bindr_eq_Inr)

lemma on_mem_fields:
  "on_mem g k = Inr k' \<Longrightarrow> k' = k\<lparr>k_mem := k_mem k'\<rparr>"
  "on_mem_r h k = Inr (r, k') \<Longrightarrow> k' = k\<lparr>k_mem := k_mem k'\<rparr>"
  by (auto simp: on_mem_def on_mem_r_def bindr_eq_Inr)

lemma upd_proc_nth: "c < length (k_procs k) \<Longrightarrow> k_procs (upd_proc c f k) ! j = (if j = c then f (k_procs k ! c) else k_procs k ! j)"
  by (simp add: upd_proc_def nth_upd)

lemma upd_fields [simp]:
  "k_files (upd_proc c f k) = k_files k" "k_cont (upd_proc c f k) = k_cont k" "k_fs (upd_proc c f k) = k_fs k"
  "k_mem (upd_proc c f k) = k_mem k" "k_pipes (upd_proc c f k) = k_pipes k"
  "length (k_procs (upd_proc c f k)) = length (k_procs k)"
  "k_procs (upd_file i g k) = k_procs k" "k_cont (upd_file i g k) = k_cont k" "k_fs (upd_file i g k) = k_fs k"
  "k_mem (upd_file i g k) = k_mem k" "k_pipes (upd_file i g k) = k_pipes k"
  "length (k_files (upd_file i g k)) = length (k_files k)"
  "k_procs (upd_cont c h k) = k_procs k" "k_files (upd_cont c h k) = k_files k"
  by (simp_all add: upd_proc_def upd_file_def upd_cont_def)

end
