(* ===== verification/Filetab.thy ===== *)
theory Filetab
  imports Kern
begin

text \<open>
  The table of open files (file.c) and the making of pipes (pipealloc in pipe.c), over the models
  of pipes and of the file system.  A call that goes to sleep ends in Blocked.
\<close>

section \<open>Operations\<close>

definition filealloc :: "kern \<Rightarrow> nat option \<times> kern" where
  "filealloc k =
     (case scan (\<lambda>f. f_ref f = 0) (k_files k) of
        Some i \<Rightarrow> (Some i, upd_file i (\<lambda>f. f\<lparr>f_ref := 1\<rparr>) k)
      | None \<Rightarrow> (None, k))"

definition filedup :: "nat \<Rightarrow> kern \<Rightarrow> kern res" where
  "filedup i k =
     (if f_ref (k_files k ! i) < 1 then Inl (Panic ''filedup'')
      else Inr (upd_file i (\<lambda>f. f\<lparr>f_ref := f_ref f + 1\<rparr>) k))"

text \<open>pipeclose on the pipe at an address: the wakeup, and the page freed when both ends are closed.\<close>

definition close_pipe :: "env \<Rightarrow> u32 \<Rightarrow> bool \<Rightarrow> kern \<Rightarrow> kern res" where
  "close_pipe e a writable k =
     (case pipeclose (k_pipes k a) writable of
        (p, ch, both) \<Rightarrow>
          let k = pipe_wake a [ch] (k\<lparr>k_pipes := (k_pipes k)(a := p)\<rparr>) in
          if both then on_mem (kfree (e_kend e) a) k else Inr k)"

text \<open>begin_op(); iput(ip); end_op();\<close>

definition put_in_op :: "int \<Rightarrow> nat option \<Rightarrow> fsys \<Rightarrow> fsys res" where
  "put_in_op pid ipo s =
     (case ipo of
        None \<Rightarrow> Inl (Undefined ''iput'')
      | Some ip \<Rightarrow> bindr (fs_begin s) (\<lambda>s. bindr (iput pid ip s) (fs_end pid)))"

definition fileclose :: "env \<Rightarrow> int \<Rightarrow> nat \<Rightarrow> kern \<Rightarrow> kern res" where
  "fileclose e pid i k =
     (let ff = k_files k ! i in
      if f_ref ff < 1 then Inl (Panic ''fileclose'')
      else if f_ref ff - 1 > 0 then Inr (upd_file i (\<lambda>f. f\<lparr>f_ref := f_ref f - 1\<rparr>) k)
      else let k = upd_file i (\<lambda>f. f\<lparr>f_ref := 0, f_type := FD_NONE\<rparr>) k in
           case f_type ff of
             FD_PIPE \<Rightarrow> close_pipe e (f_pipe ff) (f_writable ff) k
           | FD_INODE \<Rightarrow> on_fs (put_in_op pid (f_ip ff)) k
           | FD_NONE \<Rightarrow> Inr k)"

definition filestat :: "int \<Rightarrow> nat \<Rightarrow> kern \<Rightarrow> (stat option \<times> kern) res" where
  "filestat pid i k =
     (let f = k_files k ! i in
      if f_type f = FD_INODE
      then case f_ip f of
             None \<Rightarrow> Inl (Undefined ''ilock'')
           | Some ip \<Rightarrow> on_fs_r (\<lambda>s. bindr (ilock pid ip s) (\<lambda>s. bindr (iunlock ip s) (\<lambda>s'. Inr (Some (stati ip s), s')))) k
      else Inr (None, k))"

text \<open>The result of fileread is the value returned and the bytes stored.\<close>

definition fileread :: "env \<Rightarrow> nat \<Rightarrow> nat \<Rightarrow> int \<Rightarrow> kern \<Rightarrow> ((int \<times> u8 list) \<times> kern) res" where
  "fileread e c i n k =
     (let f = k_files k ! i; pid = p_pid (proc_at c k) in
      if \<not> f_readable f then Inr ((-1, []), k)
      else case f_type f of
        FD_PIPE \<Rightarrow>
          (case piperead (p_killed (proc_at c k)) n (k_pipes k (f_pipe f)) of
             (p, out, Sleep, chs) \<Rightarrow> Inl Blocked
           | (p, out, Ret r, chs) \<Rightarrow>
               Inr ((r, out), pipe_wake (f_pipe f) chs (k\<lparr>k_pipes := (k_pipes k)(f_pipe f := p)\<rparr>)))
      | FD_INODE \<Rightarrow>
          (case f_ip f of
             None \<Rightarrow> Inl (Undefined ''ilock'')
           | Some ip \<Rightarrow>
               bindr (on_fs_r (\<lambda>s.
                 bindr (ilock pid ip s) (\<lambda>s.
                 bindr (readi (e_devr e) pid ip (f_off f) (word_of_int n) s) (\<lambda>(r, s).
                 bindr (iunlock ip s) (\<lambda>s. Inr (r, s))))) k) (\<lambda>(r, k).
               Inr (r, if fst r > 0 then upd_file i (\<lambda>f. f\<lparr>f_off := f_off f + word_of_int (fst r)\<rparr>) k else k)))
      | FD_NONE \<Rightarrow> Inl (Panic ''fileread''))"

text \<open>The number of bytes of one transaction of filewrite.\<close>

definition filewrite_max :: nat where
  "filewrite_max = ((LOGSIZE - 1 - 1 - 2) div 2) * 512"

text \<open>
  The loop of filewrite, on the bytes not yet written: the result says whether all of them were
  written.  The test for a short write follows each transaction.
\<close>

definition write_chunk :: "env \<Rightarrow> int \<Rightarrow> nat \<Rightarrow> u8 list \<Rightarrow> u32 \<Rightarrow> u32 \<Rightarrow> fsys \<Rightarrow> (int \<times> fsys) res" where
  "write_chunk e pid ip src off n1 s =
     bindr (fs_begin s) (\<lambda>s.
     bindr (ilock pid ip s) (\<lambda>s.
     bindr (writei (e_devw e) pid ip src off n1 s) (\<lambda>(r, s).
     bindr (iunlock ip s) (\<lambda>s.
     bindr (fs_end pid s) (\<lambda>s. Inr (r, s))))))"

function filewrite_loop :: "env \<Rightarrow> int \<Rightarrow> nat \<Rightarrow> nat \<Rightarrow> u8 list \<Rightarrow> kern \<Rightarrow> (bool \<times> kern) res" where
  "filewrite_loop e pid i ip src k =
     (if src = [] then Inr (True, k)
      else let n1 = min (length src) filewrite_max in
           bindr (on_fs_r (write_chunk e pid ip (take n1 src) (f_off (k_files k ! i)) (of_nat n1)) k) (\<lambda>(r, k).
           let k = (if r > 0 then upd_file i (\<lambda>f. f\<lparr>f_off := f_off f + word_of_int r\<rparr>) k else k) in
           if r < 0 then Inr (False, k)
           else if r \<noteq> int n1 then Inl (Panic ''short filewrite'')
           else filewrite_loop e pid i ip (drop n1 src) k))"
  by auto
termination
  by (relation "measure (\<lambda>(e, pid, i, ip, src, k). length src)") (auto simp: filewrite_max_def LOGSIZE_def)

declare filewrite_loop.simps [simp del]

text \<open>src holds the n bytes at addr; it is empty when n is not positive.\<close>

definition filewrite :: "env \<Rightarrow> nat \<Rightarrow> nat \<Rightarrow> u8 list \<Rightarrow> int \<Rightarrow> kern \<Rightarrow> (int \<times> kern) res" where
  "filewrite e c i src n k =
     (let f = k_files k ! i; pid = p_pid (proc_at c k) in
      if \<not> f_writable f then Inr (-1, k)
      else case f_type f of
        FD_PIPE \<Rightarrow>
          (case pipewrite (p_killed (proc_at c k)) (\<lambda>j. src ! j) n (k_pipes k (f_pipe f)) of
             (p, j, Sleep, chs) \<Rightarrow> Inl Blocked
           | (p, j, Ret r, chs) \<Rightarrow> Inr (r, pipe_wake (f_pipe f) chs (k\<lparr>k_pipes := (k_pipes k)(f_pipe f := p)\<rparr>)))
      | FD_INODE \<Rightarrow>
          (case f_ip f of
             None \<Rightarrow> Inl (Undefined ''ilock'')
           | Some ip \<Rightarrow>
               bindr (filewrite_loop e pid i ip src k) (\<lambda>(all, k). Inr (if all \<and> n \<ge> 0 then n else -1, k)))
      | FD_NONE \<Rightarrow> Inl (Panic ''filewrite''))"

text \<open>
  pipealloc: the two files, or None after the files taken have been closed again.  The page of
  the pipe keeps the bytes it had, its buffer starting after the lock at offset 52.
\<close>

definition close_opt :: "env \<Rightarrow> int \<Rightarrow> nat option \<Rightarrow> kern \<Rightarrow> kern res" where
  "close_opt e pid fo k = (case fo of None \<Rightarrow> Inr k | Some i \<Rightarrow> fileclose e pid i k)"

definition set_pipe_end :: "bool \<Rightarrow> u32 \<Rightarrow> nat \<Rightarrow> kern \<Rightarrow> kern" where
  "set_pipe_end wr a i k = upd_file i (\<lambda>f. f\<lparr>f_type := FD_PIPE, f_readable := \<not> wr, f_writable := wr, f_pipe := a\<rparr>) k"

definition pipealloc_bad :: "env \<Rightarrow> int \<Rightarrow> nat option \<Rightarrow> nat option \<Rightarrow> kern \<Rightarrow> ((nat \<times> nat) option \<times> kern) res" where
  "pipealloc_bad e pid f0 f1 k =
     bindr (close_opt e pid f0 k) (\<lambda>k. bindr (close_opt e pid f1 k) (\<lambda>k. Inr (None, k)))"

definition pipealloc :: "env \<Rightarrow> int \<Rightarrow> kern \<Rightarrow> ((nat \<times> nat) option \<times> kern) res" where
  "pipealloc e pid k =
     (case filealloc k of
        (None, k) \<Rightarrow> pipealloc_bad e pid None None k
      | (Some f0, k) \<Rightarrow>
          (case filealloc k of
             (None, k) \<Rightarrow> pipealloc_bad e pid (Some f0) None k
           | (Some f1, k) \<Rightarrow>
               (case kalloc (k_mem k) of
                  (a, m) \<Rightarrow>
                    let k = k\<lparr>k_mem := m\<rparr> in
                    if a = 0 then pipealloc_bad e pid (Some f0) (Some f1) k
                    else let d = map (\<lambda>j. kmem_mem m (a + 52 + of_nat j)) [0..<PIPESIZE];
                             k = k\<lparr>k_pipes := (k_pipes k)(a := pipe_new d)\<rparr> in
                         Inr (Some (f0, f1), set_pipe_end True a f1 (set_pipe_end False a f0 k)))))"

section \<open>Reference counts\<close>

text \<open>
  The descriptors, over all processes, that refer to file i.  The files are balanced when every
  reference count is that number plus the references held by code that runs.
\<close>

definition fd_count :: "proc list \<Rightarrow> nat \<Rightarrow> nat" where
  "fd_count ps i = sum_list (map (\<lambda>p. count_if (\<lambda>x. x = Some i) (p_ofile p)) ps)"

definition ofile_ok :: "proc list \<Rightarrow> bool" where
  "ofile_ok ps \<longleftrightarrow> (\<forall>p\<in>set ps. length (p_ofile p) = NOFILE \<and> (\<forall>i. Some i \<in> set (p_ofile p) \<longrightarrow> i < NFILE))"

definition file_bal :: "kern \<Rightarrow> (nat \<Rightarrow> int) \<Rightarrow> bool" where
  "file_bal k h \<longleftrightarrow> length (k_files k) = NFILE \<and> ofile_ok (k_procs k) \<and>
     (\<forall>i<NFILE. f_ref (k_files k ! i) = int (fd_count (k_procs k) i) + h i)"

definition file_inv :: "kern \<Rightarrow> bool" where
  "file_inv k \<longleftrightarrow> file_bal k (\<lambda>_. 0)"

definition fd_same :: "kern \<Rightarrow> kern \<Rightarrow> bool" where
  "fd_same k k' \<longleftrightarrow> k_files k' = k_files k \<and> map p_ofile (k_procs k') = map p_ofile (k_procs k)"

lemma fd_same_refl [simp]: "fd_same k k"
  by (simp add: fd_same_def)

lemma fd_same_trans: "fd_same k k' \<Longrightarrow> fd_same k' k'' \<Longrightarrow> fd_same k k''"
  by (simp add: fd_same_def)

lemma fd_count_map: "fd_count ps i = sum_list (map (count_if (\<lambda>x. x = Some i)) (map p_ofile ps))"
  by (simp add: fd_count_def comp_def)

lemma ofile_ok_map: "ofile_ok ps \<longleftrightarrow> (\<forall>xs\<in>set (map p_ofile ps). length xs = NOFILE \<and> (\<forall>i. Some i \<in> set xs \<longrightarrow> i < NFILE))"
  by (simp add: ofile_ok_def)

lemma file_bal_same: "fd_same k k' \<Longrightarrow> file_bal k' h = file_bal k h"
  by (simp add: fd_same_def file_bal_def fd_count_map ofile_ok_map)

lemma fd_same_length: "fd_same k k' \<Longrightarrow> length (k_procs k') = length (k_procs k)"
  unfolding fd_same_def by (metis length_map)

lemma fd_same_ofile: "fd_same k k' \<Longrightarrow> c < length (k_procs k) \<Longrightarrow> p_ofile (proc_at c k') = p_ofile (proc_at c k)"
  using fd_same_length [of k k'] unfolding fd_same_def by (metis nth_map)

lemma fd_same_fs: "on_fs g k = Inr k' \<Longrightarrow> fd_same k k'" "on_fs_r h k = Inr (r, k') \<Longrightarrow> fd_same k k'"
  by (auto simp: fd_same_def on_fs_def on_fs_r_def bindr_eq_Inr)

lemma fd_same_mem: "on_mem g k = Inr k' \<Longrightarrow> fd_same k k'" "on_mem_r h k = Inr (r, k') \<Longrightarrow> fd_same k k'"
  by (auto simp: fd_same_def on_mem_def on_mem_r_def bindr_eq_Inr)

lemma wakeup1_ofile: "map p_ofile (wakeup1 ch ps) = map p_ofile ps"
  by (simp add: wakeup1_def)

lemma fd_same_wake: "fd_same k (pipe_wake a chs k)"
proof -
  have "map p_ofile (fold (\<lambda>ch. wakeup1 (pipe_chan a ch)) chs ps) = map p_ofile ps" for ps
    by (induction chs arbitrary: ps) (simp_all add: wakeup1_ofile)
  then show ?thesis by (simp add: fd_same_def pipe_wake_def)
qed

lemma fd_same_close_pipe: "close_pipe e a w k = Inr k' \<Longrightarrow> fd_same k k'"
proof -
  assume a: "close_pipe e a w k = Inr k'"
  obtain p ch both where p: "pipeclose (k_pipes k a) w = (p, ch, both)" by (cases "pipeclose (k_pipes k a) w") auto
  let ?k = "pipe_wake a [ch] (k\<lparr>k_pipes := (k_pipes k)(a := p)\<rparr>)"
  have "fd_same k ?k" by (rule fd_same_trans [OF _ fd_same_wake]) (simp add: fd_same_def)
  moreover have "fd_same ?k k'" using a p by (auto simp: close_pipe_def Let_def dest: fd_same_mem split: if_splits)
  ultimately show ?thesis by (rule fd_same_trans)
qed

text \<open>What each operation does to the balance.\<close>

lemma file_bal_upd:
  assumes "file_bal k h" "i < NFILE" "f_ref (g (k_files k ! i)) = f_ref (k_files k ! i) + x"
  shows "file_bal (upd_file i g k) (h(i := h i + x))"
  using assms by (auto simp: file_bal_def upd_file_def nth_upd)

lemma file_bal_cong: "(\<And>i. i < NFILE \<Longrightarrow> h i = h' i) \<Longrightarrow> file_bal k h = file_bal k h'"
  by (auto simp: file_bal_def)

lemma filealloc_bal:
  assumes "file_bal k h" "filealloc k = (Some i, k')"
  shows "i < NFILE \<and> file_bal k' (h(i := h i + 1)) \<and> k_procs k' = k_procs k"
proof -
  have s: "scan (\<lambda>f. f_ref f = 0) (k_files k) = Some i" "k' = upd_file i (\<lambda>f. f\<lparr>f_ref := 1\<rparr>) k"
    using assms(2) by (auto simp: filealloc_def split: option.splits)
  then have "i < NFILE" "f_ref (k_files k ! i) = 0" using assms(1) scan_SomeD [OF s(1)] by (auto simp: file_bal_def)
  then show ?thesis unfolding s(2) using file_bal_upd [OF assms(1), of i "\<lambda>f. f\<lparr>f_ref := 1\<rparr>" 1] by simp
qed

lemma filealloc_none: "filealloc k = (None, k') \<Longrightarrow> k' = k"
  by (auto simp: filealloc_def split: option.splits)

lemma filedup_bal: "file_bal k h \<Longrightarrow> i < NFILE \<Longrightarrow> filedup i k = Inr k' \<Longrightarrow> file_bal k' (h(i := h i + 1)) \<and> k_procs k' = k_procs k"
  by (auto simp: filedup_def split: if_splits intro: file_bal_upd)

lemma fileclose_bal:
  assumes "file_bal k h" "i < NFILE" "fileclose e pid i k = Inr k'"
  shows "file_bal k' (h(i := h i - 1)) \<and> map p_ofile (k_procs k') = map p_ofile (k_procs k)"
proof (cases "f_ref (k_files k ! i) = 1")
  case True
  let ?k = "upd_file i (\<lambda>f. f\<lparr>f_ref := 0, f_type := FD_NONE\<rparr>) k"
  have b: "file_bal ?k (h(i := h i - 1))" using file_bal_upd [OF assms(1,2), of "\<lambda>f. f\<lparr>f_ref := 0, f_type := FD_NONE\<rparr>" "-1"] True by simp
  have "fd_same ?k k'" using assms(3) True
    by (auto simp: fileclose_def Let_def dest: fd_same_close_pipe fd_same_fs split: fdtype.splits)
  then show ?thesis using b file_bal_same [of ?k k'] by (simp add: fd_same_def)
next
  case False
  then have "k' = upd_file i (\<lambda>f. f\<lparr>f_ref := f_ref f - 1\<rparr>) k" using assms(3) by (auto simp: fileclose_def Let_def split: if_splits)
  then show ?thesis using file_bal_upd [OF assms(1,2), of "\<lambda>f. f\<lparr>f_ref := f_ref f - 1\<rparr>" "-1"] by simp
qed

lemma fd_count_pos:
  assumes "c < length ps" "Some i \<in> set (p_ofile (ps ! c))"
  shows "0 < fd_count ps i"
proof -
  have "0 < count_if (\<lambda>x. x = Some i) (p_ofile (ps ! c))" using assms(2) by (auto simp: count_if_pos)
  moreover have "count_if (\<lambda>x. x = Some i) (p_ofile (ps ! c)) \<le> fd_count ps i"
    unfolding fd_count_def using assms(1) by (intro member_le_sum_list) auto
  ultimately show ?thesis by linarith
qed

abbreviation inc :: "nat \<Rightarrow> (nat \<Rightarrow> int) \<Rightarrow> nat \<Rightarrow> int" where
  "inc i h \<equiv> h(i := h i + 1)"

lemma const_upd [simp]: "(\<lambda>_. x)(i := x) = (\<lambda>_. x)"
  by auto

lemma fileclose_inc:
  assumes "file_bal k (inc i h)" "i < NFILE" "fileclose e pid i k = Inr k'"
  shows "file_bal k' h \<and> map p_ofile (k_procs k') = map p_ofile (k_procs k)"
  using fileclose_bal [OF assms] by simp

lemma set_pipe_end_bal: "file_bal k h \<Longrightarrow> i < NFILE \<Longrightarrow> file_bal (set_pipe_end wr a i k) h"
  using file_bal_upd [of k h i "\<lambda>f. f\<lparr>f_type := FD_PIPE, f_readable := \<not> wr, f_writable := wr, f_pipe := a\<rparr>" 0]
  by (simp add: set_pipe_end_def)

lemma close_opt_bal:
  assumes "file_bal k (case fo of None \<Rightarrow> h | Some i \<Rightarrow> inc i h)" "\<And>i. fo = Some i \<Longrightarrow> i < NFILE" "close_opt e pid fo k = Inr k'"
  shows "file_bal k' h \<and> map p_ofile (k_procs k') = map p_ofile (k_procs k)"
proof (cases fo)
  case (Some i)
  then show ?thesis using assms fileclose_inc [of k h i e pid k'] by (simp add: close_opt_def)
qed (use assms in \<open>simp add: close_opt_def\<close>)

lemma pipealloc_bad_bal:
  assumes "file_bal k (case f1 of None \<Rightarrow> (case f0 of None \<Rightarrow> h | Some i \<Rightarrow> inc i h)
                         | Some j \<Rightarrow> inc j (case f0 of None \<Rightarrow> h | Some i \<Rightarrow> inc i h))"
    "\<And>i. f0 = Some i \<Longrightarrow> i < NFILE" "\<And>i. f1 = Some i \<Longrightarrow> i < NFILE" "pipealloc_bad e pid f0 f1 k = Inr (r, k')"
  shows "r = None \<and> file_bal k' h \<and> map p_ofile (k_procs k') = map p_ofile (k_procs k)"
proof -
  let ?h1 = "case f1 of None \<Rightarrow> h | Some j \<Rightarrow> inc j h"
  obtain k1 where k1: "close_opt e pid f0 k = Inr k1" "close_opt e pid f1 k1 = Inr k'" "r = None"
    using assms(4) by (auto simp: pipealloc_bad_def bindr_eq_Inr)
  have "(case f1 of None \<Rightarrow> (case f0 of None \<Rightarrow> h | Some i \<Rightarrow> inc i h) | Some j \<Rightarrow> inc j (case f0 of None \<Rightarrow> h | Some i \<Rightarrow> inc i h))
      = (case f0 of None \<Rightarrow> ?h1 | Some i \<Rightarrow> inc i ?h1)" by (auto simp: fun_eq_iff split: option.splits)
  then have "file_bal k (case f0 of None \<Rightarrow> ?h1 | Some i \<Rightarrow> inc i ?h1)" using assms(1) by simp
  then have s: "file_bal k1 ?h1 \<and> map p_ofile (k_procs k1) = map p_ofile (k_procs k)"
    by (rule close_opt_bal [OF _ assms(2) k1(1)])
  then show ?thesis using close_opt_bal [OF conjunct1 [OF s] assms(3) k1(2)] k1(3) by simp
qed

lemma pipealloc_bal:
  assumes b: "file_bal k h" and p: "pipealloc e pid k = Inr (ends, k')"
  shows "map p_ofile (k_procs k') = map p_ofile (k_procs k) \<and>
    (case ends of None \<Rightarrow> file_bal k' h | Some (f0, f1) \<Rightarrow> f0 < NFILE \<and> f1 < NFILE \<and> file_bal k' (inc f1 (inc f0 h)))"
proof (cases "filealloc k")
  case (Pair fo k1)
  show ?thesis
  proof (cases fo)
    case None
    then show ?thesis using p Pair filealloc_none [of k k1] pipealloc_bad_bal [where k = k and ?f1.0 = None and ?f0.0 = None and h = h and e = e and pid = pid and r = ends and k' = k'] b by (auto simp: pipealloc_def)
  next
    case (Some f0)
    then have f0: "f0 < NFILE" "file_bal k1 (inc f0 h)" "k_procs k1 = k_procs k" using filealloc_bal [OF b, of f0 k1] Pair by auto
    obtain go k2 where g: "filealloc k1 = (go, k2)" by (cases "filealloc k1")
    show ?thesis
    proof (cases go)
      case None
      then show ?thesis using p Pair Some g filealloc_none [of k1 k2] pipealloc_bad_bal [where k = k1 and ?f1.0 = None and ?f0.0 = "Some f0" and h = h and e = e and pid = pid and r = ends and k' = k'] f0
        by (auto simp: pipealloc_def)
    next
      case (Some f1)
      then have f1: "f1 < NFILE" "file_bal k2 (inc f1 (inc f0 h))" "k_procs k2 = k_procs k"
        using filealloc_bal [OF f0(2), of f1 k2] g f0(3) by auto
      have same: "fd_same k2 (k2\<lparr>k_mem := m, k_pipes := q\<rparr>)" "fd_same k2 (k2\<lparr>k_mem := m\<rparr>)" for m q by (simp_all add: fd_same_def)
      obtain a m where a: "kalloc (k_mem k2) = (a, m)" by (cases "kalloc (k_mem k2)")
      have red: "pipealloc e pid k = (if a = 0 then pipealloc_bad e pid (Some f0) (Some f1) (k2\<lparr>k_mem := m\<rparr>)
        else Inr (Some (f0, f1), set_pipe_end True a f1 (set_pipe_end False a f0
          (k2\<lparr>k_mem := m, k_pipes := (k_pipes k2)(a := pipe_new (map (\<lambda>j. kmem_mem m (a + 52 + of_nat j)) [0..<PIPESIZE]))\<rparr>))))"
        using Pair \<open>fo = Some f0\<close> g Some a by (simp add: pipealloc_def Let_def)
      show ?thesis
      proof (cases "a = 0")
        case True
        then show ?thesis using p red pipealloc_bad_bal [where k = "k2\<lparr>k_mem := m\<rparr>" and ?f1.0 = "Some f1" and ?f0.0 = "Some f0" and h = h and e = e and pid = pid and r = ends and k' = k'] f0(1) f1
            file_bal_same [OF same(2)] by auto
      next
        case False
        let ?k = "k2\<lparr>k_mem := m, k_pipes := (k_pipes k2)(a := pipe_new (map (\<lambda>j. kmem_mem m (a + 52 + of_nat j)) [0..<PIPESIZE]))\<rparr>"
        have "file_bal ?k (inc f1 (inc f0 h))" using f1(2) file_bal_same [OF same(1)] by blast
        then have "file_bal (set_pipe_end True a f1 (set_pipe_end False a f0 ?k)) (inc f1 (inc f0 h))"
          using f0(1) f1(1) by (intro set_pipe_end_bal)
        moreover have "k_procs (set_pipe_end True a f1 (set_pipe_end False a f0 ?k)) = k_procs k" using f1(3) by (simp add: set_pipe_end_def)
        ultimately show ?thesis using p red False f0(1) f1(1) by (auto split: option.splits)
      qed
    qed
  qed
qed

end
