(* ===== verification/Sysfile.thy ===== *)
theory Sysfile
  imports Filetab
begin

text \<open>
  The system calls on files (sysfile.c) of process c.  A call carries the caller's memory, as its
  page table shows it when the call starts, and the stack pointer of its trap frame.  Buffers of
  names are given with zeros; the code does not initialise them, and only reads what skipelem
  stores.
\<close>

record ucall =
  u_mem :: mem
  u_esp :: u32

definition arg_int :: "ucall \<Rightarrow> nat \<Rightarrow> nat \<Rightarrow> kern \<Rightarrow> u32 option" where
  "arg_int u c n k = argint (u_mem u) (p_sz (proc_at c k)) (u_esp u) n"

definition arg_ptr :: "ucall \<Rightarrow> nat \<Rightarrow> nat \<Rightarrow> int \<Rightarrow> kern \<Rightarrow> u32 option" where
  "arg_ptr u c n nb k = argptr (u_mem u) (p_sz (proc_at c k)) (u_esp u) n nb"

definition arg_str :: "ucall \<Rightarrow> nat \<Rightarrow> nat \<Rightarrow> kern \<Rightarrow> u8 list option" where
  "arg_str u c n k = map_option (ustring (u_mem u)) (argstr (u_mem u) (p_sz (proc_at c k)) (u_esp u) n)"

abbreviation pid_of :: "nat \<Rightarrow> kern \<Rightarrow> int" where
  "pid_of c k \<equiv> p_pid (proc_at c k)"

section \<open>Descriptors\<close>

definition argfd :: "ucall \<Rightarrow> nat \<Rightarrow> nat \<Rightarrow> kern \<Rightarrow> (nat \<times> nat) option" where
  "argfd u c n k =
     (case arg_int u c n k of
        None \<Rightarrow> None
      | Some w \<Rightarrow>
          if sint w < 0 \<or> sint w \<ge> int NOFILE then None
          else case p_ofile (proc_at c k) ! nat (sint w) of
                 None \<Rightarrow> None
               | Some i \<Rightarrow> Some (nat (sint w), i))"

definition set_ofile :: "nat \<Rightarrow> nat \<Rightarrow> nat option \<Rightarrow> kern \<Rightarrow> kern" where
  "set_ofile c fd v k = upd_proc c (\<lambda>p. p\<lparr>p_ofile := (p_ofile p)[fd := v]\<rparr>) k"

definition fdalloc :: "nat \<Rightarrow> nat \<Rightarrow> kern \<Rightarrow> nat option \<times> kern" where
  "fdalloc c i k =
     (case scan (\<lambda>x. x = None) (p_ofile (proc_at c k)) of
        Some fd \<Rightarrow> (Some fd, set_ofile c fd (Some i) k)
      | None \<Rightarrow> (None, k))"

definition sys_dup :: "ucall \<Rightarrow> nat \<Rightarrow> kern \<Rightarrow> (int \<times> kern) res" where
  "sys_dup u c k =
     (case argfd u c 0 k of
        None \<Rightarrow> Inr (-1, k)
      | Some (_, i) \<Rightarrow>
          (case fdalloc c i k of
             (None, k) \<Rightarrow> Inr (-1, k)
           | (Some fd, k) \<Rightarrow> bindr (filedup i k) (\<lambda>k. Inr (int fd, k))))"

definition sys_read :: "env \<Rightarrow> ucall \<Rightarrow> nat \<Rightarrow> kern \<Rightarrow> (int \<times> kern) res" where
  "sys_read e u c k =
     (case argfd u c 0 k of
        None \<Rightarrow> Inr (-1, k)
      | Some (_, i) \<Rightarrow>
          (case arg_int u c 2 k of
             None \<Rightarrow> Inr (-1, k)
           | Some n \<Rightarrow>
               (case arg_ptr u c 1 (sint n) k of
                  None \<Rightarrow> Inr (-1, k)
                | Some p \<Rightarrow>
                    bindr (fileread e c i (sint n) k) (\<lambda>((r, out), k).
                    bindr (on_mem (uwrite (p_pgdir (proc_at c k)) p out) k) (\<lambda>k. Inr (r, k))))))"

definition sys_write :: "env \<Rightarrow> ucall \<Rightarrow> nat \<Rightarrow> kern \<Rightarrow> (int \<times> kern) res" where
  "sys_write e u c k =
     (case argfd u c 0 k of
        None \<Rightarrow> Inr (-1, k)
      | Some (_, i) \<Rightarrow>
          (case arg_int u c 2 k of
             None \<Rightarrow> Inr (-1, k)
           | Some n \<Rightarrow>
               (case arg_ptr u c 1 (sint n) k of
                  None \<Rightarrow> Inr (-1, k)
                | Some p \<Rightarrow> filewrite e c i (ustring (u_mem u) (p, nat (sint n))) (sint n) k)))"

definition sys_close :: "env \<Rightarrow> ucall \<Rightarrow> nat \<Rightarrow> kern \<Rightarrow> (int \<times> kern) res" where
  "sys_close e u c k =
     (case argfd u c 0 k of
        None \<Rightarrow> Inr (-1, k)
      | Some (fd, i) \<Rightarrow> bindr (fileclose e (pid_of c k) i (set_ofile c fd None k)) (\<lambda>k. Inr (0, k)))"

text \<open>The bytes of a struct stat, of 20 bytes with its padding.\<close>

definition bytes16 :: "u16 \<Rightarrow> u8 list" where
  "bytes16 v = [ucast v, ucast (drop_bit 8 v)]"

definition bytes32 :: "u32 \<Rightarrow> u8 list" where
  "bytes32 v = [ucast v, ucast (drop_bit 8 v), ucast (drop_bit 16 v), ucast (drop_bit 24 v)]"

definition put_stat :: "u32 \<Rightarrow> u32 \<Rightarrow> stat \<Rightarrow> kmem \<Rightarrow> kmem res" where
  "put_stat d p st m =
     bindr (uwrite d (p + 4) (bytes32 (st_dev st)) m) (\<lambda>m.
     bindr (uwrite d (p + 8) (bytes32 (st_ino st)) m) (\<lambda>m.
     bindr (uwrite d p (bytes16 (st_type st)) m) (\<lambda>m.
     bindr (uwrite d (p + 12) (bytes16 (st_nlink st)) m) (uwrite d (p + 16) (bytes32 (st_size st))))))"

definition sys_fstat :: "ucall \<Rightarrow> nat \<Rightarrow> kern \<Rightarrow> (int \<times> kern) res" where
  "sys_fstat u c k =
     (case argfd u c 0 k of
        None \<Rightarrow> Inr (-1, k)
      | Some (_, i) \<Rightarrow>
          (case arg_ptr u c 1 20 k of
             None \<Rightarrow> Inr (-1, k)
           | Some p \<Rightarrow>
               bindr (filestat (pid_of c k) i k) (\<lambda>(st, k).
               case st of
                 None \<Rightarrow> Inr (-1, k)
               | Some st \<Rightarrow> bindr (on_mem (put_stat (p_pgdir (proc_at c k)) p st) k) (\<lambda>k. Inr (0, k)))))"

section \<open>Links\<close>

abbreviation no_name :: "u8 list" where
  "no_name \<equiv> replicate DIRSIZ 0"

definition set_nlink :: "(u16 \<Rightarrow> u16) \<Rightarrow> int \<Rightarrow> nat \<Rightarrow> fsys \<Rightarrow> fsys res" where
  "set_nlink f pid ip s = iupdate pid ip (upd_ino ip (\<lambda>i. i\<lparr>i_nlink := f (i_nlink i)\<rparr>) s)"

text \<open>return v after end_op()\<close>

definition fs_return :: "'a \<Rightarrow> int \<Rightarrow> fsys \<Rightarrow> ('a \<times> fsys) res" where
  "fs_return v pid s = bindr (fs_end pid s) (\<lambda>s. Inr (v, s))"

definition link_bad :: "int \<Rightarrow> nat \<Rightarrow> fsys \<Rightarrow> (int \<times> fsys) res" where
  "link_bad pid ip s =
     bindr (ilock pid ip s) (\<lambda>s.
     bindr (set_nlink (\<lambda>n. n - 1) pid ip s) (\<lambda>s.
     bindr (iunlockput pid ip s) (fs_return (-1) pid)))"

text \<open>The second half of sys_link: the entry in the directory of the new name.\<close>

definition link_entry :: "who \<Rightarrow> int \<Rightarrow> nat \<Rightarrow> u8 list \<Rightarrow> fsys \<Rightarrow> (int \<times> fsys) res" where
  "link_entry w pid ip new s =
     bindr (nameiparent w pid new no_name s) (\<lambda>((dpo, name), s).
     case dpo of
       None \<Rightarrow> link_bad pid ip s
     | Some dp \<Rightarrow>
         bindr (ilock pid dp s) (\<lambda>s.
         bindr (if i_dev (ino dp s) \<noteq> i_dev (ino ip s) then Inr (-1, s) else dirlink pid dp name (i_inum (ino ip s)) s) (\<lambda>(r, s).
         bindr (iunlockput pid dp s) (\<lambda>s.
         if r < 0 then link_bad pid ip s
         else bindr (iput pid ip s) (fs_return 0 pid)))))"

definition link_fs :: "who \<Rightarrow> int \<Rightarrow> u8 list \<Rightarrow> u8 list \<Rightarrow> fsys \<Rightarrow> (int \<times> fsys) res" where
  "link_fs w pid old new s =
     bindr (fs_begin s) (\<lambda>s.
     bindr (namei w pid old s) (\<lambda>(ipo, s).
     case ipo of
       None \<Rightarrow> fs_return (-1) pid s
     | Some ip \<Rightarrow>
         bindr (ilock pid ip s) (\<lambda>s.
         if i_type (ino ip s) = T_DIR then bindr (iunlockput pid ip s) (fs_return (-1) pid)
         else bindr (set_nlink (\<lambda>n. n + 1) pid ip s) (\<lambda>s.
              bindr (iunlock ip s) (link_entry w pid ip new)))))"

definition sys_link :: "ucall \<Rightarrow> nat \<Rightarrow> kern \<Rightarrow> (int \<times> kern) res" where
  "sys_link u c k =
     (case (arg_str u c 0 k, arg_str u c 1 k) of
        (Some old, Some new) \<Rightarrow> on_fs_r (link_fs (who_of c k) (pid_of c k) old new) k
      | _ \<Rightarrow> Inr (-1, k))"

fun isdirempty_loop :: "nat list \<Rightarrow> int \<Rightarrow> nat \<Rightarrow> fsys \<Rightarrow> (bool \<times> fsys) res" where
  "isdirempty_loop [] pid dp s = Inr (True, s)"
| "isdirempty_loop (off # offs) pid dp s =
     bindr (read_dirent ''isdirempty: readi'' pid dp off s) (\<lambda>(de, s).
     if de_inum de \<noteq> 0 then Inr (False, s) else isdirempty_loop offs pid dp s)"

definition isdirempty :: "int \<Rightarrow> nat \<Rightarrow> fsys \<Rightarrow> (bool \<times> fsys) res" where
  "isdirempty pid dp s = isdirempty_loop (drop 2 (dir_offs dp s)) pid dp s"

definition unlink_bad :: "int \<Rightarrow> nat \<Rightarrow> fsys \<Rightarrow> (int \<times> fsys) res" where
  "unlink_bad pid dp s = bindr (iunlockput pid dp s) (fs_return (-1) pid)"

text \<open>The end of sys_unlink: the entry at off is cleared and the link counts go down.\<close>

definition unlink_entry :: "int \<Rightarrow> nat \<Rightarrow> nat \<Rightarrow> nat \<Rightarrow> fsys \<Rightarrow> (int \<times> fsys) res" where
  "unlink_entry pid dp ip off s =
     bindr (writei (\<lambda>_. None) pid dp (replicate 16 0) (of_nat off) 16 s) (\<lambda>(r, s).
     if r \<noteq> 16 then Inl (Panic ''unlink: writei'')
     else bindr (if i_type (ino ip s) = T_DIR then set_nlink (\<lambda>n. n - 1) pid dp s else Inr s) (\<lambda>s.
          bindr (iunlockput pid dp s) (\<lambda>s.
          bindr (set_nlink (\<lambda>n. n - 1) pid ip s) (\<lambda>s.
          bindr (iunlockput pid ip s) (fs_return 0 pid)))))"

definition unlink_fs :: "who \<Rightarrow> int \<Rightarrow> u8 list \<Rightarrow> fsys \<Rightarrow> (int \<times> fsys) res" where
  "unlink_fs w pid path s =
     bindr (fs_begin s) (\<lambda>s.
     bindr (nameiparent w pid path no_name s) (\<lambda>((dpo, name), s).
     case dpo of
       None \<Rightarrow> fs_return (-1) pid s
     | Some dp \<Rightarrow>
         bindr (ilock pid dp s) (\<lambda>s.
         bindr (namecmp name [46, 0]) (\<lambda>dot.
         bindr (if dot = 0 then Inr 0 else namecmp name [46, 46, 0]) (\<lambda>dots.
         if dots = 0 then unlink_bad pid dp s
         else bindr (dirlookup pid dp name s) (\<lambda>(found, s).
         case found of
           None \<Rightarrow> unlink_bad pid dp s
         | Some (ip, off) \<Rightarrow>
             bindr (ilock pid ip s) (\<lambda>s.
             if sint (i_nlink (ino ip s)) < 1 then Inl (Panic ''unlink: nlink < 1'')
             else bindr (if i_type (ino ip s) = T_DIR then isdirempty pid ip s else Inr (True, s)) (\<lambda>(gone, s).
                  if \<not> gone then bindr (iunlockput pid ip s) (unlink_bad pid dp)
                  else unlink_entry pid dp ip off s))))))))"

definition sys_unlink :: "ucall \<Rightarrow> nat \<Rightarrow> kern \<Rightarrow> (int \<times> kern) res" where
  "sys_unlink u c k =
     (case arg_str u c 0 k of
        None \<Rightarrow> Inr (-1, k)
      | Some path \<Rightarrow> on_fs_r (unlink_fs (who_of c k) (pid_of c k) path) k)"

section \<open>Creating and opening\<close>

text \<open>The entries of a new directory.\<close>

definition create_dots :: "int \<Rightarrow> nat \<Rightarrow> nat \<Rightarrow> fsys \<Rightarrow> fsys res" where
  "create_dots pid dp ip s =
     bindr (set_nlink (\<lambda>n. n + 1) pid dp s) (\<lambda>s.
     bindr (dirlink pid ip [46, 0] (i_inum (ino ip s)) s) (\<lambda>(r, s).
     if r < 0 then Inl (Panic ''create dots'')
     else bindr (dirlink pid ip [46, 46, 0] (i_inum (ino dp s)) s) (\<lambda>(r, s).
          if r < 0 then Inl (Panic ''create dots'') else Inr s)))"

definition create_new :: "int \<Rightarrow> nat \<Rightarrow> u8 list \<Rightarrow> u16 \<Rightarrow> u16 \<Rightarrow> u16 \<Rightarrow> fsys \<Rightarrow> (nat option \<times> fsys) res" where
  "create_new pid dp name ty major minor s =
     bindr (ialloc pid (i_dev (ino dp s)) ty s) (\<lambda>(ip, s).
     bindr (ilock pid ip s) (\<lambda>s.
     bindr (iupdate pid ip (upd_ino ip (\<lambda>i. i\<lparr>i_major := major, i_minor := minor, i_nlink := 1\<rparr>) s)) (\<lambda>s.
     bindr (if ty = T_DIR then create_dots pid dp ip s else Inr s) (\<lambda>s.
     bindr (dirlink pid dp name (i_inum (ino ip s)) s) (\<lambda>(r, s).
     if r < 0 then Inl (Panic ''create: dirlink'')
     else bindr (iunlockput pid dp s) (\<lambda>s. Inr (Some ip, s)))))))"

definition create :: "who \<Rightarrow> int \<Rightarrow> u8 list \<Rightarrow> u16 \<Rightarrow> u16 \<Rightarrow> u16 \<Rightarrow> fsys \<Rightarrow> (nat option \<times> fsys) res" where
  "create w pid path ty major minor s =
     bindr (nameiparent w pid path no_name s) (\<lambda>((dpo, name), s).
     case dpo of
       None \<Rightarrow> Inr (None, s)
     | Some dp \<Rightarrow>
         bindr (ilock pid dp s) (\<lambda>s.
         bindr (dirlookup pid dp name s) (\<lambda>(found, s).
         case found of
           Some (ip, _) \<Rightarrow>
             bindr (iunlockput pid dp s) (\<lambda>s.
             bindr (ilock pid ip s) (\<lambda>s.
             if ty = T_FILE \<and> i_type (ino ip s) = T_FILE then Inr (Some ip, s)
             else bindr (iunlockput pid ip s) (\<lambda>s. Inr (None, s))))
         | None \<Rightarrow> create_new pid dp name ty major minor s)))"

definition O_RDONLY :: u32 where "O_RDONLY = 0x000"
definition O_WRONLY :: u32 where "O_WRONLY = 0x001"
definition O_RDWR :: u32 where "O_RDWR = 0x002"
definition O_CREATE :: u32 where "O_CREATE = 0x200"

text \<open>The inode to open, locked.\<close>

definition open_inode :: "who \<Rightarrow> int \<Rightarrow> u8 list \<Rightarrow> u32 \<Rightarrow> fsys \<Rightarrow> (nat option \<times> fsys) res" where
  "open_inode w pid path omode s =
     (if omode AND O_CREATE \<noteq> 0 then create w pid path T_FILE 0 0 s
      else bindr (namei w pid path s) (\<lambda>(ipo, s).
           case ipo of
             None \<Rightarrow> Inr (None, s)
           | Some ip \<Rightarrow>
               bindr (ilock pid ip s) (\<lambda>s.
               if i_type (ino ip s) = T_DIR \<and> omode \<noteq> O_RDONLY
               then bindr (iunlockput pid ip s) (\<lambda>s. Inr (None, s))
               else Inr (Some ip, s))))"

definition open_bad :: "env \<Rightarrow> int \<Rightarrow> nat option \<Rightarrow> nat \<Rightarrow> kern \<Rightarrow> (int \<times> kern) res" where
  "open_bad e pid fo ip k =
     bindr (close_opt e pid fo k) (on_fs_r (\<lambda>s. bindr (iunlockput pid ip s) (fs_return (-1) pid)))"

definition set_open :: "nat \<Rightarrow> u32 \<Rightarrow> kfile \<Rightarrow> kfile" where
  "set_open ip omode f = f\<lparr>f_type := FD_INODE, f_ip := Some ip, f_off := 0, f_readable := (omode AND O_WRONLY = 0),
     f_writable := (omode AND O_WRONLY \<noteq> 0 \<or> omode AND O_RDWR \<noteq> 0)\<rparr>"

definition sys_open :: "env \<Rightarrow> ucall \<Rightarrow> nat \<Rightarrow> kern \<Rightarrow> (int \<times> kern) res" where
  "sys_open e u c k =
     (case (arg_str u c 0 k, arg_int u c 1 k) of
        (Some path, Some omode) \<Rightarrow>
          let pid = pid_of c k in
          bindr (on_fs fs_begin k) (\<lambda>k.
          bindr (on_fs_r (open_inode (who_of c k) pid path omode) k) (\<lambda>(ipo, k).
          case ipo of
            None \<Rightarrow> on_fs_r (fs_return (-1) pid) k
          | Some ip \<Rightarrow>
              (case filealloc k of
                 (None, k) \<Rightarrow> open_bad e pid None ip k
               | (Some i, k) \<Rightarrow>
                   (case fdalloc c i k of
                      (None, k) \<Rightarrow> open_bad e pid (Some i) ip k
                    | (Some fd, k) \<Rightarrow>
                        bindr (on_fs (\<lambda>s. bindr (iunlock ip s) (fs_end pid)) k) (\<lambda>k.
                        Inr (int fd, upd_file i (set_open ip omode) k))))))
      | _ \<Rightarrow> Inr (-1, k))"

text \<open>The ends of sys_mkdir and sys_mknod, on the result of create.\<close>

definition created :: "int \<Rightarrow> nat option \<Rightarrow> fsys \<Rightarrow> (int \<times> fsys) res" where
  "created pid ipo s =
     (case ipo of
        None \<Rightarrow> fs_return (-1) pid s
      | Some ip \<Rightarrow> bindr (iunlockput pid ip s) (fs_return 0 pid))"

definition sys_mkdir :: "ucall \<Rightarrow> nat \<Rightarrow> kern \<Rightarrow> (int \<times> kern) res" where
  "sys_mkdir u c k =
     on_fs_r (\<lambda>s.
       bindr (fs_begin s) (\<lambda>s.
       bindr (case arg_str u c 0 k of
                None \<Rightarrow> Inr (None, s)
              | Some path \<Rightarrow> create (who_of c k) (pid_of c k) path T_DIR 0 0 s)
         (\<lambda>(ipo, s). created (pid_of c k) ipo s))) k"

definition sys_mknod :: "ucall \<Rightarrow> nat \<Rightarrow> kern \<Rightarrow> (int \<times> kern) res" where
  "sys_mknod u c k =
     on_fs_r (\<lambda>s.
       bindr (fs_begin s) (\<lambda>s.
       bindr (case (arg_str u c 0 k, arg_int u c 1 k, arg_int u c 2 k) of
                (Some path, Some major, Some minor) \<Rightarrow>
                  create (who_of c k) (pid_of c k) path T_DEV (ucast major) (ucast minor) s
              | _ \<Rightarrow> Inr (None, s))
         (\<lambda>(ipo, s). created (pid_of c k) ipo s))) k"

text \<open>sys_chdir; the replacement of the string .. in a container changes only a local variable.\<close>

definition chdir_fs :: "who \<Rightarrow> int \<Rightarrow> u8 list option \<Rightarrow> nat option \<Rightarrow> fsys \<Rightarrow> (nat option \<times> fsys) res" where
  "chdir_fs w pid patho cwd s =
     bindr (fs_begin s) (\<lambda>s.
     bindr (case patho of None \<Rightarrow> Inr (None, s) | Some path \<Rightarrow> namei w pid path s) (\<lambda>(ipo, s).
     case ipo of
       None \<Rightarrow> fs_return None pid s
     | Some ip \<Rightarrow>
         bindr (ilock pid ip s) (\<lambda>s.
         if i_type (ino ip s) \<noteq> T_DIR then bindr (iunlockput pid ip s) (fs_return None pid)
         else bindr (iunlock ip s) (\<lambda>s.
              bindr (case cwd of None \<Rightarrow> Inl (Undefined ''iput'') | Some d \<Rightarrow> iput pid d s) (fs_return (Some ip) pid)))))"

definition sys_chdir :: "ucall \<Rightarrow> nat \<Rightarrow> kern \<Rightarrow> (int \<times> kern) res" where
  "sys_chdir u c k =
     bindr (on_fs_r (chdir_fs (who_of c k) (pid_of c k) (arg_str u c 0 k) (p_cwd (proc_at c k))) k) (\<lambda>(r, k).
     case r of
       None \<Rightarrow> Inr (-1, k)
     | Some ip \<Rightarrow> Inr (0, upd_proc c (\<lambda>p. p\<lparr>p_cwd := Some ip\<rparr>) k))"

section \<open>Pipes and containers\<close>

definition sys_pipe :: "env \<Rightarrow> ucall \<Rightarrow> nat \<Rightarrow> kern \<Rightarrow> (int \<times> kern) res" where
  "sys_pipe e u c k =
     (let pid = pid_of c k in
      case arg_ptr u c 0 8 k of
        None \<Rightarrow> Inr (-1, k)
      | Some p \<Rightarrow>
          bindr (pipealloc e pid k) (\<lambda>(ends, k).
          case ends of
            None \<Rightarrow> Inr (-1, k)
          | Some (rfile, wfile) \<Rightarrow>
              let bad = (\<lambda>k. bindr (fileclose e pid rfile k) (\<lambda>k. bindr (fileclose e pid wfile k) (\<lambda>k. Inr (-1, k)))) in
              (case fdalloc c rfile k of
                 (None, k) \<Rightarrow> bad k
               | (Some fd0, k) \<Rightarrow>
                   (case fdalloc c wfile k of
                      (None, k) \<Rightarrow> bad (set_ofile c fd0 None k)
                    | (Some fd1, k) \<Rightarrow>
                        bindr (on_mem (uwrite (p_pgdir (proc_at c k)) p (bytes32 (of_nat fd0) @ bytes32 (of_nat fd1))) k) (\<lambda>k.
                        Inr (0, k))))))"

definition sys_copy_file :: "ucall \<Rightarrow> nat \<Rightarrow> kern \<Rightarrow> (int \<times> kern) res" where
  "sys_copy_file u c k =
     (case (arg_str u c 0 k, arg_str u c 1 k) of
        (Some dir, Some file_name) \<Rightarrow>
          on_fs_r (\<lambda>s.
            bindr (fs_begin s) (\<lambda>s.
            bindr (copy_file (who_of c k) (pid_of c k) dir file_name s) (\<lambda>(r, s). fs_return r (pid_of c k) s))) k
      | _ \<Rightarrow> Inr (0, k))"

section \<open>Reference counts of the calls\<close>

lemma in_set_upd: "x \<in> set (xs[i := v]) \<Longrightarrow> x \<in> set xs \<or> x = v"
  by (meson insertE set_update_subset_insert subsetD)

lemma fd_count_set:
  assumes "c < length (k_procs k)" "fd < length (p_ofile (proc_at c k))"
  shows "int (fd_count (k_procs (set_ofile c fd v k)) i) =
    int (fd_count (k_procs k) i) + of_bool (v = Some i) - of_bool (p_ofile (proc_at c k) ! fd = Some i)"
proof -
  let ?n = "\<lambda>p. count_if (\<lambda>x. x = Some i) (p_ofile p)" and ?p = "proc_at c k"
  have "?n (?p\<lparr>p_ofile := (p_ofile ?p)[fd := v]\<rparr>) + of_bool (p_ofile ?p ! fd = Some i) = ?n ?p + of_bool (v = Some i)"
    using count_if_update [OF assms(2), of "\<lambda>x. x = Some i" v] by simp
  moreover have "?n ?p \<le> fd_count (k_procs k) i"
    unfolding fd_count_def using assms(1) by (intro member_le_sum_list) auto
  moreover have "fd_count (k_procs (set_ofile c fd v k)) i =
      fd_count (k_procs k) i + ?n (?p\<lparr>p_ofile := (p_ofile ?p)[fd := v]\<rparr>) - ?n ?p"
    using assms(1) by (simp add: fd_count_def set_ofile_def upd_proc_def map_update sum_list_update)
  ultimately show ?thesis by (cases "v = Some i"; cases "p_ofile (proc_at c k) ! fd = Some i") auto
qed

lemma set_ofile_bal:
  assumes "file_bal k h" "c < length (k_procs k)" "fd < NOFILE" "\<And>i. v = Some i \<Longrightarrow> i < NFILE"
  shows "file_bal (set_ofile c fd v k) (\<lambda>i. h i + of_bool (p_ofile (proc_at c k) ! fd = Some i) - of_bool (v = Some i))"
proof -
  have ok: "ofile_ok (k_procs k)" "length (p_ofile (proc_at c k)) = NOFILE" "k_files (set_ofile c fd v k) = k_files k"
    using assms(1,2) by (auto simp: file_bal_def ofile_ok_def set_ofile_def)
  have "ofile_ok (k_procs (set_ofile c fd v k))"
    unfolding ofile_ok_def
  proof (intro ballI)
    fix p assume "p \<in> set (k_procs (set_ofile c fd v k))"
    then consider "p \<in> set (k_procs k)" | "p = (proc_at c k)\<lparr>p_ofile := (p_ofile (proc_at c k))[fd := v]\<rparr>"
      by (auto simp: set_ofile_def upd_proc_def dest: in_set_upd)
    then show "length (p_ofile p) = NOFILE \<and> (\<forall>i. Some i \<in> set (p_ofile p) \<longrightarrow> i < NFILE)"
    proof cases
      case 2
      have "\<forall>i. Some i \<in> set (p_ofile (proc_at c k)) \<longrightarrow> i < NFILE"
        using ok(1) nth_mem [OF assms(2)] unfolding ofile_ok_def by blast
      then show ?thesis using 2 ok(2) assms(4) by (auto dest!: in_set_upd)
    qed (use ok(1) in \<open>simp add: ofile_ok_def\<close>)
  qed
  then show ?thesis using assms(1) fd_count_set [OF assms(2), of fd v] assms(3) ok by (auto simp: file_bal_def)
qed

lemma fdalloc_bal:
  assumes "file_bal k h" "c < length (k_procs k)" "i < NFILE" "fdalloc c i k = (Some fd, k')"
  shows "fd < NOFILE \<and> p_ofile (proc_at c k) ! fd = None \<and> k' = set_ofile c fd (Some i) k \<and> file_bal k' (h(i := h i - 1))"
proof -
  have s: "scan (\<lambda>x. x = None) (p_ofile (proc_at c k)) = Some fd" "k' = set_ofile c fd (Some i) k"
    using assms(4) by (auto simp: fdalloc_def split: option.splits)
  have "length (p_ofile (proc_at c k)) = NOFILE" using assms(1,2) by (simp add: file_bal_def ofile_ok_def)
  then have fd: "fd < NOFILE" "p_ofile (proc_at c k) ! fd = None" using scan_SomeD [OF s(1)] by auto
  have "file_bal k' (\<lambda>j. h j + of_bool (p_ofile (proc_at c k) ! fd = Some j) - of_bool (Some i = Some j))"
    unfolding s(2) by (rule set_ofile_bal [OF assms(1,2) fd(1)]) (use assms(3) in auto)
  moreover have "(\<lambda>j. h j + of_bool (p_ofile (proc_at c k) ! fd = Some j) - of_bool (Some i = Some j)) = h(i := h i - 1)"
    using fd(2) by (auto simp: fun_eq_iff)
  ultimately show ?thesis using fd s(2) by simp
qed

lemma fdalloc_inc:
  assumes "file_bal k (inc i h)" "c < length (k_procs k)" "i < NFILE" "fdalloc c i k = (Some fd, k')"
  shows "fd < NOFILE \<and> k' = set_ofile c fd (Some i) k \<and> file_bal k' h"
  using fdalloc_bal [OF assms] by auto

lemma fdalloc_none: "fdalloc c i k = (None, k') \<Longrightarrow> k' = k"
  by (auto simp: fdalloc_def split: option.splits)

lemma clear_ofile_bal:
  assumes "file_bal k h" "c < length (k_procs k)" "fd < NOFILE" "p_ofile (proc_at c k) ! fd = Some i"
  shows "file_bal (set_ofile c fd None k) (h(i := h i + 1))"
proof -
  have "(\<lambda>j. h j + of_bool (p_ofile (proc_at c k) ! fd = Some j) - of_bool (None = Some j)) = h(i := h i + 1)"
    using assms(4) by (auto simp: fun_eq_iff)
  then show ?thesis using set_ofile_bal [OF assms(1-3), of None] by simp
qed

lemma argfd_some:
  assumes "file_bal k h" "c < length (k_procs k)" "argfd u c n k = Some (fd, i)"
  shows "fd < NOFILE \<and> p_ofile (proc_at c k) ! fd = Some i \<and> i < NFILE \<and> Some i \<in> set (p_ofile (proc_at c k))"
proof -
  have a: "fd < NOFILE" "p_ofile (proc_at c k) ! fd = Some i"
    using assms(3) by (auto simp: argfd_def split: option.splits if_splits)
  have l: "length (p_ofile (proc_at c k)) = NOFILE" "\<forall>i. Some i \<in> set (p_ofile (proc_at c k)) \<longrightarrow> i < NFILE"
    using assms(1,2) nth_mem [OF assms(2)] unfolding file_bal_def ofile_ok_def by blast+
  then have "Some i \<in> set (p_ofile (proc_at c k))" using a nth_mem by metis
  then show ?thesis using a l by blast
qed

lemma sys_dup_bal:
  assumes "file_inv k" "c < length (k_procs k)"
  shows "\<exists>r k'. sys_dup u c k = Inr (r, k') \<and> file_inv k'"
proof (cases "argfd u c 0 k")
  case None
  then show ?thesis using assms(1) by (auto simp: sys_dup_def)
next
  case (Some f)
  obtain fd0 i where f: "f = (fd0, i)" by (cases f)
  have b: "file_bal k (\<lambda>_. 0)" using assms(1) by (simp add: file_inv_def)
  have i: "i < NFILE" "Some i \<in> set (p_ofile (proc_at c k))" using argfd_some [OF b assms(2), of u 0 fd0 i] Some f by auto
  show ?thesis
  proof (cases "fdalloc c i k")
    case (Pair fdo k1)
    show ?thesis
    proof (cases fdo)
      case None
      then show ?thesis using assms(1) Some f Pair fdalloc_none [of c i k k1] by (auto simp: sys_dup_def)
    next
      case (Some fd)
      have k1: "k1 = set_ofile c fd (Some i) k" "file_bal k1 ((\<lambda>_. 0)(i := -1))"
        using fdalloc_bal [OF b assms(2) i(1)] Pair Some by auto
      have "1 \<le> f_ref (k_files k ! i)" using b i fd_count_pos [OF assms(2) i(2)] by (simp add: file_bal_def)
      then obtain k2 where k2: "filedup i k1 = Inr k2" using k1(1) by (auto simp: filedup_def set_ofile_def)
      then have "file_bal k2 (\<lambda>_. 0)" using filedup_bal [OF k1(2) i(1) k2] by (simp add: fun_upd_def cong: if_cong)
      then show ?thesis using \<open>argfd u c 0 k = _\<close> f Pair Some k2 by (auto simp: sys_dup_def file_inv_def)
    qed
  qed
qed

lemma sys_close_bal:
  assumes "file_inv k" "c < length (k_procs k)" "sys_close e u c k = Inr (r, k')"
  shows "file_inv k'"
proof (cases "argfd u c 0 k")
  case None
  then show ?thesis using assms by (auto simp: sys_close_def)
next
  case (Some f)
  obtain fd i where f: "f = (fd, i)" by (cases f)
  have b: "file_bal k (\<lambda>_. 0)" using assms(1) by (simp add: file_inv_def)
  have i: "fd < NOFILE" "p_ofile (proc_at c k) ! fd = Some i" "i < NFILE" using argfd_some [OF b assms(2), of u 0 fd i] Some f by auto
  have c: "file_bal (set_ofile c fd None k) ((\<lambda>_. 0)(i := 0 + 1))" by (rule clear_ofile_bal [OF b assms(2) i(1,2)])
  have "fileclose e (pid_of c k) i (set_ofile c fd None k) = Inr k'" using assms(3) Some f by (auto simp: sys_close_def bindr_eq_Inr)
  then show ?thesis using fileclose_inc [OF c i(3)] by (simp add: file_inv_def)
qed

lemma sys_open_bal:
  assumes "file_inv k" "c < length (k_procs k)" "sys_open e u c k = Inr (r, k')"
  shows "file_inv k'"
proof (cases "arg_str u c 0 k = None \<or> arg_int u c 1 k = None")
  case True
  then show ?thesis using assms by (auto simp: sys_open_def split: option.splits)
next
  case False
  then obtain path omode where args: "arg_str u c 0 k = Some path" "arg_int u c 1 k = Some omode" by auto
  let ?pid = "pid_of c k"
  obtain k1 ipo k2 where k: "on_fs fs_begin k = Inr k1" "on_fs_r (open_inode (who_of c k1) ?pid path omode) k1 = Inr (ipo, k2)"
    using assms(3) args by (auto simp: sys_open_def Let_def bindr_eq_Inr)
  have same: "fd_same k k2" using fd_same_trans [OF fd_same_fs(1) [OF k(1)] fd_same_fs(2) [OF k(2)]] .
  have b: "file_bal k2 (\<lambda>_. 0)" "c < length (k_procs k2)"
    using assms(1,2) file_bal_same [OF same] fd_same_length [OF same] by (simp_all add: file_inv_def)
  have fs: "on_fs_r g k2' = Inr (r, k') \<Longrightarrow> file_bal k2' (\<lambda>_. 0) \<Longrightarrow> file_inv k'" for g k2'
    using file_bal_same [OF fd_same_fs(2)] by (fastforce simp: file_inv_def)
  show ?thesis
  proof (cases ipo)
    case None
    then show ?thesis using assms(3) args k fs b(1) by (auto simp: sys_open_def Let_def)
  next
    case (Some ip)
    obtain io k3 where io: "filealloc k2 = (io, k3)" by (cases "filealloc k2")
    show ?thesis
    proof (cases io)
      case None
      then have "k3 = k2" "open_bad e ?pid None ip k2 = Inr (r, k')"
        using assms(3) args k Some io filealloc_none [of k2 k3] by (auto simp: sys_open_def Let_def)
      then show ?thesis using fs b(1) by (auto simp: open_bad_def close_opt_def)
    next
      case (Some i)
      then have i: "i < NFILE" "file_bal k3 (inc i (\<lambda>_. 0))" "k_procs k3 = k_procs k2" using filealloc_bal [OF b(1), of i k3] io by auto
      obtain fdo k4 where fd: "fdalloc c i k3 = (fdo, k4)" by (cases "fdalloc c i k3")
      have c3: "c < length (k_procs k3)" using b(2) i(3) by simp
      show ?thesis
      proof (cases fdo)
        case None
        then have "k4 = k3" "open_bad e ?pid (Some i) ip k4 = Inr (r, k')"
          using assms(3) args k \<open>ipo = _\<close> io Some fd fdalloc_none [of c i k3 k4] by (auto simp: sys_open_def Let_def)
        then obtain k5 g where "fileclose e ?pid i k3 = Inr k5" "on_fs_r g k5 = Inr (r, k')" by (auto simp: open_bad_def close_opt_def bindr_eq_Inr)
        then show ?thesis using fs fileclose_inc [OF i(2,1)] by blast
      next
        case (Some fd0)
        then have b4: "file_bal k4 (\<lambda>_. 0)" using fdalloc_inc [OF i(2) c3 i(1), of fd0 k4] fd by auto
        obtain k5 where k5: "on_fs (\<lambda>s. bindr (iunlock ip s) (fs_end ?pid)) k4 = Inr k5" "k' = upd_file i (set_open ip omode) k5"
          using assms(3) args k \<open>ipo = _\<close> io \<open>io = _\<close> fd Some by (auto simp: sys_open_def Let_def bindr_eq_Inr)
        then have "file_bal k5 (\<lambda>_. 0)" using b4 file_bal_same [OF fd_same_fs(1)] by blast
        then show ?thesis using file_bal_upd [of k5 "\<lambda>_. 0" i "set_open ip omode" 0] i(1) k5(2) by (simp add: file_inv_def set_open_def)
      qed
    qed
  qed
qed

lemma sys_pipe_bal:
  assumes "file_inv k" "c < length (k_procs k)" "sys_pipe e u c k = Inr (r, k')"
  shows "file_inv k'"
proof (cases "arg_ptr u c 0 8 k")
  case None
  then show ?thesis using assms by (auto simp: sys_pipe_def)
next
  case (Some p)
  let ?pid = "pid_of c k"
  have b: "file_bal k (\<lambda>_. 0)" using assms(1) by (simp add: file_inv_def)
  obtain ends k1 where k1: "pipealloc e ?pid k = Inr (ends, k1)" using assms(3) Some by (auto simp: sys_pipe_def Let_def bindr_eq_Inr)
  note al = pipealloc_bal [OF b k1]
  have c1: "c < length (k_procs k1)" using assms(2) al by (metis length_map)
  show ?thesis
  proof (cases ends)
    case None
    then show ?thesis using al k1 Some assms(3) by (simp add: sys_pipe_def Let_def file_inv_def)
  next
    case (Some fs)
    obtain f0 f1 where fs: "fs = (f0, f1)" by (cases fs)
    have f: "f0 < NFILE" "f1 < NFILE" "file_bal k1 (inc f0 (inc f1 (\<lambda>_. 0)))"
      using al Some fs fun_upd_twist [of f1 f0] by (auto simp: fun_eq_iff file_bal_def split: if_splits)
    have bad: "fileclose e ?pid f0 k2 = Inr k3 \<Longrightarrow> fileclose e ?pid f1 k3 = Inr k' \<Longrightarrow> file_bal k2 (inc f0 (inc f1 (\<lambda>_. 0))) \<Longrightarrow> file_inv k'" for k2 k3
      using fileclose_inc [OF _ f(1)] fileclose_inc [OF _ f(2)] unfolding file_inv_def by blast
    obtain fdo k2 where d0: "fdalloc c f0 k1 = (fdo, k2)" by (cases "fdalloc c f0 k1")
    show ?thesis
    proof (cases fdo)
      case None
      then show ?thesis using assms(3) \<open>arg_ptr u c 0 8 k = _\<close> k1 Some fs d0 fdalloc_none [of c f0 k1 k2] bad f(3)
        by (auto simp: sys_pipe_def Let_def bindr_eq_Inr)
    next
      case (Some fd0)
      then have k2: "fd0 < NOFILE" "k2 = set_ofile c fd0 (Some f0) k1" "file_bal k2 (inc f1 (\<lambda>_. 0))"
        using fdalloc_inc [OF f(3) c1 f(1), of fd0 k2] d0 by auto
      then have c2: "c < length (k_procs k2)" using c1 by (simp add: set_ofile_def)
      obtain fdo' k3 where d1: "fdalloc c f1 k2 = (fdo', k3)" by (cases "fdalloc c f1 k2")
      show ?thesis
      proof (cases fdo')
        case None
        have "length (p_ofile (proc_at c k1)) = NOFILE" using f(3) c1 by (simp add: file_bal_def ofile_ok_def)
        then have "p_ofile (proc_at c k2) ! fd0 = Some f0" using k2(1,2) c1 by (simp add: set_ofile_def upd_proc_def)
        then have "file_bal (set_ofile c fd0 None k2) (inc f0 (inc f1 (\<lambda>_. 0)))" using clear_ofile_bal [OF k2(3) c2 k2(1)] by simp
        then show ?thesis using assms(3) \<open>arg_ptr u c 0 8 k = _\<close> k1 \<open>ends = _\<close> fs d0 Some d1 None fdalloc_none [of c f1 k2 k3] bad
          by (auto simp: sys_pipe_def Let_def bindr_eq_Inr)
      next
        case (Some fd1)
        then have "file_bal k3 (\<lambda>_. 0)" using fdalloc_inc [OF k2(3) c2 f(2), of fd1 k3] d1 by auto
        then show ?thesis using assms(3) \<open>arg_ptr u c 0 8 k = _\<close> k1 \<open>ends = _\<close> fs d0 \<open>fdo = _\<close> d1 Some file_bal_same [OF fd_same_mem(1)]
          by (fastforce simp: sys_pipe_def Let_def bindr_eq_Inr file_inv_def)
      qed
    qed
  qed
qed

text \<open>A small system: no file open, and a file system with one inode in memory.\<close>

definition run_files :: "kfile list" where
  "run_files = replicate NFILE \<lparr>f_type = FD_NONE, f_ref = 0, f_readable = False, f_writable = False, f_pipe = 0, f_ip = None, f_off = 0\<rparr>"

definition run_fs :: fsys where
  "run_fs = \<lparr>fs_log = log_example, fs_bio = bio_example,
     fs_sb = \<lparr>sb_size = 0, sb_nblocks = 0, sb_ninodes = 0, sb_nlog = 0, sb_logstart = 0, sb_inodestart = 0, sb_bmapstart = 0\<rparr>,
     fs_icache = [\<lparr>i_dev = 1, i_inum = 1, i_ref = 2, i_lock = initsleeplock, i_valid = False, i_type = 0, i_major = 0, i_minor = 0,
       i_nlink = 0, i_size = 0, i_addrs = []\<rparr>]\<rparr>"

text \<open>A process with one open file, in its descriptor 0.\<close>

definition fd_example :: kern where
  "fd_example = \<lparr>k_procs = [zero_proc\<lparr>p_state := RUNNING, p_sz := 4096, p_ofile := (replicate NOFILE None)[0 := Some 0]\<rparr>],
     k_queue = [], k_nextpid = 2, k_initproc = Some 0, k_mux = [], k_shl = [], k_mem = \<lparr>kmem_mem = (\<lambda>_. 0), use_lock = True, freelist = 0\<rparr>,
     k_fs = run_fs, k_files = run_files[0 := (run_files ! 0)\<lparr>f_ref := 1\<rparr>], k_pipes = (\<lambda>_. pipe_new []), k_cont = [], k_nextcid = 1\<rparr>"

lemma fd_example_inv: "file_inv fd_example"
proof -
  have "fd_count (k_procs fd_example) i = of_bool (i = 0)" for i
    using count_if_update [of 0 "replicate NOFILE None" "\<lambda>x. x = Some i" "Some 0"]
    by (simp add: fd_count_def fd_example_def count_if_def NOFILE_def)
  moreover have "ofile_ok (k_procs fd_example)"
    by (auto simp: ofile_ok_def fd_example_def NFILE_def NOFILE_def dest: in_set_upd)
  moreover have "length (k_files fd_example) = NFILE" "\<And>i. i < NFILE \<Longrightarrow> f_ref (k_files fd_example ! i) = of_bool (i = 0)"
    by (auto simp: fd_example_def run_files_def nth_upd)
  ultimately show ?thesis by (simp add: file_inv_def file_bal_def)
qed

text \<open>
  C12.  The system calls that make and drop descriptors keep the reference counts of the open files:
  when every count is the number of descriptors, over all processes, that refer to the file, it
  is so after sys_dup, which never panics, and after sys_close, sys_open and sys_pipe, on their
  error paths too.
\<close>

theorem file_refs_kept:
  assumes "file_inv k" "c < length (k_procs k)"
  shows "(\<exists>r k'. sys_dup u c k = Inr (r, k') \<and> file_inv k') \<and> (\<forall>r k'. sys_close e u c k = Inr (r, k') \<longrightarrow> file_inv k') \<and>
    (\<forall>r k'. sys_open e u c k = Inr (r, k') \<longrightarrow> file_inv k') \<and> (\<forall>r k'. sys_pipe e u c k = Inr (r, k') \<longrightarrow> file_inv k')"
  using sys_dup_bal [OF assms] sys_close_bal [OF assms] sys_open_bal [OF assms] sys_pipe_bal [OF assms] by blast

theorem file_refs_kept_witness:
  "\<exists>k'. sys_dup \<lparr>u_mem = (\<lambda>_. 0), u_esp = 0\<rparr> 0 fd_example = Inr (1, k') \<and> f_ref (k_files k' ! 0) = 2 \<and> file_inv k'"
proof -
  have c: "0 < length (k_procs fd_example)" by (simp add: fd_example_def)
  have a: "argfd \<lparr>u_mem = (\<lambda>_. 0), u_esp = 0\<rparr> 0 0 fd_example = Some (0, 0)"
    by (simp add: argfd_def arg_int_def argint_def fetchint_def load32_def fd_example_def NOFILE_def)
  have o: "p_ofile (proc_at 0 fd_example) = (replicate NOFILE None)[0 := Some 0]" "f_ref (k_files fd_example ! 0) = 1"
    by (simp_all add: fd_example_def run_files_def NFILE_def)
  have f: "fdalloc 0 0 fd_example = (Some 1, set_ofile 0 1 (Some 0) fd_example)"
  proof -
    have "scan (\<lambda>x. x = None) (p_ofile (proc_at 0 fd_example)) = Some 1" unfolding o(1) scan_Some by (simp add: NOFILE_def)
    then show ?thesis by (simp add: fdalloc_def)
  qed
  have "\<exists>k'. sys_dup \<lparr>u_mem = (\<lambda>_. 0), u_esp = 0\<rparr> 0 fd_example = Inr (1, k') \<and> f_ref (k_files k' ! 0) = 2"
    using a f o(2) fd_example_inv by (simp add: sys_dup_def filedup_def set_ofile_def upd_file_def file_inv_def file_bal_def NFILE_def)
  then show ?thesis using file_refs_kept [OF fd_example_inv c, of "\<lparr>u_mem = (\<lambda>_. 0), u_esp = 0\<rparr>"] by auto
qed

end
