(* ===== verification/Lifecycle.thy ===== *)
theory Lifecycle
  imports Sysfile
begin

text \<open>
  The life of processes and containers (proc.c, cm.h, sysproc.c): cinit, allocproc, userinit,
  growproc, fork, exit, wait and the container manager's calls, on the state of the whole kernel.
  c is the index of the calling process.
\<close>

section \<open>Making processes\<close>

definition cinit :: "container list \<Rightarrow> container list" where
  "cinit cs = map (\<lambda>c. c\<lparr>c_container_id := -1, c_nproc := -1\<rparr>) cs"

definition KSTACKSIZE :: u32 where "KSTACKSIZE = 4096"

text \<open>
  Offsets in struct trapframe, of 76 bytes, and struct context, of 20 bytes: eax is at 28, es at 40,
  ds at 44, eip at 56, cs at 60, eflags at 64, esp at 68 and ss at 72; the context's eip at 16.
\<close>

definition on_mem_pure :: "(kmem \<Rightarrow> kmem) \<Rightarrow> kern \<Rightarrow> kern" where
  "on_mem_pure g k = k\<lparr>k_mem := g (k_mem k)\<rparr>"

definition init_stack :: "env \<Rightarrow> u32 \<Rightarrow> kmem \<Rightarrow> kmem" where
  "init_stack e kstack m =
     (let tf = kstack + KSTACKSIZE - 76; ctx = tf - 24; m = wr32 (tf - 4) (e_trapret e) m;
          m = m\<lparr>kmem_mem := memset (kmem_mem m) ctx 0 20\<rparr> in
      wr32 (ctx + 16) (e_forkret e) m)"

text \<open>The part of allocproc under ptable.lock, once an unused slot i is found.\<close>

definition claim_slot :: "nat \<Rightarrow> u32 \<Rightarrow> kern \<Rightarrow> kern res" where
  "claim_slot i priority k =
     bindr (on_queue (pqueue_enqueue (Some i) priority)
       ((upd_proc i (\<lambda>p. p\<lparr>p_state := EMBRYO, p_pid := k_nextpid k\<rparr>) k)\<lparr>k_nextpid := k_nextpid k + 1\<rparr>)) (\<lambda>k.
     Inr (upd_proc i (\<lambda>p. p\<lparr>p_container_id := 0, p_shm := map (\<lambda>h. h\<lparr>sh_in_use := False\<rparr>) (p_shm p),
                             p_mutex := replicate MUX_MAXNUM None\<rparr>) k))"

definition allocproc :: "env \<Rightarrow> u32 \<Rightarrow> kern \<Rightarrow> (nat option \<times> kern) res" where
  "allocproc e priority k =
     (case scan (\<lambda>p. p_state p = UNUSED) (k_procs k) of
        None \<Rightarrow> Inr (None, k)
      | Some i \<Rightarrow>
          bindr (claim_slot i priority k) (\<lambda>k.
          case kalloc (k_mem k) of
            (st, m) \<Rightarrow>
              let k = upd_proc i (\<lambda>p. p\<lparr>p_kstack := st\<rparr>) (k\<lparr>k_mem := m\<rparr>) in
              if st = 0 then Inr (None, upd_proc i (\<lambda>p. p\<lparr>p_state := UNUSED\<rparr>) k)
              else Inr (Some i, upd_proc i (\<lambda>p. p\<lparr>p_tf := st + KSTACKSIZE - 76, p_context := st + KSTACKSIZE - 100\<rparr>)
                                  (on_mem_pure (init_stack e st) k))))"

text \<open>The trap frame of the first process; the halves next to the segment registers are zero.\<close>

definition init_frame :: "u32 \<Rightarrow> kmem \<Rightarrow> kmem" where
  "init_frame tf m =
     wr32 (tf + 56) 0 (wr32 (tf + 68) PGSIZE (wr32 (tf + 64) 0x200 (wr32 (tf + 72) 0x23 (wr32 (tf + 40) 0x23 (wr32 (tf + 44) 0x23
       (wr32 (tf + 60) 0x1B (m\<lparr>kmem_mem := memset (kmem_mem m) tf 0 76\<rparr>)))))))"

definition userinit :: "env \<Rightarrow> kern \<Rightarrow> kern res" where
  "userinit e k =
     bindr (allocproc e 0 k) (\<lambda>(po, k).
     let k = k\<lparr>k_initproc := po\<rparr> in
     case po of
       None \<Rightarrow> Inl (Undefined ''userinit: no process'')
     | Some i \<Rightarrow>
         bindr (on_mem_r (setupkvm (e_kdata e) (e_kend e) [] (k_shl k)) k) (\<lambda>(d, k).
         if d = 0 then Inl (Panic ''userinit: out of memory?'')
         else bindr (on_mem (inituvm d (e_initcode e)) k) (\<lambda>k.
              let k = on_mem_pure (init_frame (p_tf (proc_at i k))) (upd_proc i (\<lambda>p. p\<lparr>p_pgdir := d, p_sz := PGSIZE\<rparr>) k) in
              bindr (safestrcpy_arr (p_name (proc_at i k)) (bytes_of ''initcode'' @ [0]) 16) (\<lambda>nm.
              bindr (on_fs_r (namei None 0 [47]) k) (\<lambda>(cwd, k).
              Inr (upd_proc i (\<lambda>p. p\<lparr>p_name := nm, p_cwd := cwd, p_container_id := 0, p_state := RUNNABLE\<rparr>) k))))))"

text \<open>The checks of switchuvm; the rest of it loads registers of the processor.\<close>

definition switchuvm :: "proc \<Rightarrow> unit res" where
  "switchuvm p =
     (if p_kstack p = 0 then Inl (Panic ''switchuvm: no kstack'')
      else if p_pgdir p = 0 then Inl (Panic ''switchuvm: no pgdir'') else Inr ())"

definition growproc :: "env \<Rightarrow> nat \<Rightarrow> int \<Rightarrow> kern \<Rightarrow> (int \<times> kern) res" where
  "growproc e c n k =
     (let p = proc_at c k; sz = p_sz p in
      bindr (if n > 0 then on_mem_r (allocuvm (e_kend e) (p_pgdir p) sz (sz + word_of_int n)) k
             else if n < 0 then on_mem_r (deallocuvm (e_kend e) (p_pgdir p) sz (sz + word_of_int n)) k
             else Inr (sz, k)) (\<lambda>(sz', k).
      if n \<noteq> 0 \<and> sz' = 0 then Inr (-1, k)
      else let k = upd_proc c (\<lambda>p. p\<lparr>p_sz := sz'\<rparr>) k in
           bindr (switchuvm (proc_at c k)) (\<lambda>_. Inr (0, k))))"

section \<open>fork\<close>

text \<open>
  The limit of the container, in the first lines of fork: the test, and the place taken when it
  succeeds.  No lock is held, so that other processes can run between the two; False is the
  result when the limit is reached.
\<close>

definition fork_test :: "nat \<Rightarrow> kern \<Rightarrow> bool res" where
  "fork_test c k =
     (case p_container (proc_at c k) of
        None \<Rightarrow> Inl (Undefined ''container'')
      | Some i \<Rightarrow> Inr (c_nproc (k_cont k ! i) \<noteq> 0))"

definition fork_take :: "nat \<Rightarrow> kern \<Rightarrow> kern" where
  "fork_take c k =
     (case p_container (proc_at c k) of
        None \<Rightarrow> k
      | Some i \<Rightarrow> upd_cont i (\<lambda>x. x\<lparr>c_nproc := c_nproc x - 1\<rparr>) k)"

definition fork_reserve :: "nat \<Rightarrow> kern \<Rightarrow> (bool \<times> kern) res" where
  "fork_reserve c k =
     (if p_container_id (proc_at c k) \<noteq> 0
      then bindr (fork_test c k) (\<lambda>ok. if ok then Inr (True, fork_take c k) else Inr (False, k))
      else Inr (True, k))"

text \<open>
  global_ptr->refcount++: with a null pointer the kernel increments the word at address 20, the
  offset of refcount, of the memory of the caller.
\<close>

definition bump_refcount :: "nat \<Rightarrow> nat option \<Rightarrow> kern \<Rightarrow> kern res" where
  "bump_refcount c g k =
     (case g of
        Some i \<Rightarrow> Inr (k\<lparr>k_shl := (k_shl k)[i := (k_shl k ! i)\<lparr>s_refcount := s_refcount (k_shl k ! i) + 1\<rparr>]\<rparr>)
      | None \<Rightarrow> on_mem (\<lambda>m. bindr (uaddr True (p_pgdir (proc_at c k)) 20 m) (\<lambda>a. Inr (wr32 a (rd32 m a + 1) m))) k)"

definition fork_shm :: "nat \<Rightarrow> nat \<Rightarrow> nat \<Rightarrow> kern \<Rightarrow> kern res" where
  "fork_shm c np i k =
     bindr (is_cm (p_name (proc_at c k))) (\<lambda>cm.
     if cm then Inr k
     else let h = p_shm (proc_at c k) ! i; h' = p_shm (proc_at np k) ! i in
          bindr (strlen_arr (sh_name h)) (\<lambda>n.
          bindr (strncpy_arr (sh_name h') (sh_name h) n) (\<lambda>nm.
          bump_refcount c (sh_global h)
            (upd_proc np (\<lambda>p. p\<lparr>p_shm := (p_shm p)[i := h'\<lparr>sh_in_use := sh_in_use h, sh_name := nm, sh_va := sh_va h, sh_global := sh_global h\<rparr>]\<rparr>) k))))"

definition fork_file :: "nat \<Rightarrow> nat \<Rightarrow> nat \<Rightarrow> kern \<Rightarrow> kern res" where
  "fork_file c np i k =
     (case p_ofile (proc_at c k) ! i of
        None \<Rightarrow> Inr k
      | Some f \<Rightarrow> bindr (filedup f k) (\<lambda>k. Inr (set_ofile np i (Some f) k)))"

text \<open>The name of the child: the parent's, or what stands at the address in container->init.\<close>

definition fork_name :: "nat \<Rightarrow> nat \<Rightarrow> kern \<Rightarrow> u8 list res" where
  "fork_name c np k =
     (let cp = proc_at c k; p = proc_at np k in
      bindr (is_cm (p_name cp)) (\<lambda>cm.
      if \<not> cm then safestrcpy_arr (p_name p) (p_name cp) 16
      else case p_container p of
             None \<Rightarrow> Inl (Undefined ''container'')
           | Some i \<Rightarrow>
               bindr (ureadstr (unat KERNBASE) (p_pgdir cp) (c_init (k_cont k ! i)) (k_mem k)) (\<lambda>s.
               safestrcpy_arr (p_name p) (s @ [0]) (int (length s)))))"

definition initproc_index :: "kern \<Rightarrow> nat" where
  "initproc_index k = (case k_initproc k of Some i \<Rightarrow> i | None \<Rightarrow> NPROC)"

text \<open>The priorities, at the end of fork; the results of prio_set are not used.\<close>

definition fork_prio :: "nat \<Rightarrow> nat \<Rightarrow> kern \<Rightarrow> kern res" where
  "fork_prio c np k =
     (let pid = p_pid (proc_at np k); set = (\<lambda>pr k. bindr (on_queue_r (prio_set c (initproc_index k) pid pr) k) (\<lambda>(_, k). Inr k)) in
      bindr (is_cm (p_name (proc_at np k))) (\<lambda>cm.
      bindr (if p_pid (proc_at c k) > 1 \<and> \<not> cm then set 1 k else Inr k) (\<lambda>k.
      set (p_priority (proc_at c k)) k)))"

text \<open>fork from the copy of the parent's state on: np is the child, d its page table.\<close>

definition fork_child :: "nat \<Rightarrow> nat \<Rightarrow> u32 \<Rightarrow> kern \<Rightarrow> (int \<times> kern) res" where
  "fork_child c np d k =
     (let cp = proc_at c k;
          k = upd_proc np (\<lambda>p. p\<lparr>p_pgdir := d, p_sz := p_sz cp, p_parent := Some c, p_container := p_container cp,
                                 p_container_id := p_container_id cp\<rparr>) k;
          k = on_mem_pure (\<lambda>m. m\<lparr>kmem_mem := memmove (kmem_mem m) (p_tf (proc_at np k)) (p_tf cp) 76\<rparr>) k in
      bindr (forM [0..<SHM_MAXNUM] (fork_shm c np) k) (\<lambda>k.
      let k = on_mem_pure (wr32 (p_tf (proc_at np k) + 28) 0) k in
      bindr (forM [0..<NOFILE] (fork_file c np) k) (\<lambda>k.
      bindr (on_fs_r (dup_or_null (p_cwd (proc_at c k))) k) (\<lambda>(cwd, k).
      let k = upd_proc np (\<lambda>p. p\<lparr>p_cwd := Some cwd\<rparr>) k in
      bindr (fork_name c np k) (\<lambda>nm.
      let k = upd_proc np (\<lambda>p. p\<lparr>p_name := nm\<rparr>) k; pid = p_pid (proc_at np k) in
      bindr (fork_prio c np k) (\<lambda>k.
      Inr (pid, upd_proc np (\<lambda>p. p\<lparr>p_state := RUNNABLE\<rparr>) k)))))))"

definition fork :: "env \<Rightarrow> nat \<Rightarrow> kern \<Rightarrow> (int \<times> kern) res" where
  "fork e c k =
     bindr (fork_reserve c k) (\<lambda>(ok, k).
     if \<not> ok then Inr (-1, k)
     else bindr (allocproc e (p_priority (proc_at c k)) k) (\<lambda>(npo, k).
     case npo of
       None \<Rightarrow> Inr (-1, k)
     | Some np \<Rightarrow>
         bindr (on_mem_r (copyuvm (e_kdata e) (e_kend e) (proc_at c k) (k_shl k) (p_pgdir (proc_at c k)) (p_sz (proc_at c k))) k) (\<lambda>(d, k).
         if d = 0
         then bindr (on_mem (kfree (e_kend e) (p_kstack (proc_at np k))) k) (\<lambda>k.
              Inr (-1, upd_proc np (\<lambda>p. p\<lparr>p_pgdir := 0, p_kstack := 0, p_state := UNUSED\<rparr>) k))
         else fork_child c np d k)))"

section \<open>exit and wait\<close>

definition exit_file :: "env \<Rightarrow> nat \<Rightarrow> nat \<Rightarrow> kern \<Rightarrow> kern res" where
  "exit_file e c fd k =
     (case p_ofile (proc_at c k) ! fd of
        None \<Rightarrow> Inr k
      | Some i \<Rightarrow> bindr (fileclose e (pid_of c k) i k) (\<lambda>k. Inr (set_ofile c fd None k)))"

definition exit_shm :: "env \<Rightarrow> nat \<Rightarrow> nat \<Rightarrow> kern \<Rightarrow> kern res" where
  "exit_shm e c i k =
     (let h = p_shm (proc_at c k) ! i in
      if sh_in_use h
      then bindr (strlen_arr (sh_name h)) (\<lambda>n. bindr (on_shm (shm_rem (e_kend e) c (take n (sh_name h))) k) (\<lambda>(_, k). Inr k))
      else Inr k)"

definition exit_mutex :: "nat \<Rightarrow> nat \<Rightarrow> kern \<Rightarrow> kern res" where
  "exit_mutex c i k =
     (case p_mutex (proc_at c k) ! i of
        None \<Rightarrow> Inr k
      | Some _ \<Rightarrow> on_mux (mutex_delete c (int i)) k)"

text \<open>The loop that passes the children of c to init, one entry at a time.\<close>

definition reparent :: "nat \<Rightarrow> nat option \<Rightarrow> nat \<Rightarrow> proc list \<Rightarrow> proc list" where
  "reparent c ini j ps =
     (if p_parent (ps ! j) = Some c
      then let ps = ps[j := (ps ! j)\<lparr>p_parent := ini\<rparr>] in
           if p_state (ps ! j) = ZOMBIE then (case ini of Some i \<Rightarrow> wakeup1 (CProc i) ps | None \<Rightarrow> ps) else ps
      else ps)"

text \<open>The part of exit under ptable.lock, up to the call of sched.\<close>

definition exit_table :: "nat \<Rightarrow> nat option \<Rightarrow> proc list \<Rightarrow> proc list" where
  "exit_table c ini ps =
     (let ps = (case p_parent (ps ! c) of Some i \<Rightarrow> wakeup1 (CProc i) ps | None \<Rightarrow> ps);
          ps = fold (reparent c ini) [0..<length ps] ps in
      ps[c := (ps ! c)\<lparr>p_state := ZOMBIE\<rparr>])"

definition exit :: "env \<Rightarrow> nat \<Rightarrow> kern \<Rightarrow> kern res" where
  "exit e c k =
     (if k_initproc k = Some c then Inl (Panic ''init exiting'')
      else bindr (forM [0..<NOFILE] (exit_file e c) k) (\<lambda>k.
           bindr (forM [0..<SHM_MAXNUM] (exit_shm e c) k) (\<lambda>k.
           bindr (forM [0..<MUX_MAXNUM] (exit_mutex c) k) (\<lambda>k.
           bindr (on_fs (put_in_op (pid_of c k) (p_cwd (proc_at c k))) k) (\<lambda>k.
           let k = upd_proc c (\<lambda>p. p\<lparr>p_cwd := None\<rparr>) k in
           Inr (k\<lparr>k_procs := exit_table c (k_initproc k) (k_procs k)\<rparr>))))))"

definition reap :: "env \<Rightarrow> nat \<Rightarrow> nat \<Rightarrow> kern \<Rightarrow> kern res" where
  "reap e c i k =
     bindr (on_mem (kfree (e_kend e) (p_kstack (proc_at i k))) k) (\<lambda>k.
     bindr (on_mem (freevm (e_kend e) (p_shm (proc_at c k)) (k_shl k) (p_pgdir (proc_at i k))) k) (\<lambda>k.
     Inr (upd_proc i (\<lambda>p. p\<lparr>p_kstack := 0, p_pid := 0, p_parent := None, p_name := (p_name p)[0 := 0], p_killed := False,
                             p_state := UNUSED\<rparr>) k)))"

text \<open>One pass of wait over the table; Blocked when it goes to sleep.\<close>

definition wait :: "env \<Rightarrow> nat \<Rightarrow> kern \<Rightarrow> (int \<times> kern) res" where
  "wait e c k =
     (case scan (\<lambda>p. p_parent p = Some c \<and> p_state p = ZOMBIE) (k_procs k) of
        Some i \<Rightarrow>
          let pid = p_pid (proc_at i k) in
          bindr (reap e c i k) (\<lambda>k.
          if p_container_id (proc_at c k) \<noteq> 0
          then case p_container (proc_at c k) of
                 None \<Rightarrow> Inl (Undefined ''container'')
               | Some j \<Rightarrow> Inr (pid, upd_cont j (\<lambda>x. x\<lparr>c_nproc := c_nproc x + 1\<rparr>) k)
          else Inr (pid, k))
      | None \<Rightarrow>
          if (\<forall>p\<in>set (k_procs k). p_parent p \<noteq> Some c) \<or> p_killed (proc_at c k) then Inr (-1, k) else Inl Blocked)"

section \<open>Containers\<close>

definition cm_maxproc :: "nat \<Rightarrow> int \<Rightarrow> kern \<Rightarrow> (int \<times> kern) res" where
  "cm_maxproc c nproc k =
     (if nproc \<ge> int NPROC then Inr (-1, k)
      else if p_container_id (proc_at c k) = 0 then Inr (-1, k)
      else case p_container (proc_at c k) of
             None \<Rightarrow> Inl (Undefined ''container'')
           | Some i \<Rightarrow>
               if c_nproc (k_cont k ! i) \<noteq> -1 then Inr (-1, k)
               else Inr (1, upd_cont i (\<lambda>x. x\<lparr>c_nproc := word_of_int nproc\<rparr>) k))"

text \<open>
  cm_setroot of process c; the path is also copied, without its last character, to the address in
  the field fs, which no code sets.
\<close>

definition cm_setroot :: "nat \<Rightarrow> u8 list \<Rightarrow> int \<Rightarrow> nat \<Rightarrow> kern \<Rightarrow> (int \<times> kern) res" where
  "cm_setroot c path path_len i k =
     (if path_len \<le> 0 then Inr (-1, k)
      else bindr (on_fs_r (namei (who_of c k) (pid_of c k) path) k) (\<lambda>(root, k).
           let k = upd_cont i (\<lambda>x. x\<lparr>c_root := root\<rparr>) k in
           bindr (if path = [] then Inr k
                  else on_mem (uwrite (p_pgdir (proc_at c k)) (c_fs (k_cont k ! i)) (butlast path @ [0])) k) (\<lambda>k.
           Inr (1, k))))"

definition cm_create_and_enter :: "env \<Rightarrow> nat \<Rightarrow> u8 list \<Rightarrow> u8 list \<Rightarrow> int \<Rightarrow> kern \<Rightarrow> (int \<times> kern) res" where
  "cm_create_and_enter e c init fs nproc k =
     bindr (strncpy_arr (p_name (proc_at c k)) (bytes_of ''cm'' @ [0]) 2) (\<lambda>nm.
     let k = upd_proc c (\<lambda>p. p\<lparr>p_name := nm\<rparr>) k; pid = pid_of c k in
     case scan (\<lambda>x. c_container_id x = -1) (k_cont k) of
       None \<Rightarrow> Inr (-1, k)
     | Some i \<Rightarrow>
         let k = (upd_cont i (\<lambda>x. x\<lparr>c_container_id := word_of_int (k_nextcid k)\<rparr>) k)\<lparr>k_nextcid := k_nextcid k + 1\<rparr> in
         bindr (on_mem (uwrite (p_pgdir (proc_at c k)) (c_init (k_cont k ! i)) init) k) (\<lambda>k.
         let k = upd_proc c (\<lambda>p. p\<lparr>p_container := Some i\<rparr>) k in
         bindr (on_fs fs_begin k) (\<lambda>k.
         bindr (cm_setroot c fs (int (length fs)) i k) (\<lambda>(_, k).
         bindr (on_fs_r (dup_or_null (c_root (k_cont k ! i))) k) (\<lambda>(cwd, k).
         let k = upd_proc c (\<lambda>p. p\<lparr>p_cwd := Some cwd\<rparr>) k in
         bindr (on_fs (fs_end pid) k) (\<lambda>k.
         let k = upd_proc c (\<lambda>p. p\<lparr>p_container_id := c_container_id (k_cont k ! i)\<rparr>) k in
         bindr (cm_maxproc c nproc k) (\<lambda>(_, k).
         bindr (fork e c k) (\<lambda>(child, k).
         if child \<noteq> 0 then Inr (1, upd_proc c (\<lambda>p. p\<lparr>p_container_id := 0\<rparr>) k) else Inr (0, k)))))))))"

section \<open>The system calls\<close>

definition sys_kill :: "ucall \<Rightarrow> nat \<Rightarrow> kern \<Rightarrow> (int \<times> kern) res" where
  "sys_kill u c k =
     (case arg_int u c 0 k of
        None \<Rightarrow> Inr (-1, k)
      | Some pid \<Rightarrow> on_mux_r (\<lambda>s. Inr (kill c (sint pid) s)) k)"

definition sys_getpid :: "nat \<Rightarrow> kern \<Rightarrow> int" where
  "sys_getpid c k = pid_of c k"

definition sys_sbrk :: "env \<Rightarrow> ucall \<Rightarrow> nat \<Rightarrow> kern \<Rightarrow> (int \<times> kern) res" where
  "sys_sbrk e u c k =
     (case arg_int u c 0 k of
        None \<Rightarrow> Inr (-1, k)
      | Some n \<Rightarrow>
          let addr = sint (p_sz (proc_at c k)) in
          bindr (growproc e c (sint n) k) (\<lambda>(r, k). Inr (if r < 0 then -1 else addr, k)))"

text \<open>
  sys_m_get and sys_m_rem check four bytes of the name only; the string is read as far as its NUL,
  wherever that is below KERNBASE.
\<close>

definition name_arg :: "ucall \<Rightarrow> nat \<Rightarrow> kern \<Rightarrow> u8 list option res" where
  "name_arg u c k =
     (case arg_ptr u c 0 4 k of
        None \<Rightarrow> Inr None
      | Some p \<Rightarrow>
          (case fetchstr (u_mem u) KERNBASE p of
             None \<Rightarrow> Inl (Panic ''trap'')
           | Some s \<Rightarrow> Inr (Some (ustring (u_mem u) s))))"

definition sys_m_get :: "ucall \<Rightarrow> nat \<Rightarrow> kern \<Rightarrow> (int \<times> kern) res" where
  "sys_m_get u c k =
     bindr (name_arg u c k) (\<lambda>no.
     case no of
       None \<Rightarrow> Inr (-1, k)
     | Some name \<Rightarrow>
         bindr (on_shm (shm_get (map (\<lambda>i. u_mem u (of_nat i)) [0..<Suc (length name)]) c name) k) (\<lambda>(va, k).
         Inr (sint va, k)))"

definition sys_m_rem :: "env \<Rightarrow> ucall \<Rightarrow> nat \<Rightarrow> kern \<Rightarrow> (int \<times> kern) res" where
  "sys_m_rem e u c k =
     bindr (name_arg u c k) (\<lambda>no. case no of None \<Rightarrow> Inr (-1, k) | Some name \<Rightarrow> on_shm (shm_rem (e_kend e) c name) k)"

definition sys_cm_create_and_enter :: "env \<Rightarrow> ucall \<Rightarrow> nat \<Rightarrow> kern \<Rightarrow> (int \<times> kern) res" where
  "sys_cm_create_and_enter e u c k =
     (case (arg_str u c 0 k, arg_str u c 1 k, arg_int u c 2 k) of
        (Some init, Some fs, Some nproc) \<Rightarrow> cm_create_and_enter e c init fs (sint nproc) k
      | _ \<Rightarrow> Inr (-1, k))"

definition sys_cm_maxproc :: "ucall \<Rightarrow> nat \<Rightarrow> kern \<Rightarrow> (int \<times> kern) res" where
  "sys_cm_maxproc u c k =
     (case arg_int u c 0 k of None \<Rightarrow> Inr (-1, k) | Some nproc \<Rightarrow> cm_maxproc c (sint nproc) k)"

text \<open>On the error path sys_cm_setroot returns inside the transaction it began.\<close>

definition sys_cm_setroot :: "ucall \<Rightarrow> nat \<Rightarrow> kern \<Rightarrow> (int \<times> kern) res" where
  "sys_cm_setroot u c k =
     bindr (on_fs fs_begin k) (\<lambda>k.
     case (arg_str u c 0 k, arg_int u c 1 k) of
       (Some path, Some path_len) \<Rightarrow>
         (case p_container (proc_at c k) of
            None \<Rightarrow> Inl (Undefined ''container'')
          | Some i \<Rightarrow>
              bindr (cm_setroot c path (sint path_len) i k) (\<lambda>(r, k).
              bindr (on_fs (fs_end (pid_of c k)) k) (\<lambda>k. Inr (r, k))))
     | _ \<Rightarrow> Inr (-1, k))"

definition sys_mutex_create :: "ucall \<Rightarrow> nat \<Rightarrow> kern \<Rightarrow> (int \<times> kern) res" where
  "sys_mutex_create u c k =
     (case arg_str u c 0 k of None \<Rightarrow> Inr (-1, k) | Some name \<Rightarrow> on_mux_r (mutex_create c name) k)"

text \<open>The calls without a result.\<close>

definition mux_call :: "(nat \<Rightarrow> int \<Rightarrow> mst \<Rightarrow> mst res) \<Rightarrow> ucall \<Rightarrow> nat \<Rightarrow> kern \<Rightarrow> kern res" where
  "mux_call op u c k = (case arg_int u c 0 k of None \<Rightarrow> Inr k | Some muxid \<Rightarrow> on_mux (op c (sint muxid)) k)"

definition sys_mutex_delete :: "ucall \<Rightarrow> nat \<Rightarrow> kern \<Rightarrow> kern res" where
  "sys_mutex_delete = mux_call mutex_delete"

definition sys_mutex_lock :: "ucall \<Rightarrow> nat \<Rightarrow> kern \<Rightarrow> kern res" where
  "sys_mutex_lock = mux_call mutex_lock"

definition sys_mutex_unlock :: "ucall \<Rightarrow> nat \<Rightarrow> kern \<Rightarrow> kern res" where
  "sys_mutex_unlock = mux_call mutex_unlock"

definition sys_prio_set :: "ucall \<Rightarrow> nat \<Rightarrow> kern \<Rightarrow> (int \<times> kern) res" where
  "sys_prio_set u c k =
     (case (arg_int u c 0 k, arg_int u c 1 k) of
        (Some pid, Some priority) \<Rightarrow> on_queue_r (prio_set c (initproc_index k) (sint pid) priority) k
      | _ \<Rightarrow> Inr (-1, k))"

end
