(* ===== verification/Account.thy ===== *)
theory Account
  imports Lifecycle
begin

text \<open>
  What processes hold, over calls of fork, exit and wait: the places of a container's limit and
  the references to open files.  The seat of a process is what these accounts read of it.
\<close>

section \<open>Operations that leave seats alone\<close>

datatype life = Free | Alive | Dead

definition life_of :: "proc \<Rightarrow> life" where
  "life_of p = (case p_state p of UNUSED \<Rightarrow> Free | ZOMBIE \<Rightarrow> Dead | _ \<Rightarrow> Alive)"

definition seat :: "proc \<Rightarrow> nat option list \<times> life \<times> nat option \<times> nat option \<times> u32" where
  "seat p = (p_ofile p, life_of p, p_parent p, p_container p, p_container_id p)"

definition same_seats :: "kern \<Rightarrow> kern \<Rightarrow> bool" where
  "same_seats k k' \<longleftrightarrow> map seat (k_procs k') = map seat (k_procs k) \<and> k_cont k' = k_cont k \<and> k_initproc k' = k_initproc k"

lemma same_seats_refl [simp]: "same_seats k k"
  by (simp add: same_seats_def)

lemma same_seats_trans: "same_seats k k' \<Longrightarrow> same_seats k' k'' \<Longrightarrow> same_seats k k''"
  by (simp add: same_seats_def)

text \<open>Operations that also leave the table of files alone.\<close>

definition quiet :: "kern \<Rightarrow> kern \<Rightarrow> bool" where
  "quiet k k' \<longleftrightarrow> same_seats k k' \<and> k_files k' = k_files k"

lemma quiet_refl [simp]: "quiet k k"
  by (simp add: quiet_def)

lemma quiet_trans: "quiet k k' \<Longrightarrow> quiet k' k'' \<Longrightarrow> quiet k k''"
  by (simp add: quiet_def same_seats_def)

lemma quiet_seats: "quiet k k' \<Longrightarrow> same_seats k k'"
  by (simp add: quiet_def)

lemma seats_ofile: "same_seats k k' \<Longrightarrow> map p_ofile (k_procs k') = map p_ofile (k_procs k)"
proof -
  assume "same_seats k k'"
  then have "map fst (map seat (k_procs k')) = map fst (map seat (k_procs k))" by (simp add: same_seats_def)
  then show ?thesis by (simp add: seat_def life_of_def comp_def)
qed

lemma quiet_fd: "quiet k k' \<Longrightarrow> fd_same k k'"
  by (simp add: quiet_def fd_same_def seats_ofile)

lemma bindr_InrE:
  assumes "bindr r f = Inr y"
  obtains x where "r = Inr x" "f x = Inr y"
  using assms by (auto simp: bindr_eq_Inr)

lemma map_upd_same: "f v = f (xs ! i) \<Longrightarrow> map f (xs[i := v]) = map f xs"
  by (cases "i < length xs") (simp_all add: map_update list_update_same_conv list_update_beyond)

lemma enqueue_seats:
  assumes "pqueue_enqueue po pr (ps, bins) = Inr (ps', bins')"
  shows "map seat ps' = map seat ps"
proof -
  have "map seat (ps1[q := (ps1 ! q)\<lparr>p_priority := x\<rparr>]) = map seat ps1" "map seat (ps1[q := (ps1 ! q)\<lparr>p_next := y\<rparr>]) = map seat ps1" for ps1 q x y
    by (rule map_upd_same, simp add: seat_def life_of_def)+
  then show ?thesis using assms by (auto simp: pqueue_enqueue_def Let_def bindr_eq_Inr simp del: list_update_overwrite split: option.splits if_splits)
qed

lemma pq_walk_seats: "pq_walk n pid p ps = Inr (r, ps') \<Longrightarrow> map seat ps' = map seat ps"
proof (induction n pid p ps rule: pq_walk.induct)
  case (2 n pid p ps)
  have "map seat (ps[p := (ps ! p)\<lparr>p_next := y\<rparr>]) = map seat ps" for y by (rule map_upd_same) (simp add: seat_def life_of_def)
  then show ?case using 2 by (auto split: option.splits if_splits)
qed simp

lemma pq_unlink_seats: "pq_unlink is pid found (ps, bins) = Inr (r, ps', bins') \<Longrightarrow> map seat ps' = map seat ps"
proof (induction "is" arbitrary: found ps bins)
  case (Cons i "is")
  show ?case
  proof (cases "pl_head (bins ! i)")
    case (Some p)
    show ?thesis
    proof (cases "p_pid (ps ! p) = pid")
      case False
      then obtain q ps1 where w: "pq_walk (Suc NPROC) pid p ps = Inr (q, ps1)"
        "pq_unlink is pid (case q of None \<Rightarrow> found | Some q \<Rightarrow> Some q) (ps1, bins) = Inr (r, ps', bins')"
        using Cons.prems Some by (auto simp: bindr_eq_Inr simp del: pq_walk.simps)
      then show ?thesis using Cons.IH [OF w(2)] pq_walk_seats [OF w(1)] by simp
    qed (use Cons.prems Some in auto)
  qed (use Cons in auto)
qed simp

lemma prio_set_seats:
  assumes "prio_set c ini pid pr (ps, bins) = Inr (r, ps', bins')"
  shows "map seat ps' = map seat ps"
proof -
  consider "ps' = ps" | pr1 s1 where "pq_unlink [0..<NBIN] pid None (ps, bins) = Inr (pr1, s1)" "pqueue_enqueue pr1 pr s1 = Inr (ps', bins')"
    using assms by (auto simp: prio_set_def bindr_eq_Inr simp del: pq_unlink.simps anc_walk.simps split: option.splits if_splits)
  then show ?thesis
  proof cases
    case 2
    obtain ps1 b1 where "s1 = (ps1, b1)" by (cases s1)
    then show ?thesis using 2 enqueue_seats pq_unlink_seats by metis
  qed simp
qed

lemma wakeup1_seats: "map seat (wakeup1 ch ps) = map seat ps"
  by (simp add: wakeup1_def seat_def life_of_def)

lemma mutex_delete_seats:
  assumes "mutex_delete c i (ps, ms) = Inr (ps', ms')"
  shows "map seat ps' = map seat ps"
proof -
  have "map seat (set_mux c j v ps) = map seat ps" for j v unfolding set_mux_def by (rule map_upd_same) (simp add: seat_def life_of_def)
  then show ?thesis using assms by (auto simp: mutex_delete_def Let_def bindr_eq_Inr split: option.splits if_splits)
qed

lemma shm_detach_procs:
  "shm_detach kend c g j s = Inr (r, s') \<Longrightarrow> \<exists>x y. sm_procs s' = (sm_procs s)[c := (sm_procs s ! c)\<lparr>p_sz := x, p_shm := y\<rparr>]"
  unfolding shm_detach_def Let_def by (auto elim!: bindr_InrE split: if_split_asm) blast+

lemma shm_rem_seats:
  assumes "shm_rem kend c name s = Inr (r, s')"
  shows "map seat (sm_procs s') = map seat (sm_procs s)"
proof -
  have "map seat ((sm_procs s)[c := (sm_procs s ! c)\<lparr>p_sz := x, p_shm := y\<rparr>]) = map seat (sm_procs s)" for x y
    by (rule map_upd_same) (simp add: seat_def life_of_def)
  moreover have "s' = s \<or> (\<exists>g j. shm_detach kend c g j s = Inr (r, s'))"
    using assms by (auto simp: shm_rem_def Let_def bindr_eq_Inr split: option.splits)
  ultimately show ?thesis using shm_detach_procs by metis
qed

lemma quiet_fs: "on_fs g k = Inr k' \<Longrightarrow> quiet k k'" "on_fs_r h k = Inr (r, k') \<Longrightarrow> quiet k k'"
  by (auto simp: quiet_def same_seats_def on_fs_def on_fs_r_def bindr_eq_Inr)

lemma quiet_mem: "on_mem g k = Inr k' \<Longrightarrow> quiet k k'" "on_mem_r h k = Inr (r, k') \<Longrightarrow> quiet k k'" "quiet k (on_mem_pure g' k)"
  by (auto simp: quiet_def same_seats_def on_mem_def on_mem_r_def on_mem_pure_def bindr_eq_Inr)

lemma quiet_upd:
  assumes "seat (f (proc_at c k)) = seat (proc_at c k)"
  shows "quiet k (upd_proc c f k)"
  using map_upd_same [OF assms] by (simp add: quiet_def same_seats_def upd_proc_def)

lemma quiet_prio: "on_queue_r (prio_set c ini pid pr) k = Inr (r, k') \<Longrightarrow> quiet k k'"
  by (auto simp: quiet_def same_seats_def on_queue_r_def bindr_eq_Inr dest: prio_set_seats)

lemma quiet_enqueue: "on_queue (pqueue_enqueue po pr) k = Inr k' \<Longrightarrow> quiet k k'"
  by (auto simp: quiet_def same_seats_def on_queue_def bindr_eq_Inr dest: enqueue_seats)

lemma quiet_wake: "quiet k (pipe_wake a chs k)"
proof -
  have "map seat (fold (\<lambda>ch. wakeup1 (pipe_chan a ch)) chs ps) = map seat ps" for ps
    by (induction chs arbitrary: ps) (simp_all add: wakeup1_seats)
  then show ?thesis by (simp add: quiet_def same_seats_def pipe_wake_def)
qed

lemma seats_file: "same_seats k (upd_file i g k)"
  by (simp add: same_seats_def upd_file_def)

lemma quiet_close_pipe: "close_pipe e a w k = Inr k' \<Longrightarrow> quiet k k'"
proof -
  assume a: "close_pipe e a w k = Inr k'"
  obtain p ch both where p: "pipeclose (k_pipes k a) w = (p, ch, both)" by (cases "pipeclose (k_pipes k a) w") auto
  let ?k = "pipe_wake a [ch] (k\<lparr>k_pipes := (k_pipes k)(a := p)\<rparr>)"
  have "quiet k ?k" by (rule quiet_trans [OF _ quiet_wake]) (simp add: quiet_def same_seats_def)
  moreover have "quiet ?k k'" using a p by (auto simp: close_pipe_def Let_def dest: quiet_mem(1,2) split: if_splits)
  ultimately show ?thesis by (rule quiet_trans)
qed

lemma seats_fileclose:
  assumes "fileclose e pid i k = Inr k'"
  shows "same_seats k k'"
proof (cases "f_ref (k_files k ! i) = 1")
  case True
  let ?k = "upd_file i (\<lambda>f. f\<lparr>f_ref := 0, f_type := FD_NONE\<rparr>) k"
  have "same_seats ?k k'" using assms True
    by (auto simp: fileclose_def Let_def dest: quiet_close_pipe quiet_fs intro: quiet_seats split: fdtype.splits)
  then show ?thesis by (rule same_seats_trans [OF seats_file])
next
  case False
  then show ?thesis using assms seats_file by (auto simp: fileclose_def Let_def split: if_splits)
qed

lemma seats_filedup: "filedup i k = Inr k' \<Longrightarrow> same_seats k k'"
  using seats_file by (auto simp: filedup_def split: if_splits)

lemma quiet_mutex: "on_mux (mutex_delete c i) k = Inr k' \<Longrightarrow> quiet k k'"
  by (auto simp: quiet_def same_seats_def on_mux_def bindr_eq_Inr dest: mutex_delete_seats)

lemma quiet_shm: "on_shm (shm_rem kend c name) k = Inr (r, k') \<Longrightarrow> quiet k k'"
  by (auto simp: quiet_def same_seats_def on_shm_def bindr_eq_Inr dest: shm_rem_seats)

section \<open>The seat of a new process\<close>

abbreviation seats :: "kern \<Rightarrow> (nat option list \<times> life \<times> nat option \<times> nat option \<times> u32) list" where
  "seats k \<equiv> map seat (k_procs k)"

lemma seats_upd_proc: "seats (upd_proc c f k) = (seats k)[c := seat (f (proc_at c k))]"
  by (simp add: upd_proc_def map_update)

lemma seats_nth: "c < length (k_procs k) \<Longrightarrow> seats k ! c = seat (proc_at c k)"
  by simp

text \<open>k' is k with the seat of process i replaced.\<close>

definition reseat :: "nat \<Rightarrow> nat option list \<times> life \<times> nat option \<times> nat option \<times> u32 \<Rightarrow> kern \<Rightarrow> kern \<Rightarrow> bool" where
  "reseat i x k k' \<longleftrightarrow> seats k' = (seats k)[i := x] \<and> k_cont k' = k_cont k \<and> k_initproc k' = k_initproc k"

lemma reseat_length: "reseat i x k k' \<Longrightarrow> length (k_procs k') = length (k_procs k)"
  unfolding reseat_def by (metis length_list_update length_map)

lemma reseat_nth:
  assumes "reseat i x k k'" "i < length (k_procs k)" "j < length (k_procs k)"
  shows "seat (proc_at j k') = (if j = i then x else seat (proc_at j k))"
proof -
  have "seats k' ! j = (if j = i then x else seats k ! j)" using assms by (simp add: reseat_def nth_upd)
  then show ?thesis using assms(3) reseat_length [OF assms(1)] by (simp split: if_splits)
qed

lemma reseat_upd: "reseat c (seat (f (proc_at c k))) k (upd_proc c f k)"
  by (simp add: reseat_def seats_upd_proc) (simp add: upd_proc_def)

lemma reseat_same: "reseat i x k k' \<Longrightarrow> same_seats k' k'' \<Longrightarrow> reseat i x k k''"
  by (simp add: reseat_def same_seats_def)

lemma same_reseat: "same_seats k k' \<Longrightarrow> reseat i x k' k'' \<Longrightarrow> reseat i x k k''"
  by (simp add: reseat_def same_seats_def)

lemma reseat_twice: "reseat i x k k' \<Longrightarrow> reseat i y k' k'' \<Longrightarrow> reseat i y k k''"
  by (simp add: reseat_def)

lemma claim_slot_reseat:
  assumes "claim_slot i pr k = Inr k'" "i < length (k_procs k)"
  shows "reseat i (p_ofile (proc_at i k), Alive, p_parent (proc_at i k), p_container (proc_at i k), 0) k k' \<and> k_files k' = k_files k"
proof -
  let ?k = "(upd_proc i (\<lambda>p. p\<lparr>p_state := EMBRYO, p_pid := k_nextpid k\<rparr>) k)\<lparr>k_nextpid := k_nextpid k + 1\<rparr>"
  let ?g = "\<lambda>p. p\<lparr>p_container_id := 0, p_shm := map (\<lambda>h. h\<lparr>sh_in_use := False\<rparr>) (p_shm p), p_mutex := replicate MUX_MAXNUM None\<rparr>"
  let ?s = "(p_ofile (proc_at i k), Alive, p_parent (proc_at i k), p_container (proc_at i k), p_container_id (proc_at i k))"
  obtain k1 where k1: "on_queue (pqueue_enqueue (Some i) pr) ?k = Inr k1" "k' = upd_proc i ?g k1"
    using assms(1) by (auto simp: claim_slot_def bindr_eq_Inr)
  have q: "quiet ?k k1" by (rule quiet_enqueue [OF k1(1)])
  have "reseat i ?s k ?k" by (simp add: reseat_def upd_proc_def map_update seat_def life_of_def)
  then have r: "reseat i ?s k k1" by (rule reseat_same [OF _ quiet_seats [OF q]])
  then have "seat (proc_at i k1) = ?s" using reseat_nth [OF r assms(2,2)] by simp
  then have "seat (?g (proc_at i k1)) = (p_ofile (proc_at i k), Alive, p_parent (proc_at i k), p_container (proc_at i k), 0)"
    by (simp add: seat_def life_of_def)
  then have "reseat i (p_ofile (proc_at i k), Alive, p_parent (proc_at i k), p_container (proc_at i k), 0) k k'"
    using reseat_twice [OF r] reseat_upd [of i ?g k1] k1(2) by metis
  then show ?thesis using q k1(2) by (simp add: quiet_def)
qed

lemma allocproc_reseat:
  assumes "allocproc e pr k = Inr (npo, k')"
  shows "k_files k' = k_files k \<and> (case npo of
      Some i \<Rightarrow> i < length (k_procs k) \<and> p_state (proc_at i k) = UNUSED \<and>
        reseat i (p_ofile (proc_at i k), Alive, p_parent (proc_at i k), p_container (proc_at i k), 0) k k'
    | None \<Rightarrow> same_seats k k' \<or> (\<exists>i. i < length (k_procs k) \<and> p_state (proc_at i k) = UNUSED \<and>
        reseat i (p_ofile (proc_at i k), Free, p_parent (proc_at i k), p_container (proc_at i k), 0) k k'))"
proof (cases "scan (\<lambda>p. p_state p = UNUSED) (k_procs k)")
  case None
  then show ?thesis using assms by (simp add: allocproc_def)
next
  case (Some i)
  let ?s = "\<lambda>u. (p_ofile (proc_at i k), u, p_parent (proc_at i k), p_container (proc_at i k), 0)"
  have i: "i < length (k_procs k)" "p_state (proc_at i k) = UNUSED" using scan_SomeD [OF Some] by auto
  obtain k1 where k1: "claim_slot i pr k = Inr k1" using assms Some by (auto simp: allocproc_def bindr_eq_Inr)
  have r1: "reseat i (?s Alive) k k1" "k_files k1 = k_files k" using claim_slot_reseat [OF k1 i(1)] by auto
  obtain st m where a: "kalloc (k_mem k1) = (st, m)" by (cases "kalloc (k_mem k1)")
  let ?k = "upd_proc i (\<lambda>p. p\<lparr>p_kstack := st\<rparr>) (k1\<lparr>k_mem := m\<rparr>)"
  have "same_seats (k1\<lparr>k_mem := m\<rparr>) ?k" by (rule quiet_seats [OF quiet_upd]) (simp add: seat_def life_of_def)
  then have r: "reseat i (?s Alive) k ?k" using r1(1) by (auto intro: reseat_same simp: same_seats_def)
  have si: "seat (proc_at i ?k) = ?s Alive" using reseat_nth [OF r i(1,1)] by simp
  show ?thesis
  proof (cases "st = 0")
    case True
    then have k': "npo = None" "k' = upd_proc i (\<lambda>p. p\<lparr>p_state := UNUSED\<rparr>) ?k" using assms Some k1 a by (auto simp: allocproc_def)
    have "seat ((proc_at i ?k)\<lparr>p_state := UNUSED\<rparr>) = ?s Free" using si by (simp add: seat_def life_of_def)
    then have "reseat i (?s Free) k k'" unfolding k'(2) using reseat_twice [OF r reseat_upd [of i "\<lambda>p. p\<lparr>p_state := UNUSED\<rparr>" ?k]] by simp
    then show ?thesis using k' i r1(2) by auto
  next
    case False
    let ?f = "\<lambda>p. p\<lparr>p_tf := st + KSTACKSIZE - 76, p_context := st + KSTACKSIZE - 100\<rparr>"
    have k': "npo = Some i" "k' = upd_proc i ?f (on_mem_pure (init_stack e st) ?k)" using assms Some k1 a False by (auto simp: allocproc_def)
    have "quiet ?k k'" unfolding k'(2) by (rule quiet_trans [OF quiet_mem(3) quiet_upd]) (simp add: seat_def life_of_def)
    then have "reseat i (?s Alive) k k'" "k_files k' = k_files k" using reseat_same [OF r] r1(2) by (auto simp: quiet_def)
    then show ?thesis using k'(1) i by simp
  qed
qed

section \<open>fork\<close>

lemma forM_inv:
  assumes "forM [a..<b] f s = Inr s'" "a \<le> b" "I a s"
    "\<And>i s s'. a \<le> i \<Longrightarrow> i < b \<Longrightarrow> I i s \<Longrightarrow> f i s = Inr s' \<Longrightarrow> I (Suc i) s'"
  shows "I b s'"
  using assms
proof (induction b arbitrary: s')
  case (Suc b)
  show ?case
  proof (cases "a \<le> b")
    case True
    then obtain s1 where s1: "forM [a..<b] f s = Inr s1" "f b s1 = Inr s'"
      using Suc.prems(1) by (auto simp: forM_append bindr_eq_Inr)
    then have "I b s1" using Suc.IH [OF s1(1) True] Suc.prems(3,4) by auto
    then show ?thesis using Suc.prems(4) s1(2) True by blast
  qed (use Suc.prems in \<open>auto simp: le_Suc_eq\<close>)
qed auto

lemma quiet_bump: "bump_refcount c g k = Inr k' \<Longrightarrow> quiet k k'"
  by (auto simp: bump_refcount_def quiet_def same_seats_def on_mem_def elim!: bindr_InrE split: option.splits)

lemma quiet_fork_shm:
  assumes "fork_shm c np i k = Inr k'"
  shows "quiet k k'"
proof -
  have "quiet k (upd_proc np (\<lambda>p. p\<lparr>p_shm := x p\<rparr>) k)" for x by (rule quiet_upd) (simp add: seat_def life_of_def)
  then show ?thesis using assms quiet_bump quiet_trans
    by (fastforce simp: fork_shm_def Let_def elim!: bindr_InrE split: if_splits)
qed

lemma quiet_forM:
  assumes "forM [a..<b] f k = Inr k'" "\<And>i k k'. f i k = Inr k' \<Longrightarrow> quiet k k'"
  shows "quiet k k'"
proof (cases "a \<le> b")
  case True
  show ?thesis by (rule forM_inv [OF assms(1) True, of "\<lambda>_. quiet k"]) (auto intro: quiet_trans assms(2))
qed (use assms(1) in simp)

lemma quiet_fork_prio:
  assumes "fork_prio c np k = Inr k'"
  shows "quiet k k'"
  using assms unfolding fork_prio_def Let_def
  by (auto elim!: bindr_InrE dest!: quiet_prio intro: quiet_trans split: if_splits)

text \<open>
  Giving the child its files: the descriptors of np are filled in from those of c, with one more
  reference for each.
\<close>

definition fork_files_at :: "nat \<Rightarrow> nat \<Rightarrow> kern \<Rightarrow> nat \<Rightarrow> kern \<Rightarrow> bool" where
  "fork_files_at c np k0 i k \<longleftrightarrow> (\<exists>fds. reseat np (fds, snd (seat (proc_at np k0))) k0 k) \<and>
     (file_inv k0 \<and> (\<forall>j<NOFILE. p_ofile (proc_at np k0) ! j = None) \<longrightarrow>
        file_inv k \<and> (\<forall>j. i \<le> j \<and> j < NOFILE \<longrightarrow> p_ofile (proc_at np k) ! j = None))"

lemma reseat_ofile: "reseat np (fds, x) k k' \<Longrightarrow> np < length (k_procs k) \<Longrightarrow> p_ofile (proc_at np k') = fds"
  using reseat_nth [of np "(fds, x)" k k' np] by (simp add: seat_def life_of_def)

lemma set_ofile_reseat:
  assumes "np < length (k_procs k)"
  shows "reseat np ((p_ofile (proc_at np k))[i := v], snd (seat (proc_at np k))) k (set_ofile np i v k)"
  using reseat_upd [of np "\<lambda>p. p\<lparr>p_ofile := (p_ofile p)[i := v]\<rparr>" k] by (simp add: set_ofile_def seat_def life_of_def)

lemma fork_file_step:
  assumes "fork_files_at c np k0 i k" "fork_file c np i k = Inr k'" "np < length (k_procs k0)" "c < length (k_procs k0)" "i < NOFILE"
  shows "fork_files_at c np k0 (Suc i) k'"
proof (cases "p_ofile (proc_at c k) ! i")
  case None
  then show ?thesis using assms(1,2) by (auto simp: fork_file_def fork_files_at_def)
next
  case (Some f)
  obtain fds where r: "reseat np (fds, snd (seat (proc_at np k0))) k0 k" using assms(1) by (auto simp: fork_files_at_def)
  note len = reseat_length [OF r]
  obtain k1 where k1: "filedup f k = Inr k1" "k' = set_ofile np i (Some f) k1" using assms(2) Some by (auto simp: fork_file_def bindr_eq_Inr)
  have p1: "k_procs k1 = k_procs k" using k1(1) by (auto simp: filedup_def split: if_splits)
  have r1: "reseat np (fds, snd (seat (proc_at np k0))) k0 k1" by (rule reseat_same [OF r seats_filedup [OF k1(1)]])
  have np1: "np < length (k_procs k1)" using assms(3) len p1 by simp
  have "snd (seat (proc_at np k1)) = snd (seat (proc_at np k0))" using reseat_nth [OF r1 assms(3,3)] by simp
  then have r2: "\<exists>fds. reseat np (fds, snd (seat (proc_at np k0))) k0 k'"
    using reseat_twice [OF r1] set_ofile_reseat [OF np1, of i "Some f"] k1(2) by metis
  have "file_inv k' \<and> (\<forall>j. Suc i \<le> j \<and> j < NOFILE \<longrightarrow> p_ofile (proc_at np k') ! j = None)"
    if "file_inv k0" "\<forall>j<NOFILE. p_ofile (proc_at np k0) ! j = None"
  proof -
    have b: "file_bal k (\<lambda>_. 0)" "\<And>j. i \<le> j \<Longrightarrow> j < NOFILE \<Longrightarrow> p_ofile (proc_at np k) ! j = None"
      using assms(1) that by (auto simp: fork_files_at_def file_inv_def)
    have "length (p_ofile (proc_at c k)) = NOFILE" "\<forall>f. Some f \<in> set (p_ofile (proc_at c k)) \<longrightarrow> f < NFILE"
      using b(1) assms(4) len nth_mem [of c "k_procs k"] unfolding file_bal_def ofile_ok_def by auto
    then have f: "f < NFILE" using Some assms(5) nth_mem by metis
    have b1: "file_bal k1 (inc f (\<lambda>_. 0))" using filedup_bal [OF b(1) f k1(1)] by simp
    have "file_bal k' (\<lambda>j. (inc f (\<lambda>_. 0)) j + of_bool (p_ofile (proc_at np k1) ! i = Some j) - of_bool (Some f = Some j))"
      unfolding k1(2) by (rule set_ofile_bal [OF b1 np1 assms(5)]) (use f in auto)
    moreover have "(\<lambda>j. (inc f (\<lambda>_. 0)) j + of_bool (p_ofile (proc_at np k1) ! i = Some j) - of_bool (Some f = Some j)) = (\<lambda>_. 0 :: int)"
      using b(2) [of i] assms(5) p1 by (auto simp: fun_eq_iff)
    ultimately have "file_inv k'" by (simp add: file_inv_def)
    then show ?thesis using b(2) k1(2) p1 np1 by (auto simp: set_ofile_def upd_proc_def)
  qed
  then show ?thesis using r2 by (simp add: fork_files_at_def)
qed

lemma fork_files_all:
  assumes "forM [0..<NOFILE] (fork_file c np) k = Inr k'" "np < length (k_procs k)" "c < length (k_procs k)"
  shows "fork_files_at c np k NOFILE k'"
proof (rule forM_inv [OF assms(1)])
  show "fork_files_at c np k 0 k"
    unfolding fork_files_at_def by (auto simp: reseat_def seat_def life_of_def intro!: exI [of _ "p_ofile (proc_at np k)"])
      (metis assms(2) list_update_id nth_map seat_def life_of_def)
qed (use assms fork_file_step in auto)

lemma fork_child_steps:
  assumes "fork_child c np d k = Inr (r, k')"
  shows "\<exists>k4 k5 k9. quiet (upd_proc np (\<lambda>p. p\<lparr>p_pgdir := d, p_sz := p_sz (proc_at c k), p_parent := Some c,
      p_container := p_container (proc_at c k), p_container_id := p_container_id (proc_at c k)\<rparr>) k) k4 \<and>
    forM [0..<NOFILE] (fork_file c np) k4 = Inr k5 \<and> quiet k5 k9 \<and> k' = upd_proc np (\<lambda>p. p\<lparr>p_state := RUNNABLE\<rparr>) k9"
proof -
  let ?k1 = "upd_proc np (\<lambda>p. p\<lparr>p_pgdir := d, p_sz := p_sz (proc_at c k), p_parent := Some c,
      p_container := p_container (proc_at c k), p_container_id := p_container_id (proc_at c k)\<rparr>) k"
  let ?k2 = "on_mem_pure (\<lambda>m. m\<lparr>kmem_mem := memmove (kmem_mem m) (p_tf (proc_at np ?k1)) (p_tf (proc_at c k)) 76\<rparr>) ?k1"
  obtain k3 where k3: "forM [0..<SHM_MAXNUM] (fork_shm c np) ?k2 = Inr k3" using assms by (auto simp: fork_child_def Let_def elim!: bindr_InrE)
  let ?k4 = "on_mem_pure (wr32 (p_tf (proc_at np k3) + 28) 0) k3"
  have q4: "quiet ?k1 ?k4" using quiet_trans [OF quiet_trans [OF quiet_mem(3) quiet_forM [OF k3 quiet_fork_shm]] quiet_mem(3)] by simp
  obtain k5 where k5: "forM [0..<NOFILE] (fork_file c np) ?k4 = Inr k5" using assms k3 by (auto simp: fork_child_def Let_def elim!: bindr_InrE)
  obtain cwd k6 where k6: "on_fs_r (dup_or_null (p_cwd (proc_at c k5))) k5 = Inr (cwd, k6)"
    using assms k3 k5 by (auto simp: fork_child_def Let_def elim!: bindr_InrE)
  let ?k7 = "upd_proc np (\<lambda>p. p\<lparr>p_cwd := Some cwd\<rparr>) k6"
  obtain nm where nm: "fork_name c np ?k7 = Inr nm" using assms k3 k5 k6 by (auto simp: fork_child_def Let_def elim!: bindr_InrE)
  let ?k8 = "upd_proc np (\<lambda>p. p\<lparr>p_name := nm\<rparr>) ?k7"
  obtain k9 where k9: "fork_prio c np ?k8 = Inr k9" "k' = upd_proc np (\<lambda>p. p\<lparr>p_state := RUNNABLE\<rparr>) k9"
    using assms k3 k5 k6 nm by (auto simp: fork_child_def Let_def elim!: bindr_InrE)
  have "quiet k5 ?k7" by (rule quiet_trans [OF quiet_fs(2) [OF k6] quiet_upd]) (simp add: seat_def life_of_def)
  moreover have "quiet ?k7 ?k8" by (rule quiet_upd) (simp add: seat_def life_of_def)
  ultimately have "quiet k5 k9" using quiet_fork_prio [OF k9(1)] quiet_trans by blast
  then show ?thesis using q4 k5 k9(2) by blast
qed

lemma fork_child_reseat:
  assumes "fork_child c np d k = Inr (r, k')" "c < length (k_procs k)" "np < length (k_procs k)" "c \<noteq> np" "life_of (proc_at np k) = Alive"
  shows "(\<exists>fds. reseat np (fds, Alive, Some c, p_container (proc_at c k), p_container_id (proc_at c k)) k k') \<and>
    (file_inv k \<and> (\<forall>j<NOFILE. p_ofile (proc_at np k) ! j = None) \<longrightarrow> file_inv k')"
proof -
  let ?g = "\<lambda>p. p\<lparr>p_pgdir := d, p_sz := p_sz (proc_at c k), p_parent := Some c,
      p_container := p_container (proc_at c k), p_container_id := p_container_id (proc_at c k)\<rparr>"
  let ?t = "(Alive, Some c, p_container (proc_at c k), p_container_id (proc_at c k))"
  obtain k4 k5 k9 where k: "quiet (upd_proc np ?g k) k4" "forM [0..<NOFILE] (fork_file c np) k4 = Inr k5" "quiet k5 k9"
    "k' = upd_proc np (\<lambda>p. p\<lparr>p_state := RUNNABLE\<rparr>) k9" using fork_child_steps [OF assms(1)] by blast
  have r4: "reseat np (p_ofile (proc_at np k), ?t) k k4"
    using reseat_same [OF reseat_upd quiet_seats [OF k(1)]] assms(5) by (simp add: seat_def life_of_def)
  have len: "length (k_procs k4) = length (k_procs k)" by (rule reseat_length [OF r4])
  have s4: "seat (proc_at np k4) = (p_ofile (proc_at np k), ?t)" using reseat_nth [OF r4 assms(3,3)] by simp
  have fa: "fork_files_at c np k4 NOFILE k5" by (rule fork_files_all [OF k(2)]) (use assms(2,3) len in auto)
  obtain fds where r5: "reseat np (fds, ?t) k4 k5" using fa s4 by (auto simp: fork_files_at_def)
  have r9: "reseat np (fds, ?t) k k9" by (rule reseat_same [OF reseat_twice [OF r4 r5] quiet_seats [OF k(3)]])
  have "seat (proc_at np k9) = (fds, ?t)" using reseat_nth [OF r9 assms(3,3)] by simp
  then have q: "quiet k9 k'" unfolding k(4) by (intro quiet_upd) (simp add: seat_def life_of_def)
  have "file_inv k'" if "file_inv k" "\<forall>j<NOFILE. p_ofile (proc_at np k) ! j = None"
  proof -
    have "fd_same k (upd_proc np ?g k)" using map_upd_same [of p_ofile "?g (proc_at np k)" "k_procs k" np] by (simp add: fd_same_def upd_proc_def)
    then have f: "fd_same k k4" by (rule fd_same_trans [OF _ quiet_fd [OF k(1)]])
    have "file_inv k4" using that(1) file_bal_same [OF f] by (simp add: file_inv_def)
    moreover have "p_ofile (proc_at np k4) = p_ofile (proc_at np k)" by (rule fd_same_ofile [OF f assms(3)])
    ultimately have "file_inv k5" using fa that(2) by (simp add: fork_files_at_def)
    then show ?thesis using file_bal_same [OF quiet_fd [OF quiet_trans [OF k(3) q]]] by (simp add: file_inv_def)
  qed
  then show ?thesis using reseat_same [OF r9 quiet_seats [OF q]] by blast
qed

text \<open>The three outcomes of fork, after the place in the container has been taken.\<close>

definition fork_outcome :: "nat \<Rightarrow> kern \<Rightarrow> int \<Rightarrow> kern \<Rightarrow> bool" where
  "fork_outcome c k r k' \<longleftrightarrow>
     r = -1 \<and> (same_seats k k' \<or> (\<exists>i par con fds. i < length (k_procs k) \<and> p_state (proc_at i k) = UNUSED \<and> fds = p_ofile (proc_at i k) \<and>
        reseat i (fds, Free, par, con, 0) k k')) \<and> (file_inv k \<longrightarrow> file_inv k') \<or>
     (\<exists>np fds. np < length (k_procs k) \<and> p_state (proc_at np k) = UNUSED \<and>
        reseat np (fds, Alive, Some c, p_container (proc_at c k), p_container_id (proc_at c k)) k k' \<and>
        (file_inv k \<and> (\<forall>j<NOFILE. p_ofile (proc_at np k) ! j = None) \<longrightarrow> file_inv k'))"

lemma reseat_fd:
  assumes "reseat i (p_ofile (proc_at i k), x) k k'" "k_files k' = k_files k" "i < length (k_procs k)"
  shows "fd_same k k'"
proof -
  have "map fst (seats k') = map fst ((seats k)[i := (p_ofile (proc_at i k), x)])" using assms(1) by (simp add: reseat_def)
  also have "\<dots> = map fst (seats k)" by (rule map_upd_same) (use assms(3) in \<open>simp add: seat_def life_of_def\<close>)
  finally show ?thesis using assms(2) by (simp add: fd_same_def seat_def life_of_def comp_def)
qed

lemma fork_reserved:
  assumes "fork_reserve c k0 = Inr (True, k)" "fork e c k0 = Inr (r, k')" "c < length (k_procs k)" "p_state (proc_at c k) \<noteq> UNUSED"
  shows "fork_outcome c k r k'"
proof -
  obtain npo k1 where a: "allocproc e (p_priority (proc_at c k)) k = Inr (npo, k1)"
    using assms(1,2) by (auto simp: fork_def elim!: bindr_InrE)
  note al = allocproc_reseat [OF a]
  show ?thesis
  proof (cases npo)
    case None
    then have k': "r = -1" "k' = k1" using assms(1,2) a by (auto simp: fork_def)
    from al None consider "same_seats k k1" | i where "i < length (k_procs k)" "p_state (proc_at i k) = UNUSED"
      "reseat i (p_ofile (proc_at i k), Free, p_parent (proc_at i k), p_container (proc_at i k), 0) k k1" by auto
    then show ?thesis
    proof cases
      case 1
      then have "fd_same k k1" using al seats_ofile by (simp add: fd_same_def)
      then show ?thesis using 1 k' file_bal_same by (auto simp: fork_outcome_def file_inv_def)
    next
      case 2
      then have "fd_same k k1" using reseat_fd al by blast
      then show ?thesis using 2 k' file_bal_same by (auto simp: fork_outcome_def file_inv_def)
    qed
  next
    case (Some np)
    then have np: "np < length (k_procs k)" "p_state (proc_at np k) = UNUSED"
      "reseat np (p_ofile (proc_at np k), Alive, p_parent (proc_at np k), p_container (proc_at np k), 0) k k1" using al by auto
    have cn: "c \<noteq> np" using assms(4) np(2) by auto
    have fd1: "fd_same k k1" using reseat_fd [OF np(3) _ np(1)] al by simp
    obtain d k2 where k2: "on_mem_r (copyuvm (e_kdata e) (e_kend e) (proc_at c k1) (k_shl k1) (p_pgdir (proc_at c k1)) (p_sz (proc_at c k1))) k1 = Inr (d, k2)"
      using assms(1,2) a Some by (auto simp: fork_def elim!: bindr_InrE)
    have q2: "quiet k1 k2" by (rule quiet_mem(2) [OF k2])
    have r2: "reseat np (p_ofile (proc_at np k), Alive, p_parent (proc_at np k), p_container (proc_at np k), 0) k k2"
      by (rule reseat_same [OF np(3) quiet_seats [OF q2]])
    note len = reseat_length [OF r2]
    have sn: "seat (proc_at np k2) = (p_ofile (proc_at np k), Alive, p_parent (proc_at np k), p_container (proc_at np k), 0)"
      and sc: "seat (proc_at c k2) = seat (proc_at c k)"
      using reseat_nth [OF r2 np(1)] np(1) assms(3) cn by auto
    have fd2: "fd_same k k2" by (rule fd_same_trans [OF fd1 quiet_fd [OF q2]])
    show ?thesis
    proof (cases "d = 0")
      case True
      let ?f = "\<lambda>p. p\<lparr>p_pgdir := 0, p_kstack := 0, p_state := UNUSED\<rparr>"
      obtain k3 where k3: "on_mem (kfree (e_kend e) (p_kstack (proc_at np k2))) k2 = Inr k3" "r = -1" "k' = upd_proc np ?f k3"
        using assms(1,2) a Some k2 True by (auto simp: fork_def elim!: bindr_InrE)
      have q3: "quiet k2 k3" by (rule quiet_mem(1) [OF k3(1)])
      have r3: "reseat np (p_ofile (proc_at np k), Alive, p_parent (proc_at np k), p_container (proc_at np k), 0) k k3"
        by (rule reseat_same [OF r2 quiet_seats [OF q3]])
      have "seat (?f (proc_at np k3)) = (p_ofile (proc_at np k), Free, p_parent (proc_at np k), p_container (proc_at np k), 0)"
        using reseat_nth [OF r3 np(1,1)] by (simp add: seat_def life_of_def)
      then have r': "reseat np (p_ofile (proc_at np k), Free, p_parent (proc_at np k), p_container (proc_at np k), 0) k k'"
        unfolding k3(3) using reseat_twice [OF r3 reseat_upd [of np ?f k3]] by simp
      have "k_files k' = k_files k" using fd2 q3 k3(3) by (simp add: fd_same_def quiet_def)
      then have "fd_same k k'" using reseat_fd [OF r' _ np(1)] by simp
      then show ?thesis using r' np k3(2) file_bal_same by (auto simp: fork_outcome_def file_inv_def)
    next
      case False
      then have ch: "fork_child c np d k2 = Inr (r, k')" using assms(1,2) a Some k2 by (auto simp: fork_def)
      have "life_of (proc_at np k2) = Alive" using sn by (simp add: seat_def life_of_def)
      note fc = fork_child_reseat [OF ch _ _ cn this]
      have "p_container (proc_at c k2) = p_container (proc_at c k)" "p_container_id (proc_at c k2) = p_container_id (proc_at c k)"
        "p_ofile (proc_at np k2) = p_ofile (proc_at np k)" using sc sn by (simp_all add: seat_def life_of_def)
      note eqs = this
      obtain fds where "reseat np (fds, Alive, Some c, p_container (proc_at c k), p_container_id (proc_at c k)) k2 k'"
        "file_inv k2 \<and> (\<forall>j<NOFILE. p_ofile (proc_at np k) ! j = None) \<longrightarrow> file_inv k'" using fc assms(3) np(1) len eqs by auto
      then have "reseat np (fds, Alive, Some c, p_container (proc_at c k), p_container_id (proc_at c k)) k k'"
        "file_inv k \<and> (\<forall>j<NOFILE. p_ofile (proc_at np k) ! j = None) \<longrightarrow> file_inv k'"
        using reseat_twice [OF r2] file_bal_same [OF fd2] by (auto simp: file_inv_def)
      then show ?thesis using np(1,2) unfolding fork_outcome_def by blast
    qed
  qed
qed

section \<open>exit\<close>

definition exit_files_at :: "nat \<Rightarrow> kern \<Rightarrow> nat \<Rightarrow> kern \<Rightarrow> bool" where
  "exit_files_at c k0 i k \<longleftrightarrow> (\<exists>fds. length fds = length (p_ofile (proc_at c k0)) \<and> (\<forall>j<i. j < length fds \<longrightarrow> fds ! j = None) \<and>
     reseat c (fds, snd (seat (proc_at c k0))) k0 k) \<and> (file_inv k0 \<longrightarrow> file_inv k)"

lemma exit_file_step:
  assumes "exit_files_at c k0 i k" "exit_file e c i k = Inr k'" "c < length (k_procs k0)" "i < NOFILE"
  shows "exit_files_at c k0 (Suc i) k'"
proof -
  obtain fds where r: "length fds = length (p_ofile (proc_at c k0))" "\<forall>j<i. j < length fds \<longrightarrow> fds ! j = None"
    "reseat c (fds, snd (seat (proc_at c k0))) k0 k" and inv: "file_inv k0 \<longrightarrow> file_inv k" using assms(1) by (auto simp: exit_files_at_def)
  note len = reseat_length [OF r(3)]
  have of_k: "p_ofile (proc_at c k) = fds" by (rule reseat_ofile [OF r(3) assms(3)])
  show ?thesis
  proof (cases "fds ! i")
    case None
    then have "k' = k" using assms(2) of_k by (simp add: exit_file_def)
    then show ?thesis using r inv None less_Suc_eq unfolding exit_files_at_def by metis
  next
    case (Some f)
    obtain k1 where k1: "fileclose e (pid_of c k) f k = Inr k1" "k' = set_ofile c i None k1"
      using assms(2) of_k Some by (auto simp: exit_file_def bindr_eq_Inr)
    have r1: "reseat c (fds, snd (seat (proc_at c k0))) k0 k1" by (rule reseat_same [OF r(3) seats_fileclose [OF k1(1)]])
    have c1: "c < length (k_procs k1)" using assms(3) reseat_length [OF r1] by simp
    have s1: "seat (proc_at c k1) = (fds, snd (seat (proc_at c k0)))" using reseat_nth [OF r1 assms(3,3)] by simp
    have o1: "p_ofile (proc_at c k1) = fds" using s1 by (simp add: seat_def)
    have rr: "reseat c (fds[i := None], snd (seat (proc_at c k0))) k0 k'"
      using reseat_twice [OF r1] set_ofile_reseat [OF c1, of i None] k1(2) s1 o1 by simp
    have "file_inv k'" if "file_inv k0"
    proof -
      have b: "file_bal k (\<lambda>_. 0)" using inv that by (simp add: file_inv_def)
      have "length fds = NOFILE" "\<forall>f. Some f \<in> set fds \<longrightarrow> f < NFILE"
        using b assms(3) len nth_mem [of c "k_procs k"] of_k unfolding file_bal_def ofile_ok_def by auto
      then have f: "f < NFILE" using Some assms(4) nth_mem by metis
      have b1: "file_bal k1 ((\<lambda>_. 0)(f := -1))" using fileclose_bal [OF b f k1(1)] by simp
      have "file_bal k' (((\<lambda>_. 0)(f := -1))(f := ((\<lambda>_. 0)(f := -1)) f + 1))"
        unfolding k1(2) by (rule clear_ofile_bal [OF b1 c1 assms(4)]) (use o1 Some in simp)
      then show ?thesis by (simp add: file_inv_def)
    qed
    then show ?thesis using rr r(1,2) unfolding exit_files_at_def by (auto simp: nth_list_update less_Suc_eq intro!: exI [of _ "fds[i := None]"])
  qed
qed

lemma exit_files_all:
  assumes "forM [0..<NOFILE] (exit_file e c) k = Inr k'" "c < length (k_procs k)"
  shows "exit_files_at c k NOFILE k'"
proof (rule forM_inv [OF assms(1)])
  show "exit_files_at c k 0 k"
    unfolding exit_files_at_def by (auto simp: reseat_def seat_def intro!: exI [of _ "p_ofile (proc_at c k)"])
      (metis assms(2) list_update_id nth_map seat_def)
qed (use assms exit_file_step in auto)

lemma quiet_exit_shm: "exit_shm e c i k = Inr k' \<Longrightarrow> quiet k k'"
  by (auto simp: exit_shm_def Let_def elim!: bindr_InrE dest: quiet_shm split: if_splits)

lemma quiet_exit_mutex: "exit_mutex c i k = Inr k' \<Longrightarrow> quiet k k'"
  by (auto simp: exit_mutex_def dest: quiet_mutex split: option.splits)

text \<open>What exit does in the process table, entry by entry.\<close>

definition asleep_in_wait :: "proc list \<Rightarrow> nat \<Rightarrow> bool" where
  "asleep_in_wait ps q \<longleftrightarrow> q < length ps \<and> p_state (ps ! q) = SLEEPING \<and> p_chan (ps ! q) = Some (CProc q)"

lemma wakeup1_nth:
  "j < length ps \<Longrightarrow> seat (wakeup1 ch ps ! j) = seat (ps ! j)" "length (wakeup1 ch ps) = length ps"
  "\<not> asleep_in_wait (wakeup1 (CProc q) ps) q" "\<not> asleep_in_wait ps q' \<Longrightarrow> \<not> asleep_in_wait (wakeup1 ch ps) q'"
  by (auto simp: wakeup1_def seat_def life_of_def asleep_in_wait_def split: if_splits)

definition moved :: "nat \<Rightarrow> nat option \<Rightarrow> proc \<Rightarrow> proc" where
  "moved c ini p = (if p_parent p = Some c then p\<lparr>p_parent := ini\<rparr> else p)"

lemma reparent_nth:
  assumes "i < length ps"
  shows "length (reparent c ini i ps) = length ps"
    "j < length ps \<Longrightarrow> seat (reparent c ini i ps ! j) = seat (if j = i then moved c ini (ps ! j) else ps ! j)"
    "\<not> asleep_in_wait ps q \<Longrightarrow> \<not> asleep_in_wait (reparent c ini i ps) q"
    "p_parent (ps ! i) = Some c \<Longrightarrow> p_state (ps ! i) = ZOMBIE \<Longrightarrow> ini = Some z \<Longrightarrow> \<not> asleep_in_wait (reparent c ini i ps) z"
proof -
  let ?ps = "ps[i := (ps ! i)\<lparr>p_parent := ini\<rparr>]"
  have sl: "asleep_in_wait ?ps q = asleep_in_wait ps q" for q by (auto simp: asleep_in_wait_def nth_upd)
  show "length (reparent c ini i ps) = length ps" by (simp add: reparent_def Let_def wakeup1_nth split: option.splits)
  show "seat (reparent c ini i ps ! j) = seat (if j = i then moved c ini (ps ! j) else ps ! j)" if "j < length ps"
    using that assms by (auto simp: reparent_def Let_def moved_def wakeup1_nth split: option.splits)
  show "\<not> asleep_in_wait (reparent c ini i ps) q" if "\<not> asleep_in_wait ps q"
    using that sl wakeup1_nth(4) by (auto simp: reparent_def Let_def split: option.splits if_splits)
  show "\<not> asleep_in_wait (reparent c ini i ps) z" if "p_parent (ps ! i) = Some c" "p_state (ps ! i) = ZOMBIE" "ini = Some z"
    using that assms wakeup1_nth(3) by (simp add: reparent_def Let_def)
qed

lemma seat_moved: "seat p = seat q \<Longrightarrow> seat (moved c ini p) = seat (moved c ini q)"
  by (simp add: moved_def seat_def life_of_def)

lemma life_Dead: "life_of p = Dead \<longleftrightarrow> p_state p = ZOMBIE" "life_of p = Free \<longleftrightarrow> p_state p = UNUSED"
  by (simp_all add: life_of_def split: procstate.splits)

lemma seat_eqD:
  assumes "seat p = seat q"
  shows "p_ofile p = p_ofile q" "life_of p = life_of q" "p_parent p = p_parent q" "p_container p = p_container q"
    "p_container_id p = p_container_id q" "p_state p = ZOMBIE \<longleftrightarrow> p_state q = ZOMBIE" "p_state p = UNUSED \<longleftrightarrow> p_state q = UNUSED"
  using assms by (auto simp: seat_def simp flip: life_Dead)

lemma reparent_all:
  assumes "n \<le> length ps"
  shows "length (fold (reparent c ini) [0..<n] ps) = length ps \<and>
    (\<forall>j<length ps. seat (fold (reparent c ini) [0..<n] ps ! j) = seat (if j < n then moved c ini (ps ! j) else ps ! j)) \<and>
    (\<forall>q. \<not> asleep_in_wait ps q \<longrightarrow> \<not> asleep_in_wait (fold (reparent c ini) [0..<n] ps) q) \<and>
    (\<forall>z. ini = Some z \<and> (\<exists>i<n. p_parent (ps ! i) = Some c \<and> p_state (ps ! i) = ZOMBIE) \<longrightarrow>
       \<not> asleep_in_wait (fold (reparent c ini) [0..<n] ps) z)"
  using assms
proof (induction n)
  case (Suc n)
  let ?ps = "fold (reparent c ini) [0..<n] ps"
  have IH: "length ?ps = length ps" "\<And>j. j < length ps \<Longrightarrow> seat (?ps ! j) = seat (if j < n then moved c ini (ps ! j) else ps ! j)"
    "\<And>q. \<not> asleep_in_wait ps q \<Longrightarrow> \<not> asleep_in_wait ?ps q"
    "\<And>z i. ini = Some z \<Longrightarrow> i < n \<Longrightarrow> p_parent (ps ! i) = Some c \<Longrightarrow> p_state (ps ! i) = ZOMBIE \<Longrightarrow> \<not> asleep_in_wait ?ps z"
    using Suc by auto
  have n: "n < length ?ps" using Suc.prems IH(1) by simp
  have sn: "seat (?ps ! n) = seat (ps ! n)" using IH(2) [of n] n IH(1) by simp
  note R = reparent_nth [OF n, where c = c and ini = ini]
  have st: "seat (reparent c ini n ?ps ! j) = seat (if j < Suc n then moved c ini (ps ! j) else ps ! j)" if "j < length ps" for j
    using R(2) [of j] IH(1) IH(2) [OF that] that seat_moved [OF sn, of c ini] by (cases "j = n") (auto simp: less_Suc_eq)
  have "\<not> asleep_in_wait (reparent c ini n ?ps) z" if "ini = Some z" "i < Suc n" "p_parent (ps ! i) = Some c" "p_state (ps ! i) = ZOMBIE" for z i
  proof (cases "i = n")
    case True
    then show ?thesis using R(4) [of z] that seat_eqD(3,6) [OF sn] by simp
  next
    case False
    then have "\<not> asleep_in_wait ?ps z" using IH(4) [of z i] that by simp
    then show ?thesis by (rule R(3))
  qed
  then show ?case using R(1) R(3) IH(1,3) st by auto
qed simp

lemma exit_table_nth:
  assumes "c < length ps" "ini \<noteq> Some c" "p_state (ps ! c) \<noteq> UNUSED"
  shows "length (exit_table c ini ps) = length ps"
    "j < length ps \<Longrightarrow> seat (exit_table c ini ps ! j) =
       (p_ofile (ps ! j), if j = c then Dead else life_of (ps ! j), if p_parent (ps ! j) = Some c then ini else p_parent (ps ! j),
        p_container (ps ! j), p_container_id (ps ! j))"
    "p_parent (ps ! c) = Some q \<Longrightarrow> \<not> asleep_in_wait (exit_table c ini ps) q"
    "ini = Some z \<Longrightarrow> j < length ps \<Longrightarrow> p_parent (ps ! j) = Some c \<Longrightarrow> p_state (ps ! j) = ZOMBIE \<Longrightarrow>
       \<not> asleep_in_wait (exit_table c ini ps) z"
    "p_state (exit_table c ini ps ! c) = ZOMBIE"
proof -
  define w where "w = (case p_parent (ps ! c) of Some i \<Rightarrow> wakeup1 (CProc i) ps | None \<Rightarrow> ps)"
  define f where "f = fold (reparent c ini) [0..<length w] w"
  have lw: "length w = length ps" and sw: "\<And>j. j < length ps \<Longrightarrow> seat (w ! j) = seat (ps ! j)"
    by (auto simp: w_def wakeup1_nth split: option.splits)
  note R = reparent_all [where n = "length w" and ps = w and c = c and ini = ini, OF order_refl, folded f_def]
  have ex: "exit_table c ini ps = f[c := (f ! c)\<lparr>p_state := ZOMBIE\<rparr>]" by (simp add: exit_table_def Let_def f_def w_def)
  have lf: "length f = length ps" using R lw by simp
  show "length (exit_table c ini ps) = length ps" by (simp only: ex lf length_list_update)
  have sf: "seat (f ! j) = seat (moved c ini (ps ! j))" if "j < length ps" for j
    using R lw that seat_moved [OF sw [OF that], of c ini] by simp
  have sl: "asleep_in_wait (exit_table c ini ps) q \<Longrightarrow> asleep_in_wait f q" for q
    unfolding ex by (auto simp: asleep_in_wait_def nth_upd split: if_splits)
  show "seat (exit_table c ini ps ! j) =
       (p_ofile (ps ! j), if j = c then Dead else life_of (ps ! j), if p_parent (ps ! j) = Some c then ini else p_parent (ps ! j),
        p_container (ps ! j), p_container_id (ps ! j))" if "j < length ps"
    using sf [OF that] that lf unfolding ex by (auto simp: nth_upd seat_def moved_def life_of_def split: if_splits)
  show "\<not> asleep_in_wait (exit_table c ini ps) q" if "p_parent (ps ! c) = Some q"
    using that R wakeup1_nth(3) [of q ps] sl by (auto simp: w_def)
  show "\<not> asleep_in_wait (exit_table c ini ps) z" if "ini = Some z" "j < length ps" "p_parent (ps ! j) = Some c" "p_state (ps ! j) = ZOMBIE"
    using R lw that seat_eqD(3,6) [OF sw [OF that(2)]] sl by metis
  show "p_state (exit_table c ini ps ! c) = ZOMBIE" using assms(1) lf unfolding ex by simp
qed

lemma exit_steps:
  assumes "exit e c k = Inr k'"
  shows "\<exists>k1 k5. k_initproc k \<noteq> Some c \<and> forM [0..<NOFILE] (exit_file e c) k = Inr k1 \<and> quiet k1 k5 \<and>
    k' = k5\<lparr>k_procs := exit_table c (k_initproc k5) (k_procs k5)\<rparr>"
proof -
  have i: "k_initproc k \<noteq> Some c" using assms by (auto simp: exit_def)
  obtain k1 where k1: "forM [0..<NOFILE] (exit_file e c) k = Inr k1" using assms i by (auto simp: exit_def elim!: bindr_InrE)
  obtain k2 where k2: "forM [0..<SHM_MAXNUM] (exit_shm e c) k1 = Inr k2" using assms i k1 by (auto simp: exit_def elim!: bindr_InrE)
  obtain k3 where k3: "forM [0..<MUX_MAXNUM] (exit_mutex c) k2 = Inr k3" using assms i k1 k2 by (auto simp: exit_def elim!: bindr_InrE)
  obtain k4 where k4: "on_fs (put_in_op (pid_of c k3) (p_cwd (proc_at c k3))) k3 = Inr k4"
    using assms i k1 k2 k3 by (auto simp: exit_def elim!: bindr_InrE)
  let ?k5 = "upd_proc c (\<lambda>p. p\<lparr>p_cwd := None\<rparr>) k4"
  have "quiet k4 ?k5" by (rule quiet_upd) (simp add: seat_def life_of_def)
  moreover have "quiet k1 k2" by (rule quiet_forM [OF k2]) (rule quiet_exit_shm)
  moreover have "quiet k2 k3" by (rule quiet_forM [OF k3]) (rule quiet_exit_mutex)
  ultimately have "quiet k1 ?k5" using quiet_fs(1) [OF k4] quiet_trans by blast
  moreover have "k' = ?k5\<lparr>k_procs := exit_table c (k_initproc ?k5) (k_procs ?k5)\<rparr>"
    using assms i k1 k2 k3 k4 by (simp add: exit_def Let_def)
  ultimately show ?thesis using i k1 by blast
qed

definition exited_seat :: "nat \<Rightarrow> nat option \<Rightarrow> nat \<Rightarrow> proc \<Rightarrow> nat option list \<times> life \<times> nat option \<times> nat option \<times> u32" where
  "exited_seat c ini j p = (if j = c then replicate NOFILE None else p_ofile p, if j = c then Dead else life_of p,
     if p_parent p = Some c then ini else p_parent p, p_container p, p_container_id p)"

lemma exit_seats:
  assumes "exit e c k = Inr k'" "c < length (k_procs k)" "p_state (proc_at c k) \<noteq> UNUSED" "length (p_ofile (proc_at c k)) = NOFILE"
  shows "k_initproc k \<noteq> Some c" "length (k_procs k') = length (k_procs k)" "k_cont k' = k_cont k" "k_initproc k' = k_initproc k"
    "j < length (k_procs k) \<Longrightarrow> seat (proc_at j k') = exited_seat c (k_initproc k) j (proc_at j k)"
    "p_state (proc_at c k') = ZOMBIE"
    "p_parent (proc_at c k) = Some q \<Longrightarrow> \<not> asleep_in_wait (k_procs k') q"
    "k_initproc k = Some z \<Longrightarrow> j < length (k_procs k) \<Longrightarrow> p_parent (proc_at j k) = Some c \<Longrightarrow> p_state (proc_at j k) = ZOMBIE \<Longrightarrow>
       \<not> asleep_in_wait (k_procs k') z"
    "file_inv k \<Longrightarrow> file_inv k'"
proof -
  obtain k1 k5 where st: "k_initproc k \<noteq> Some c" "forM [0..<NOFILE] (exit_file e c) k = Inr k1" "quiet k1 k5"
    "k' = k5\<lparr>k_procs := exit_table c (k_initproc k5) (k_procs k5)\<rparr>" using exit_steps [OF assms(1)] by blast
  note fa = exit_files_all [OF st(2) assms(2)]
  then obtain fds where f: "length fds = NOFILE" "\<forall>j<NOFILE. fds ! j = None" "reseat c (fds, snd (seat (proc_at c k))) k k1"
    using assms(4) by (auto simp: exit_files_at_def)
  have fn: "fds = replicate NOFILE None" using f(1,2) by (simp add: list_eq_iff_nth_eq)
  have r5: "reseat c (fds, snd (seat (proc_at c k))) k k5" by (rule reseat_same [OF f(3) quiet_seats [OF st(3)]])
  note len5 = reseat_length [OF r5]
  have s5: "seat (proc_at j k5) = (if j = c then fds else p_ofile (proc_at j k), snd (seat (proc_at j k)))" if "j < length (k_procs k)" for j
    using reseat_nth [OF r5 assms(2) that] by (auto simp: seat_def)
  have e5: "life_of (proc_at j k5) = life_of (proc_at j k)" "p_parent (proc_at j k5) = p_parent (proc_at j k)" if "j < length (k_procs k)" for j
    using s5 [OF that] by (auto simp: seat_def)
  have ini: "k_initproc k5 = k_initproc k" "k_cont k5 = k_cont k" using r5 by (auto simp: reseat_def)
  have c5: "c < length (k_procs k5)" "p_state (proc_at c k5) \<noteq> UNUSED"
    using assms(2,3) len5 e5(1) [OF assms(2)] life_Dead(2) by metis+
  have T: "k_procs k' = exit_table c (k_initproc k) (k_procs k5)" using st(4) ini by simp
  note E = exit_table_nth [OF c5(1) st(1) c5(2), folded T, unfolded len5]
  show "k_initproc k \<noteq> Some c" by (rule st(1))
  show "length (k_procs k') = length (k_procs k)" by (rule E(1))
  show "k_cont k' = k_cont k" "k_initproc k' = k_initproc k" using st(4) ini by simp_all
  show sj: "seat (proc_at j k') = exited_seat c (k_initproc k) j (proc_at j k)" if "j < length (k_procs k)" for j
    using E(2) [OF that] s5 [OF that] fn by (auto simp: seat_def exited_seat_def)
  show "p_state (proc_at c k') = ZOMBIE" by (rule E(5))
  show "\<not> asleep_in_wait (k_procs k') q" if "p_parent (proc_at c k) = Some q"
    using E(3) that e5(2) [OF assms(2)] by simp
  show "\<not> asleep_in_wait (k_procs k') z" if "k_initproc k = Some z" "j < length (k_procs k)" "p_parent (proc_at j k) = Some c" "p_state (proc_at j k) = ZOMBIE"
    using E(4) [OF that(1,2)] that e5 [OF that(2)] life_Dead(1) by metis
  show "file_inv k'" if "file_inv k"
  proof -
    have "file_inv k5" using fa that file_bal_same [OF quiet_fd [OF st(3)]] by (simp add: exit_files_at_def file_inv_def)
    moreover have "map p_ofile (k_procs k') = map p_ofile (k_procs k5)"
      using E(1,2) len5 by (auto simp: list_eq_iff_nth_eq seat_def)
    then have "fd_same k5 k'" using st(4) by (simp add: fd_same_def)
    ultimately show ?thesis using file_bal_same by (simp add: file_inv_def)
  qed
qed

section \<open>wait\<close>

lemma wait_cases:
  assumes "wait e c k = Inr (r, k')" "c < length (k_procs k)" "p_state (proc_at c k) \<noteq> ZOMBIE"
  obtains "r = -1" "k' = k"
  | i k1 where "i < length (k_procs k)" "i \<noteq> c" "p_parent (proc_at i k) = Some c" "p_state (proc_at i k) = ZOMBIE" "r = p_pid (proc_at i k)"
      "reseat i (p_ofile (proc_at i k), Free, None, p_container (proc_at i k), p_container_id (proc_at i k)) k k1" "k_files k1 = k_files k"
      "if p_container_id (proc_at c k) = 0 then k' = k1
       else \<exists>j. p_container (proc_at c k) = Some j \<and> k' = upd_cont j (\<lambda>x. x\<lparr>c_nproc := c_nproc x + 1\<rparr>) k1"
proof (cases "scan (\<lambda>p. p_parent p = Some c \<and> p_state p = ZOMBIE) (k_procs k)")
  case None
  then have "r = -1" "k' = k" using assms(1) by (auto simp: wait_def split: if_splits)
  then show ?thesis by (rule that(1))
next
  case (Some i)
  have i: "i < length (k_procs k)" "p_parent (proc_at i k) = Some c" "p_state (proc_at i k) = ZOMBIE" "i \<noteq> c"
    using scan_SomeD [OF Some] assms(3) by auto
  obtain k1 where k1: "reap e c i k = Inr k1" using assms(1) Some by (auto simp: wait_def Let_def elim!: bindr_InrE)
  let ?f = "\<lambda>p. p\<lparr>p_kstack := 0, p_pid := 0, p_parent := None, p_name := (p_name p)[0 := 0], p_killed := False, p_state := UNUSED\<rparr>"
  obtain k3 k2 where k3: "on_mem (kfree (e_kend e) (p_kstack (proc_at i k))) k = Inr k3"
    "on_mem (freevm (e_kend e) (p_shm (proc_at c k3)) (k_shl k3) (p_pgdir (proc_at i k3))) k3 = Inr k2" "k1 = upd_proc i ?f k2"
    using k1 by (auto simp: reap_def elim!: bindr_InrE)
  have k2: "quiet k k2" "k1 = upd_proc i ?f k2" using quiet_trans [OF quiet_mem(1) [OF k3(1)] quiet_mem(1) [OF k3(2)]] k3(3) by auto
  have l2: "length (k_procs k2) = length (k_procs k)" using k2(1) unfolding quiet_def same_seats_def by (metis length_map)
  have "seats k2 = seats k" using k2(1) by (simp add: quiet_def same_seats_def)
  then have s2: "seat (proc_at j k2) = seat (proc_at j k)" if "j < length (k_procs k)" for j using that l2 by (metis nth_map)
  have "seat (?f (proc_at i k2)) = (p_ofile (proc_at i k), Free, None, p_container (proc_at i k), p_container_id (proc_at i k))"
    using s2 [OF i(1)] by (simp add: seat_def life_of_def)
  then have r: "reseat i (p_ofile (proc_at i k), Free, None, p_container (proc_at i k), p_container_id (proc_at i k)) k k1"
    using same_reseat [OF quiet_seats [OF k2(1)] reseat_upd [of i ?f k2]] k2(2) by simp
  have cc: "p_container_id (proc_at c k1) = p_container_id (proc_at c k)" "p_container (proc_at c k1) = p_container (proc_at c k)"
    using reseat_nth [OF r i(1) assms(2)] i(4) by (auto dest: seat_eqD)
  show ?thesis
  proof (rule that(2) [OF i(1,4,2,3) _ r])
    show "k_files k1 = k_files k" using k2 by (simp add: quiet_def)
    show "r = p_pid (proc_at i k)" using assms(1) Some k1 by (auto simp: wait_def Let_def split: option.splits if_splits)
    show "if p_container_id (proc_at c k) = 0 then k' = k1
       else \<exists>j. p_container (proc_at c k) = Some j \<and> k' = upd_cont j (\<lambda>x. x\<lparr>c_nproc := c_nproc x + 1\<rparr>) k1"
      using assms(1) Some k1 cc by (cases "p_container (proc_at c k)") (auto simp: wait_def Let_def split: if_splits)
  qed
qed

section \<open>The limit of a container\<close>

text \<open>
  The processes of container i, and a family of processes: parents are alive, children of a
  process in a container are in that container, and the first process is in none.
\<close>

definition in_cont :: "nat \<Rightarrow> nat option list \<times> life \<times> nat option \<times> nat option \<times> u32 \<Rightarrow> bool" where
  "in_cont i = (\<lambda>(_, l, _, con, cid). l \<noteq> Free \<and> con = Some i \<and> cid \<noteq> 0)"

definition live :: "nat \<Rightarrow> kern \<Rightarrow> nat" where
  "live i k = count_if (in_cont i) (seats k)"

definition child_ok :: "kern \<Rightarrow> proc \<Rightarrow> bool" where
  "child_ok k p \<longleftrightarrow> (\<forall>q. p_parent p = Some q \<longrightarrow> q < length (k_procs k) \<and> life_of (proc_at q k) = Alive \<and>
       (p_container_id (proc_at q k) \<noteq> 0 \<longrightarrow> p_container p = p_container (proc_at q k) \<and> p_container_id p \<noteq> 0)) \<and>
     (p_container_id p \<noteq> 0 \<longrightarrow> (\<exists>i<length (k_cont k). p_container p = Some i))"

definition family :: "kern \<Rightarrow> bool" where
  "family k \<longleftrightarrow> (\<forall>j<length (k_procs k). life_of (proc_at j k) \<noteq> Free \<longrightarrow> child_ok k (proc_at j k)) \<and>
     (\<forall>z. k_initproc k = Some z \<longrightarrow> z < length (k_procs k) \<and> life_of (proc_at z k) = Alive \<and> p_container_id (proc_at z k) = 0) \<and>
     (\<forall>j<length (k_procs k). length (p_ofile (proc_at j k)) = NOFILE \<and>
        (life_of (proc_at j k) \<noteq> Alive \<longrightarrow> p_ofile (proc_at j k) = replicate NOFILE None))"

definition cont_inv :: "(nat \<Rightarrow> nat) \<Rightarrow> kern \<Rightarrow> bool" where
  "cont_inv N k \<longleftrightarrow> family k \<and> file_inv k \<and> (\<forall>i<length (k_cont k). unat (c_nproc (k_cont k ! i)) + live i k \<le> N i)"

lemma live_reseat:
  assumes "reseat i x k k'" "i < length (k_procs k)"
  shows "live n k' + of_bool (in_cont n (seat (proc_at i k))) = live n k + of_bool (in_cont n x)"
  using count_if_update [of i "seats k" "in_cont n" x] assms by (simp add: live_def reseat_def)

lemma live_same: "same_seats k k' \<Longrightarrow> live n k' = live n k"
  by (simp add: live_def same_seats_def)

lemma live_cont: "live n (upd_cont i g k) = live n k"
  by (simp add: live_def)

lemma live_cong:
  assumes "length (k_procs k') = length (k_procs k)"
    "\<And>j. j < length (k_procs k) \<Longrightarrow> in_cont n (seat (proc_at j k')) = in_cont n (seat (proc_at j k))"
  shows "live n k' = live n k"
proof -
  have "map (in_cont n) (seats k') = map (in_cont n) (seats k)" using assms by (simp add: list_eq_iff_nth_eq)
  moreover have "count_if P xs = length (filter id (map P xs))" for P :: "'x \<Rightarrow> bool" and xs
    by (simp add: count_if_def filter_map comp_def)
  ultimately show ?thesis unfolding live_def by metis
qed

lemma familyD:
  assumes "family k"
  shows "j < length (k_procs k) \<Longrightarrow> life_of (proc_at j k) \<noteq> Free \<Longrightarrow> child_ok k (proc_at j k)"
    "k_initproc k = Some z \<Longrightarrow> z < length (k_procs k) \<and> life_of (proc_at z k) = Alive \<and> p_container_id (proc_at z k) = 0"
    "j < length (k_procs k) \<Longrightarrow> length (p_ofile (proc_at j k)) = NOFILE"
    "j < length (k_procs k) \<Longrightarrow> life_of (proc_at j k) \<noteq> Alive \<Longrightarrow> p_ofile (proc_at j k) = replicate NOFILE None"
  using assms by (auto simp: family_def)

text \<open>A family stays one when the seat of a process that is not alive is given to a child of it.\<close>

lemma family_reseat:
  assumes "family k" "i < length (k_procs k)" "life_of (proc_at i k) \<noteq> Alive" "reseat i (fds, l, par, con, cid) k k'" "length fds = NOFILE"
    "l \<noteq> Alive \<Longrightarrow> fds = replicate NOFILE None"
    "l \<noteq> Free \<Longrightarrow> child_ok k p \<and> p_parent p = par \<and> p_container p = con \<and> p_container_id p = cid"
  shows "family k'"
proof -
  note len = reseat_length [OF assms(4)]
  have cl: "k_cont k' = k_cont k" "k_initproc k' = k_initproc k" using assms(4) by (auto simp: reseat_def)
  have si: "seat (proc_at i k') = (fds, l, par, con, cid)" using reseat_nth [OF assms(4,2,2)] by simp
  have so: "seat (proc_at j k') = seat (proc_at j k)" if "j < length (k_procs k)" "j \<noteq> i" for j using reseat_nth [OF assms(4,2) that(1)] that(2) by simp
  have mono: "child_ok k' q" if "child_ok k p" "p_parent q = p_parent p" "p_container q = p_container p" "p_container_id q = p_container_id p" for p q
    unfolding child_ok_def
  proof (intro conjI allI impI)
    fix r assume "p_parent q = Some r"
    then have r: "r < length (k_procs k)" "life_of (proc_at r k) = Alive"
      "p_container_id (proc_at r k) \<noteq> 0 \<Longrightarrow> p_container p = p_container (proc_at r k) \<and> p_container_id p \<noteq> 0"
      using that by (auto simp: child_ok_def)
    then have "r \<noteq> i" using assms(3) by auto
    note e = seat_eqD [OF so [OF r(1) this]]
    show "r < length (k_procs k')" "life_of (proc_at r k') = Alive" using r len e by auto
    show "p_container q = p_container (proc_at r k')" "p_container_id q \<noteq> 0" if "p_container_id (proc_at r k') \<noteq> 0"
      using r(3) e that \<open>p_container q = _\<close> \<open>p_container_id q = _\<close> by auto
  qed (use that cl in \<open>auto simp: child_ok_def\<close>)
  have "child_ok k' (proc_at j k')" if j: "j < length (k_procs k')" "life_of (proc_at j k') \<noteq> Free" for j
  proof (cases "j = i")
    case True
    then have "l \<noteq> Free" using j(2) si by (simp add: seat_def)
    then show ?thesis using mono [of p] assms(7) si True by (simp add: seat_def)
  next
    case False
    note e = seat_eqD [OF so [OF _ False]]
    show ?thesis by (rule mono [OF familyD(1) [OF assms(1), of j]]) (use j len e in auto)
  qed
  moreover have "z < length (k_procs k') \<and> life_of (proc_at z k') = Alive \<and> p_container_id (proc_at z k') = 0" if "k_initproc k' = Some z" for z
  proof -
    have z: "z < length (k_procs k)" "life_of (proc_at z k) = Alive" "p_container_id (proc_at z k) = 0" using familyD(2) [OF assms(1)] that cl by auto
    then have "z \<noteq> i" using assms(3) by auto
    then show ?thesis using z len seat_eqD [OF so [OF z(1)]] by simp
  qed
  moreover have "length (p_ofile (proc_at j k')) = NOFILE \<and> (life_of (proc_at j k') \<noteq> Alive \<longrightarrow> p_ofile (proc_at j k') = replicate NOFILE None)"
    if j: "j < length (k_procs k')" for j
  proof (cases "j = i")
    case True
    then show ?thesis using si assms(5,6) by (simp add: seat_def)
  next
    case False
    note e = seat_eqD [OF so [OF _ False]]
    show ?thesis using familyD(3,4) [OF assms(1), of j] j len e by auto
  qed
  ultimately show ?thesis by (simp add: family_def)
qed

lemma family_same:
  assumes "family k" "same_seats k k'"
  shows "family k'"
proof -
  have len: "length (k_procs k') = length (k_procs k)" using assms(2) unfolding same_seats_def by (metis length_map)
  have s: "seat (proc_at j k') = seat (proc_at j k)" if "j < length (k_procs k)" for j
    using assms(2) that len unfolding same_seats_def by (metis nth_map)
  note e = seat_eqD [OF s]
  have cl: "k_cont k' = k_cont k" "k_initproc k' = k_initproc k" using assms(2) by (auto simp: same_seats_def)
  have "child_ok k' (proc_at j k')" if "j < length (k_procs k)" "child_ok k (proc_at j k)" for j
    using that e cl len unfolding child_ok_def by metis
  then show ?thesis using assms(1) e cl len unfolding family_def by metis
qed

lemma family_cont: "family (upd_cont i g k) = family k"
  by (simp add: family_def child_ok_def upd_cont_def)

lemma in_cont_free: "life_of p = Free \<Longrightarrow> \<not> in_cont n (seat p)"
  by (simp add: in_cont_def seat_def)

text \<open>fork, once the place has been taken: room is what the container's limit still allows.\<close>

lemma fork_outcome_inv:
  assumes "fork_outcome c k r k'" "family k" "file_inv k" "c < length (k_procs k)" "life_of (proc_at c k) = Alive"
  shows "family k' \<and> file_inv k' \<and> k_cont k' = k_cont k \<and>
    (\<forall>n. live n k' \<le> live n k + of_bool (p_container (proc_at c k) = Some n \<and> p_container_id (proc_at c k) \<noteq> 0))"
proof -
  consider (same) "same_seats k k'" "file_inv k'"
    | (none) i par con where "i < length (k_procs k)" "p_state (proc_at i k) = UNUSED" "reseat i (p_ofile (proc_at i k), Free, par, con, 0) k k'" "file_inv k'"
    | (child) np fds where "np < length (k_procs k)" "p_state (proc_at np k) = UNUSED"
      "reseat np (fds, Alive, Some c, p_container (proc_at c k), p_container_id (proc_at c k)) k k'"
      "(\<forall>j<NOFILE. p_ofile (proc_at np k) ! j = None) \<longrightarrow> file_inv k'"
    using assms(1,3) unfolding fork_outcome_def by blast
  then show ?thesis
  proof cases
    case same
    then show ?thesis using family_same [OF assms(2) same(1)] live_same [OF same(1)] by (simp add: same_seats_def)
  next
    case none
    have l: "life_of (proc_at i k) = Free" using none(2) by (simp add: life_of_def)
    have o: "p_ofile (proc_at i k) = replicate NOFILE None" by (rule familyD(4) [OF assms(2) none(1)]) (simp add: l)
    have "family k'" by (rule family_reseat [OF assms(2) none(1) _ none(3)]) (simp_all add: l o)
    moreover have "live n k' = live n k" for n using live_reseat [OF none(3,1), of n] in_cont_free [OF l] by (simp add: in_cont_def)
    ultimately show ?thesis using none(3,4) by (simp add: reseat_def)
  next
    case child
    have l: "life_of (proc_at np k) = Free" using child(2) by (simp add: life_of_def)
    have "p_ofile (proc_at np k) = replicate NOFILE None" by (rule familyD(4) [OF assms(2) child(1)]) (simp add: l)
    then have f': "file_inv k'" using child(4) by simp
    have np': "np < length (k_procs k')" using child(1) reseat_length [OF child(3)] by simp
    have "length (p_ofile (proc_at np k')) = NOFILE" using f' np' by (simp add: file_inv_def file_bal_def ofile_ok_def)
    then have fl: "length fds = NOFILE" using reseat_ofile [OF child(3,1)] by simp
    have "child_ok k (proc_at c k)" by (rule familyD(1) [OF assms(2,4)]) (simp add: assms(5))
    then have co: "child_ok k ((proc_at c k)\<lparr>p_parent := Some c\<rparr>)" using assms(4,5) by (simp add: child_ok_def)
    have "family k'"
      by (rule family_reseat [OF assms(2) child(1) _ child(3) fl, where p = "(proc_at c k)\<lparr>p_parent := Some c\<rparr>"]) (simp_all add: l co)
    moreover have "live n k' \<le> live n k + of_bool (p_container (proc_at c k) = Some n \<and> p_container_id (proc_at c k) \<noteq> 0)" for n
      using live_reseat [OF child(3,1), of n] by (simp add: in_cont_def)
    ultimately show ?thesis using f' child(3) by (simp add: reseat_def)
  qed
qed

lemma fork_inv:
  assumes "cont_inv N k" "c < length (k_procs k)" "life_of (proc_at c k) = Alive" "fork e c k = Inr (r, k')"
  shows "cont_inv N k'"
proof -
  let ?p = "proc_at c k"
  have k: "family k" "file_inv k" "\<And>i. i < length (k_cont k) \<Longrightarrow> unat (c_nproc (k_cont k ! i)) + live i k \<le> N i"
    using assms(1) by (auto simp: cont_inv_def)
  have st: "p_state ?p \<noteq> UNUSED" using assms(3) life_Dead(2) by force
  show ?thesis
  proof (cases "p_container_id ?p = 0")
    case True
    then have "fork_reserve c k = Inr (True, k)" by (simp add: fork_reserve_def fork_test_def fork_take_def)
    note o = fork_outcome_inv [OF fork_reserved [OF this assms(4,2) st] k(1,2) assms(2,3)]
    have l: "live n k' \<le> live n k" for n using o True by simp
    have "unat (c_nproc (k_cont k ! i)) + live i k' \<le> N i" if "i < length (k_cont k)" for i
      using k(3) [OF that] l [of i] by linarith
    then show ?thesis using o by (simp add: cont_inv_def)
  next
    case False
    obtain i where i: "i < length (k_cont k)" "p_container ?p = Some i"
      using familyD(1) [OF k(1) assms(2)] assms(3) False by (auto simp: child_ok_def)
    show ?thesis
    proof (cases "c_nproc (k_cont k ! i) = 0")
      case True
      then have "k' = k" using assms(4) False i(2) by (simp add: fork_def fork_reserve_def fork_test_def fork_take_def)
      then show ?thesis using assms(1) by simp
    next
      case nz: False
      let ?k = "upd_cont i (\<lambda>x. x\<lparr>c_nproc := c_nproc x - 1\<rparr>) k"
      have "fork_reserve c k = Inr (True, ?k)" using False i(2) nz by (simp add: fork_reserve_def fork_test_def fork_take_def)
      note o = fork_outcome_inv [OF fork_reserved [OF this assms(4)]]
      have "file_inv ?k" using k(2) by (simp add: file_inv_def file_bal_def)
      then have o': "family k'" "file_inv k'" "k_cont k' = k_cont ?k" "\<And>n. live n k' \<le> live n k + of_bool (i = n)"
        using o assms(2,3) st k(1) i(2) False by (simp_all add: family_cont live_cont)
      have u: "unat (c_nproc (k_cont k ! i) - 1) + 1 = unat (c_nproc (k_cont k ! i))"
        using unat_minus_one [OF nz] unat_gt_0 [of "c_nproc (k_cont k ! i)"] nz by simp
      have "unat (c_nproc (k_cont k' ! n)) + live n k' \<le> N n" if "n < length (k_cont k')" for n
      proof -
        have n: "n < length (k_cont k)" using that o'(3) by (simp add: upd_cont_def)
        have "unat (c_nproc (k_cont k' ! n)) + of_bool (i = n) = unat (c_nproc (k_cont k ! n))"
          using u i(1) o'(3) by (auto simp: upd_cont_def)
        then show ?thesis using k(3) [OF n] o'(4) [of n] by linarith
      qed
      then show ?thesis using o'(1,2) by (simp add: cont_inv_def)
    qed
  qed
qed

lemma exit_inv:
  assumes "cont_inv N k" "c < length (k_procs k)" "life_of (proc_at c k) = Alive" "exit e c k = Inr k'"
  shows "cont_inv N k'"
proof -
  have k: "family k" "file_inv k" "\<And>i. i < length (k_cont k) \<Longrightarrow> unat (c_nproc (k_cont k ! i)) + live i k \<le> N i"
    using assms(1) by (auto simp: cont_inv_def)
  have st: "p_state (proc_at c k) \<noteq> UNUSED" using assms(3) life_Dead(2) by force
  note E = exit_seats [OF assms(4,2) st familyD(3) [OF k(1) assms(2)]]
  note len = E(2)
  have sj: "p_ofile (proc_at j k') = (if j = c then replicate NOFILE None else p_ofile (proc_at j k))"
    "life_of (proc_at j k') = (if j = c then Dead else life_of (proc_at j k))"
    "p_parent (proc_at j k') = (if p_parent (proc_at j k) = Some c then k_initproc k else p_parent (proc_at j k))"
    "p_container (proc_at j k') = p_container (proc_at j k)" "p_container_id (proc_at j k') = p_container_id (proc_at j k)"
    if "j < length (k_procs k)" for j
    using E(5) [OF that] by (simp_all add: seat_def exited_seat_def)
  have alive: "q < length (k_procs k') \<and> life_of (proc_at q k') = Alive \<and>
      (p_container_id (proc_at q k') \<noteq> 0 \<longrightarrow> p_container (proc_at j k') = p_container (proc_at q k') \<and> p_container_id (proc_at j k') \<noteq> 0)"
    if j: "j < length (k_procs k)" "child_ok k (proc_at j k)" "p_parent (proc_at j k') = Some q" for j q
  proof (cases "p_parent (proc_at j k) = Some c")
    case True
    then have "k_initproc k = Some q" using j(1,3) sj(3) by simp
    then show ?thesis using familyD(2) [OF k(1)] E(1) sj(2,5) [of q] len by auto
  next
    case False
    then have "p_parent (proc_at j k) = Some q" "q \<noteq> c" using j(1,3) sj(3) by auto
    then show ?thesis using j(1,2) sj(2,4,5) len by (auto simp: child_ok_def)
  qed
  have "child_ok k' (proc_at j k')" if j: "j < length (k_procs k)" "life_of (proc_at j k') \<noteq> Free" for j
  proof -
    have ok: "child_ok k (proc_at j k)" by (rule familyD(1) [OF k(1) j(1)]) (use j sj(2) assms(3) in \<open>auto split: if_splits\<close>)
    show ?thesis unfolding child_ok_def using alive [OF j(1) ok] ok sj(4,5) [OF j(1)] E(3) by (auto simp: child_ok_def)
  qed
  moreover have "z < length (k_procs k') \<and> life_of (proc_at z k') = Alive \<and> p_container_id (proc_at z k') = 0" if "k_initproc k' = Some z" for z
    using familyD(2) [OF k(1)] that E(1,4) sj(2,5) [of z] len by auto
  moreover have "length (p_ofile (proc_at j k')) = NOFILE \<and> (life_of (proc_at j k') \<noteq> Alive \<longrightarrow> p_ofile (proc_at j k') = replicate NOFILE None)"
    if "j < length (k_procs k)" for j using familyD(3,4) [OF k(1) that] sj(1,2) [OF that] by simp
  ultimately have "family k'" using len by (simp add: family_def)
  moreover have "live n k' = live n k" for n
    by (rule live_cong [OF len]) (use sj assms(3) in \<open>auto simp: in_cont_def seat_def\<close>)
  ultimately show ?thesis using E(3,9) k(2,3) by (simp add: cont_inv_def)
qed

lemma wait_inv:
  assumes "cont_inv N k" "c < length (k_procs k)" "life_of (proc_at c k) = Alive" "wait e c k = Inr (r, k')"
  shows "cont_inv N k'"
proof -
  have k: "family k" "file_inv k" "\<And>i. i < length (k_cont k) \<Longrightarrow> unat (c_nproc (k_cont k ! i)) + live i k \<le> N i"
    using assms(1) by (auto simp: cont_inv_def)
  have nz: "p_state (proc_at c k) \<noteq> ZOMBIE" using assms(3) life_Dead(1) by force
  show ?thesis
  proof (rule wait_cases [OF assms(4,2) nz])
    assume "k' = k"
    then show ?thesis using assms(1) by simp
  next
    fix i k1
    assume i: "i < length (k_procs k)" "i \<noteq> c" "p_parent (proc_at i k) = Some c" "p_state (proc_at i k) = ZOMBIE"
      and r: "reseat i (p_ofile (proc_at i k), Free, None, p_container (proc_at i k), p_container_id (proc_at i k)) k k1"
      and f: "k_files k1 = k_files k"
      and k': "if p_container_id (proc_at c k) = 0 then k' = k1
        else \<exists>j. p_container (proc_at c k) = Some j \<and> k' = upd_cont j (\<lambda>x. x\<lparr>c_nproc := c_nproc x + 1\<rparr>) k1"
    have l: "life_of (proc_at i k) = Dead" using i(4) by (simp add: life_of_def)
    have o: "p_ofile (proc_at i k) = replicate NOFILE None" by (rule familyD(4) [OF k(1) i(1)]) (simp add: l)
    have f1: "family k1" by (rule family_reseat [OF k(1) i(1) _ r]) (simp_all add: l o)
    have fi1: "file_inv k1" using k(2) file_bal_same [OF reseat_fd [OF r f i(1)]] by (simp add: file_inv_def)
    have c1: "k_cont k1 = k_cont k" using r by (simp add: reseat_def)
    have lv: "live n k1 + of_bool (p_container (proc_at i k) = Some n \<and> p_container_id (proc_at i k) \<noteq> 0) = live n k" for n
      using live_reseat [OF r i(1), of n] l by (simp add: in_cont_def seat_def)
    show ?thesis
    proof (cases "p_container_id (proc_at c k) = 0")
      case True
      have "unat (c_nproc (k_cont k ! n)) + live n k1 \<le> N n" if "n < length (k_cont k)" for n using k(3) [OF that] lv [of n] by linarith
      then show ?thesis using True k' f1 fi1 c1 by (simp add: cont_inv_def)
    next
      case False
      then obtain j where j: "p_container (proc_at c k) = Some j" "k' = upd_cont j (\<lambda>x. x\<lparr>c_nproc := c_nproc x + 1\<rparr>) k1" using k' by auto
      have "child_ok k (proc_at i k)" by (rule familyD(1) [OF k(1) i(1)]) (simp add: l)
      then have "p_container (proc_at i k) = Some j" "p_container_id (proc_at i k) \<noteq> 0" using i(3) j(1) False by (auto simp: child_ok_def)
      then have lj: "live n k1 + of_bool (j = n) = live n k" for n using lv [of n] by simp
      have "unat (x + 1) \<le> unat x + 1" for x :: u32 by (simp add: unat_word_ariths)
      then have "unat (c_nproc (k_cont k' ! n)) \<le> unat (c_nproc (k_cont k ! n)) + of_bool (j = n)" if "n < length (k_cont k)" for n
        using that j(2) c1 by (auto simp: upd_cont_def nth_upd)
      then have "unat (c_nproc (k_cont k' ! n)) + live n k' \<le> N n" if "n < length (k_cont k)" for n
        using that k(3) [OF that] lj [of n] j(2) by (fastforce simp: live_cont)
      moreover have "family k'" "file_inv k'" "length (k_cont k') = length (k_cont k)"
        using j(2) f1 fi1 c1 by (simp_all add: family_cont file_inv_def file_bal_def) (simp add: upd_cont_def)
      ultimately show ?thesis by (simp add: cont_inv_def)
    qed
  qed
qed

section \<open>Runs of fork, exit and wait\<close>

inductive life_step :: "env \<Rightarrow> kern \<Rightarrow> kern \<Rightarrow> bool" for e where
  forks: "\<lbrakk>c < length (k_procs k); life_of (proc_at c k) = Alive; fork e c k = Inr (r, k')\<rbrakk> \<Longrightarrow> life_step e k k'"
| exits: "\<lbrakk>c < length (k_procs k); life_of (proc_at c k) = Alive; exit e c k = Inr k'\<rbrakk> \<Longrightarrow> life_step e k k'"
| waits: "\<lbrakk>c < length (k_procs k); life_of (proc_at c k) = Alive; wait e c k = Inr (r, k')\<rbrakk> \<Longrightarrow> life_step e k k'"

lemma life_step_inv: "life_step e k k' \<Longrightarrow> cont_inv N k \<Longrightarrow> cont_inv N k'"
  by (induction rule: life_step.induct) (auto intro: fork_inv exit_inv wait_inv)

lemma life_steps_inv: "(life_step e)\<^sup>*\<^sup>* k k' \<Longrightarrow> cont_inv N k \<Longrightarrow> cont_inv N k'"
  by (induction rule: rtranclp_induct) (auto intro: life_step_inv)

text \<open>The first process and one process of a container whose limit is used up.\<close>

definition run_env :: env where
  "run_env = \<lparr>e_kend = 0x80200000, e_kdata = 0x80108000, e_trapret = 0, e_forkret = 0, e_initcode = [], e_devr = (\<lambda>_. None), e_devw = (\<lambda>_. None)\<rparr>"

definition run_example :: kern where
  "run_example = \<lparr>
     k_procs = [zero_proc\<lparr>p_state := SLEEPING, p_chan := Some (CProc 0), p_pid := 1\<rparr>,
                zero_proc\<lparr>p_state := RUNNING, p_pid := 2, p_parent := Some 0, p_cwd := Some 0, p_container := Some 0, p_container_id := 1\<rparr>],
     k_queue = [], k_nextpid = 3, k_initproc = Some 0, k_mux = [], k_shl = [],
     k_mem = \<lparr>kmem_mem = (\<lambda>_. 0), use_lock = True, freelist = 0\<rparr>, k_fs = run_fs, k_files = run_files,
     k_pipes = (\<lambda>_. pipe_new []), k_cont = [\<lparr>c_container_id = 1, c_nproc = 0, c_init = 0, c_fs = 0, c_root = None\<rparr>], k_nextcid = 2\<rparr>"

lemma run_procs:
  "length (k_procs run_example) = 2" "k_cont run_example ! 0 = \<lparr>c_container_id = 1, c_nproc = 0, c_init = 0, c_fs = 0, c_root = None\<rparr>"
  "length (k_cont run_example) = 1" "k_initproc run_example = Some 0"
  "proc_at 0 run_example = zero_proc\<lparr>p_state := SLEEPING, p_chan := Some (CProc 0), p_pid := 1\<rparr>"
  "proc_at (Suc 0) run_example = zero_proc\<lparr>p_state := RUNNING, p_pid := 2, p_parent := Some 0, p_cwd := Some 0, p_container := Some 0, p_container_id := 1\<rparr>"
  by (simp_all add: run_example_def)

lemma run_file_inv: "file_inv run_example"
proof -
  have "fd_count (k_procs run_example) i = 0" for i
    by (simp add: fd_count_def run_example_def zero_proc_def count_if_def)
  moreover have "ofile_ok (k_procs run_example)" by (simp add: ofile_ok_def run_example_def zero_proc_def)
  ultimately show ?thesis by (simp add: file_inv_def file_bal_def) (simp add: run_example_def run_files_def)
qed

lemma run_family: "family run_example"
  by (auto simp: family_def child_ok_def run_procs less_Suc_eq numeral_2_eq_2 life_of_def zero_proc_def)

lemma run_live: "live 0 run_example = 1"
  by (simp add: live_def run_example_def seat_def in_cont_def count_if_def life_of_def zero_proc_def)

lemma run_cont_inv: "cont_inv (\<lambda>_. 1) run_example"
  using run_family run_file_inv run_live by (simp add: cont_inv_def run_procs)

text \<open>
  C7.  The limit of a container holds over every run of fork, exit and wait that execute one at a
  time: when a container's remaining places and its processes together are at most N at the
  start, it never has more than N processes, whoever reaps them; and over the same runs every
  open file's reference count is the number of descriptors that refer to it.
\<close>

theorem container_limit:
  assumes "cont_inv N k" "(life_step e)\<^sup>*\<^sup>* k k'"
  shows "(\<forall>i<length (k_cont k'). live i k' \<le> N i) \<and> file_inv k'"
  using life_steps_inv [OF assms(2,1)] unfolding cont_inv_def by (meson add_leD2)

theorem container_limit_witness:
  "fork run_env 1 run_example = Inr (-1, run_example) \<and> live 0 run_example \<le> 1 \<and> file_inv run_example"
proof -
  have f: "fork run_env 1 run_example = Inr (-1, run_example)"
    by (simp add: fork_def fork_reserve_def fork_test_def run_procs zero_proc_def)
  have "life_step run_env run_example run_example"
    by (rule life_step.forks [OF _ _ f]) (simp_all add: run_procs life_of_def zero_proc_def)
  then have "(life_step run_env)\<^sup>*\<^sup>* run_example run_example" by blast
  then show ?thesis using f container_limit [OF run_cont_inv] by (simp add: run_procs)
qed



text \<open>
  C13.  exit leaves a zombie without open files and without children: every child goes to the first
  process; the parent of the process is not left asleep in wait, nor is the first process when
  one of the children it receives is a zombie already.
\<close>

theorem exit_ok:
  assumes "exit e c k = Inr k'" "c < length (k_procs k)" "life_of (proc_at c k) = Alive" "length (p_ofile (proc_at c k)) = NOFILE"
  shows "p_state (proc_at c k') = ZOMBIE \<and> p_ofile (proc_at c k') = replicate NOFILE None \<and> length (k_procs k') = length (k_procs k) \<and>
    (\<forall>j<length (k_procs k). p_parent (proc_at j k') \<noteq> Some c \<and> (p_parent (proc_at j k) = Some c \<longrightarrow> p_parent (proc_at j k') = k_initproc k)) \<and>
    (\<forall>q. p_parent (proc_at c k) = Some q \<longrightarrow> \<not> asleep_in_wait (k_procs k') q) \<and>
    (\<forall>z j. k_initproc k = Some z \<and> j < length (k_procs k) \<and> p_parent (proc_at j k) = Some c \<and> p_state (proc_at j k) = ZOMBIE \<longrightarrow>
       \<not> asleep_in_wait (k_procs k') z)"
proof -
  have st: "p_state (proc_at c k) \<noteq> UNUSED" using assms(3) life_Dead(2) by force
  note E = exit_seats [OF assms(1,2) st assms(4)]
  have "p_parent (proc_at j k') = (if p_parent (proc_at j k) = Some c then k_initproc k else p_parent (proc_at j k))"
    if "j < length (k_procs k)" for j using E(5) [OF that] by (simp add: seat_def exited_seat_def)
  moreover have "p_ofile (proc_at c k') = replicate NOFILE None" using E(5) [OF assms(2)] by (simp add: seat_def exited_seat_def)
  ultimately show ?thesis using E(1,2,6,7,8) by auto
qed

lemma forM_idle: "(\<And>i. i \<in> set is \<Longrightarrow> f i s = Inr s) \<Longrightarrow> forM is f s = Inr s"
  by (induction "is") auto

lemma run_exit:
  "\<exists>k'. exit e 1 run_example = Inr k'"
proof -
  have a: "forM [0..<NOFILE] (exit_file e 1) run_example = Inr run_example"
    "forM [0..<SHM_MAXNUM] (exit_shm e 1) run_example = Inr run_example"
    "forM [0..<MUX_MAXNUM] (exit_mutex 1) run_example = Inr run_example"
    by (rule forM_idle; simp add: exit_file_def exit_shm_def exit_mutex_def run_procs zero_proc_def zero_shmem_def)+
  have b: "\<exists>k4. on_fs (put_in_op 2 (Some 0)) run_example = Inr k4"
    by (simp add: on_fs_def put_in_op_def fs_begin_def begin_op_def log_example_def LOGSIZE_def MAXOPBLOCKS_def iput_def run_example_def run_fs_def
        acquiresleep_def initsleeplock_def upd_ino_def fs_end_def end_op_def end_op_enter_def Let_def)
  have "p_pid (proc_at 1 run_example) = 2" "p_cwd (proc_at 1 run_example) = Some 0" "k_initproc run_example \<noteq> Some 1"
    by (simp_all add: run_procs)
  then show ?thesis using b a by (auto simp: exit_def Let_def)
qed

theorem exit_ok_witness:
  "\<exists>k'. exit run_env 1 run_example = Inr k' \<and> p_state (proc_at 1 k') = ZOMBIE \<and> asleep_in_wait (k_procs run_example) 0 \<and> \<not> asleep_in_wait (k_procs k') 0"
proof -
  obtain k' where k': "exit run_env 1 run_example = Inr k'" using run_exit by blast
  have "asleep_in_wait (k_procs run_example) 0" by (simp add: asleep_in_wait_def run_procs)
  then show ?thesis using k' exit_ok [OF k'] by (simp add: run_procs life_of_def zero_proc_def)
qed

end
