(* ===== verification/Exec.thy ===== *)
theory Exec
  imports Account
begin

text \<open>
  Running programs (exec.c, elf.h, loaduvm in vm.c): the program is loaded into a new page table,
  and the process gets it only when everything has succeeded.
\<close>

definition ELF_MAGIC :: u32 where "ELF_MAGIC = 0x464C457F"
definition ELF_PROG_LOAD :: u32 where "ELF_PROG_LOAD = 1"
definition MAXARG :: nat where "MAXARG = 32"

text \<open>The fields of the headers that exec reads.\<close>

record elfhdr =
  eh_magic :: u32
  eh_entry :: u32
  eh_phoff :: u32
  eh_phnum :: u16

record proghdr =
  ph_type :: u32
  ph_off :: u32
  ph_vaddr :: u32
  ph_filesz :: u32
  ph_memsz :: u32

definition elfhdr_of :: "u8 list \<Rightarrow> elfhdr" where
  "elfhdr_of d = \<lparr>eh_magic = get32 d 0, eh_entry = get32 d 24, eh_phoff = get32 d 28, eh_phnum = get16 d 44\<rparr>"

definition proghdr_of :: "u8 list \<Rightarrow> proghdr" where
  "proghdr_of d = \<lparr>ph_type = get32 d 0, ph_off = get32 d 4, ph_vaddr = get32 d 8, ph_filesz = get32 d 16, ph_memsz = get32 d 20\<rparr>"

text \<open>The file system and memory, which loading changes; False stands for goto bad.\<close>

type_synonym ldst = "fsys \<times> kmem"

definition read_at :: "env \<Rightarrow> int \<Rightarrow> nat \<Rightarrow> u32 \<Rightarrow> u32 \<Rightarrow> ldst \<Rightarrow> (u8 list option \<times> ldst) res" where
  "read_at e pid ip off n = (\<lambda>(s, m).
     bindr (readi (e_devr e) pid ip off n s) (\<lambda>((r, d), s). Inr (if word_of_int r = n then Some d else None, s, m)))"

text \<open>The loop of loaduvm, on the number of pages left; the bytes read are stored in the page.\<close>

fun load_loop :: "nat \<Rightarrow> env \<Rightarrow> int \<Rightarrow> u32 \<Rightarrow> u32 \<Rightarrow> nat \<Rightarrow> u32 \<Rightarrow> u32 \<Rightarrow> u32 \<Rightarrow> ldst \<Rightarrow> (bool \<times> ldst) res" where
  "load_loop 0 e pid d addr ip offset sz i st = Inr (True, st)"
| "load_loop (Suc j) e pid d addr ip offset sz i st =
     (let pte = fst (walkpgdir d (addr + i) False (snd st)) in
      if pte = 0 then Inl (Panic ''loaduvm: address should exist'')
      else let pa = PTE_ADDR (rd32 (snd st) pte); n = (if sz - i < PGSIZE then sz - i else PGSIZE) in
           bindr (read_at e pid ip (offset + i) n st) (\<lambda>(r, s, m).
           case r of
             None \<Rightarrow> Inr (False, s, m)
           | Some b \<Rightarrow>
               load_loop j e pid d addr ip offset sz (i + PGSIZE)
                 (s, m\<lparr>kmem_mem := (\<lambda>x. if unat (x - P2V pa) < length b then b ! unat (x - P2V pa) else kmem_mem m x)\<rparr>)))"

definition loaduvm :: "env \<Rightarrow> int \<Rightarrow> u32 \<Rightarrow> u32 \<Rightarrow> nat \<Rightarrow> u32 \<Rightarrow> u32 \<Rightarrow> ldst \<Rightarrow> (bool \<times> ldst) res" where
  "loaduvm e pid d addr ip offset sz st =
     (if addr mod PGSIZE \<noteq> 0 then Inl (Panic ''loaduvm: addr must be page aligned'')
      else load_loop ((unat sz + 4095) div 4096) e pid d addr ip offset sz 0 st)"

text \<open>The loop over the program headers; the result is the new size, or None for goto bad.\<close>

fun load_segments :: "nat \<Rightarrow> env \<Rightarrow> int \<Rightarrow> u32 \<Rightarrow> nat \<Rightarrow> u32 \<Rightarrow> u32 \<Rightarrow> ldst \<Rightarrow> (u32 option \<times> ldst) res" where
  "load_segments 0 e pid d ip off sz st = Inr (Some sz, st)"
| "load_segments (Suc j) e pid d ip off sz st =
     bindr (read_at e pid ip off 32 st) (\<lambda>(r, s, m).
     case r of
       None \<Rightarrow> Inr (None, s, m)
     | Some b \<Rightarrow>
         let ph = proghdr_of b; top = ph_vaddr ph + ph_memsz ph in
         if ph_type ph \<noteq> ELF_PROG_LOAD then load_segments j e pid d ip (off + 32) sz (s, m)
         else if ph_memsz ph < ph_filesz ph \<or> top < ph_vaddr ph then Inr (None, s, m)
         else bindr (allocuvm (e_kend e) d sz top m) (\<lambda>(sz, m).
              if sz = 0 \<or> ph_vaddr ph mod PGSIZE \<noteq> 0 then Inr (None, s, m)
              else bindr (loaduvm e pid d (ph_vaddr ph) ip (ph_off ph) (ph_filesz ph) (s, m)) (\<lambda>(ok, st).
                   if ok then load_segments j e pid d ip (off + 32) sz st else Inr (None, st))))"

text \<open>copyout with its source given as bytes.\<close>

function copyout_bytes :: "u32 \<Rightarrow> u32 \<Rightarrow> u8 list \<Rightarrow> kmem \<Rightarrow> (bool \<times> kmem) res" where
  "copyout_bytes d va bs m =
     (if bs = [] then Inr (True, m)
      else bindr (uva2ka d (PGROUNDDOWN va) m) (\<lambda>pa0.
           if pa0 = 0 then Inr (False, m)
           else let n = min (length bs) (4096 - unat va mod 4096); a = pa0 + (va - PGROUNDDOWN va) in
                copyout_bytes d (PGROUNDDOWN va + PGSIZE) (drop n bs)
                  (m\<lparr>kmem_mem := (\<lambda>x. if unat (x - a) < n then bs ! unat (x - a) else kmem_mem m x)\<rparr>)))"
  by auto
termination
  by (relation "measure (\<lambda>(d, va, bs, m). length bs)") (auto simp: less_le_trans [OF mod_less_divisor])

declare copyout_bytes.simps [simp del]

text \<open>The arguments, pushed below sp; the result is sp and the addresses, or None for goto bad.\<close>

fun push_args :: "u8 list list \<Rightarrow> nat \<Rightarrow> u32 \<Rightarrow> u32 \<Rightarrow> kmem \<Rightarrow> ((u32 \<times> u32 list) option \<times> kmem) res" where
  "push_args [] argc d sp m = Inr (Some (sp, []), m)"
| "push_args (a # as) argc d sp m =
     (if argc \<ge> MAXARG then Inr (None, m)
      else let sp = (sp - of_nat (length a + 1)) AND NOT 3 in
           bindr (copyout_bytes d sp (a @ [0]) m) (\<lambda>(ok, m).
           if \<not> ok then Inr (None, m)
           else bindr (push_args as (Suc argc) d sp m) (\<lambda>(r, m). Inr (map_option (\<lambda>(sp', ps). (sp', sp # ps)) r, m))))"

definition ustack_bytes :: "u32 \<Rightarrow> u32 list \<Rightarrow> u8 list" where
  "ustack_bytes sp ps =
     concat (map bytes32 ([0xffffffff, of_nat (length ps), sp - of_nat ((length ps + 1) * 4)] @ ps @ [0]))"

text \<open>The stack: two pages, the lower one made inaccessible, the arguments and the vector of their addresses.\<close>

definition build_stack :: "env \<Rightarrow> u32 \<Rightarrow> u32 \<Rightarrow> u8 list list \<Rightarrow> kmem \<Rightarrow> ((u32 \<times> u32) option \<times> kmem) res" where
  "build_stack e d sz argv m =
     bindr (allocuvm (e_kend e) d (PGROUNDUP sz) (PGROUNDUP sz + 2 * PGSIZE) m) (\<lambda>(sz, m).
     if sz = 0 then Inr (None, m)
     else bindr (clearpteu d (sz - 2 * PGSIZE) m) (\<lambda>m.
          bindr (push_args argv 0 d sz m) (\<lambda>(r, m).
          case r of
            None \<Rightarrow> Inr (None, m)
          | Some (sp, ps) \<Rightarrow>
              let sp' = sp - of_nat ((3 + length ps + 1) * 4) in
              bindr (copyout_bytes d sp' (ustack_bytes sp ps) m) (\<lambda>(ok, m).
              Inr (if ok then Some (sz, sp') else None, m)))))"

text \<open>The name of the program: the path after its last slash.\<close>

definition base_name :: "u8 list \<Rightarrow> u8 list" where
  "base_name path = rev (takeWhile (\<lambda>x. x \<noteq> 47) (rev path))"

text \<open>exec up to the end of the transaction: the header, the page table and the size.\<close>

definition load_image :: "env \<Rightarrow> int \<Rightarrow> nat \<Rightarrow> shmem list \<Rightarrow> shared_mem list \<Rightarrow> ldst \<Rightarrow> ((u32 \<times> u32 option \<times> u32) \<times> ldst) res" where
  "load_image e pid ip slots shl st =
     bindr (read_at e pid ip 0 52 st) (\<lambda>(r, s, m).
     case r of
       None \<Rightarrow> Inr ((0, None, 0), s, m)
     | Some b \<Rightarrow>
         let elf = elfhdr_of b in
         if eh_magic elf \<noteq> ELF_MAGIC then Inr ((0, None, 0), s, m)
         else bindr (setupkvm (e_kdata e) (e_kend e) slots shl m) (\<lambda>(d, m).
              if d = 0 then Inr ((0, None, 0), s, m)
              else bindr (load_segments (unat (eh_phnum elf)) e pid d ip (eh_phoff elf) 0 (s, m)) (\<lambda>(sz, st).
                   Inr ((d, sz, eh_entry elf), st))))"

definition drop_image :: "env \<Rightarrow> nat \<Rightarrow> u32 \<Rightarrow> kern \<Rightarrow> kern res" where
  "drop_image e c d k = (if d = 0 then Inr k else on_mem (freevm (e_kend e) (p_shm (proc_at c k)) (k_shl k) d) k)"

definition on_load :: "(ldst \<Rightarrow> ('a \<times> ldst) res) \<Rightarrow> kern \<Rightarrow> ('a \<times> kern) res" where
  "on_load g k = bindr (g (k_fs k, k_mem k)) (\<lambda>(r, s, m). Inr (r, k\<lparr>k_fs := s, k_mem := m\<rparr>))"

text \<open>The end of exec: the process gets the new image and the old page table is freed.\<close>

definition commit_image :: "env \<Rightarrow> nat \<Rightarrow> u8 list \<Rightarrow> u32 \<Rightarrow> u32 \<Rightarrow> u32 \<Rightarrow> u32 \<Rightarrow> kern \<Rightarrow> (int \<times> kern) res" where
  "commit_image e c path d sz sp entry k =
     bindr (safestrcpy_arr (p_name (proc_at c k)) (base_name path @ [0]) 16) (\<lambda>nm.
     let old = p_pgdir (proc_at c k); tf = p_tf (proc_at c k);
         k = upd_proc c (\<lambda>p. p\<lparr>p_name := nm, p_pgdir := d, p_sz := sz\<rparr>) k;
         k = on_mem_pure (\<lambda>m. wr32 (tf + 68) sp (wr32 (tf + 56) entry m)) k in
     bindr (switchuvm (proc_at c k)) (\<lambda>_.
     bindr (on_mem (freevm (e_kend e) (p_shm (proc_at c k)) (k_shl k) old) k) (\<lambda>k. Inr (0, k))))"

definition exec :: "env \<Rightarrow> nat \<Rightarrow> u8 list \<Rightarrow> u8 list list \<Rightarrow> kern \<Rightarrow> (int \<times> kern) res" where
  "exec e c path argv k =
     (let pid = pid_of c k in
      bindr (on_fs fs_begin k) (\<lambda>k.
      bindr (on_fs_r (namei (who_of c k) pid path) k) (\<lambda>(ipo, k).
      case ipo of
        None \<Rightarrow> on_fs_r (fs_return (-1) pid) k
      | Some ip \<Rightarrow>
          bindr (on_fs (ilock pid ip) k) (\<lambda>k.
          bindr (on_load (load_image e pid ip (p_shm (proc_at c k)) (k_shl k)) k) (\<lambda>((d, szo, entry), k).
          case szo of
            None \<Rightarrow>
              bindr (drop_image e c d k) (on_fs_r (\<lambda>s. bindr (iunlockput pid ip s) (fs_return (-1) pid)))
          | Some sz \<Rightarrow>
              bindr (on_fs (\<lambda>s. bindr (iunlockput pid ip s) (fs_end pid)) k) (\<lambda>k.
              bindr (on_mem_r (build_stack e d sz argv) k) (\<lambda>(r, k).
              case r of
                None \<Rightarrow> bindr (drop_image e c d k) (\<lambda>k. Inr (-1, k))
              | Some (sz, sp) \<Rightarrow> commit_image e c path d sz sp entry k)))))))"

text \<open>sys_exec: the vector of arguments, read from the memory of the caller; fewer than MAXARG are accepted.\<close>

fun fetch_args :: "nat \<Rightarrow> ucall \<Rightarrow> u32 \<Rightarrow> u32 \<Rightarrow> u8 list list option" where
  "fetch_args 0 u sz uargv = None"
| "fetch_args (Suc n) u sz uargv =
     (case fetchint (u_mem u) sz uargv of
        None \<Rightarrow> None
      | Some uarg \<Rightarrow>
          if uarg = 0 then Some []
          else case fetchstr (u_mem u) sz uarg of
                 None \<Rightarrow> None
               | Some s \<Rightarrow> map_option (\<lambda>as. ustring (u_mem u) s # as) (fetch_args n u sz (uargv + 4)))"

definition sys_exec :: "env \<Rightarrow> ucall \<Rightarrow> nat \<Rightarrow> kern \<Rightarrow> (int \<times> kern) res" where
  "sys_exec e u c k =
     (case (arg_str u c 0 k, arg_int u c 1 k) of
        (Some path, Some uargv) \<Rightarrow>
          (case fetch_args MAXARG u (p_sz (proc_at c k)) uargv of
             None \<Rightarrow> Inr (-1, k)
           | Some argv \<Rightarrow> exec e c path argv k)
      | _ \<Rightarrow> Inr (-1, k))"

section \<open>What a failing exec leaves\<close>

text \<open>Everything but the file system and memory.\<close>

definition same_tables :: "kern \<Rightarrow> kern \<Rightarrow> bool" where
  "same_tables k k' \<longleftrightarrow> k_procs k' = k_procs k \<and> k_queue k' = k_queue k \<and> k_nextpid k' = k_nextpid k \<and> k_initproc k' = k_initproc k \<and>
     k_mux k' = k_mux k \<and> k_shl k' = k_shl k \<and> k_files k' = k_files k \<and> k_pipes k' = k_pipes k \<and> k_cont k' = k_cont k \<and> k_nextcid k' = k_nextcid k"

lemma same_tables_refl [simp]: "same_tables k k"
  by (simp add: same_tables_def)

lemma same_tables_trans: "same_tables k k' \<Longrightarrow> same_tables k' k'' \<Longrightarrow> same_tables k k''"
  by (simp add: same_tables_def)

lemma same_tables_on:
  "on_fs g k = Inr k' \<Longrightarrow> same_tables k k'" "on_fs_r h k = Inr (r, k') \<Longrightarrow> same_tables k k'"
  "on_mem g' k = Inr k' \<Longrightarrow> same_tables k k'" "on_mem_r h' k = Inr (r', k') \<Longrightarrow> same_tables k k'"
  "on_load f k = Inr (x, k') \<Longrightarrow> same_tables k k'"
  by (auto simp: same_tables_def on_fs_def on_fs_r_def on_mem_def on_mem_r_def on_load_def bindr_eq_Inr)

lemma same_tables_drop: "drop_image e c d k = Inr k' \<Longrightarrow> same_tables k k'"
  by (auto simp: drop_image_def dest: same_tables_on split: if_splits)

text \<open>The end of exec: only the name, the page table and the size of the process change.\<close>

lemma commit_image_tables:
  assumes "commit_image e c path d sz sp entry k = Inr (r, k')"
  shows "r = 0 \<and> (\<exists>nm. same_tables (upd_proc c (\<lambda>p. p\<lparr>p_name := nm, p_pgdir := d, p_sz := sz\<rparr>) k) k')"
proof -
  let ?k = "\<lambda>nm. upd_proc c (\<lambda>p. p\<lparr>p_name := nm, p_pgdir := d, p_sz := sz\<rparr>) k"
  let ?m = "\<lambda>nm. on_mem_pure (\<lambda>m. wr32 (p_tf (proc_at c k) + 68) sp (wr32 (p_tf (proc_at c k) + 56) entry m)) (?k nm)"
  obtain nm where "safestrcpy_arr (p_name (proc_at c k)) (base_name path @ [0]) 16 = Inr nm"
    using assms by (auto simp: commit_image_def elim!: bindr_InrE)
  then obtain g where g: "on_mem g (?m nm) = Inr k'" "r = 0"
    using assms by (auto simp: commit_image_def Let_def elim!: bindr_InrE)
  have "same_tables (?k nm) (?m nm)" by (simp add: same_tables_def on_mem_pure_def)
  then show ?thesis using same_tables_trans same_tables_on(3) [OF g(1)] g(2) by blast
qed

lemma exec_tables:
  assumes "exec e c path argv k = Inr (r, k')"
  shows "r = -1 \<and> same_tables k k' \<or>
    r = 0 \<and> (\<exists>nm d sz. same_tables (upd_proc c (\<lambda>p. p\<lparr>p_name := nm, p_pgdir := d, p_sz := sz\<rparr>) k) k')"
proof -
  let ?pid = "pid_of c k"
  note T = same_tables_trans
  obtain k1 ipo k2 where k2: "on_fs fs_begin k = Inr k1" "on_fs_r (namei (who_of c k1) ?pid path) k1 = Inr (ipo, k2)"
    using assms by (auto simp: exec_def Let_def elim!: bindr_InrE)
  have t2: "same_tables k k2" by (rule T [OF same_tables_on(1) [OF k2(1)] same_tables_on(2) [OF k2(2)]])
  show ?thesis
  proof (cases ipo)
    case None
    then have f: "on_fs_r (fs_return (-1) ?pid) k2 = Inr (r, k')" using assms k2 by (simp add: exec_def Let_def)
    then have "r = -1" by (auto simp: on_fs_r_def fs_return_def elim!: bindr_InrE)
    then show ?thesis using T [OF t2 same_tables_on(2) [OF f]] by simp
  next
    case (Some ip)
    obtain k3 d szo entry k4 where k4: "on_fs (ilock ?pid ip) k2 = Inr k3"
      "on_load (load_image e ?pid ip (p_shm (proc_at c k3)) (k_shl k3)) k3 = Inr ((d, szo, entry), k4)"
      using assms k2 Some by (auto simp: exec_def Let_def elim!: bindr_InrE)
    have t4: "same_tables k k4" by (rule T [OF t2 T [OF same_tables_on(1) [OF k4(1)] same_tables_on(5) [OF k4(2)]]])
    show ?thesis
    proof (cases szo)
      case None
      then obtain k5 where k5: "drop_image e c d k4 = Inr k5" "on_fs_r (\<lambda>s. bindr (iunlockput ?pid ip s) (fs_return (-1) ?pid)) k5 = Inr (r, k')"
        using assms k2 Some k4 by (auto simp: exec_def Let_def elim!: bindr_InrE)
      then have "r = -1" by (auto simp: on_fs_r_def fs_return_def elim!: bindr_InrE)
      then show ?thesis using T [OF t4 T [OF same_tables_drop [OF k5(1)] same_tables_on(2) [OF k5(2)]]] by simp
    next
      case sz: (Some sz)
      then obtain k5 st k6 where k6: "on_fs (\<lambda>s. bindr (iunlockput ?pid ip s) (fs_end ?pid)) k4 = Inr k5" "on_mem_r (build_stack e d sz argv) k5 = Inr (st, k6)"
        using assms k2 Some k4 by (auto simp: exec_def Let_def elim!: bindr_InrE)
      have t6: "same_tables k k6" by (rule T [OF t4 T [OF same_tables_on(1) [OF k6(1)] same_tables_on(4) [OF k6(2)]]])
      show ?thesis
      proof (cases st)
        case None
        then have f: "drop_image e c d k6 = Inr k'" "r = -1" using assms k2 Some k4 sz k6 by (auto simp: exec_def Let_def elim!: bindr_InrE)
        then show ?thesis using T [OF t6 same_tables_drop [OF f(1)]] by simp
      next
        case (Some szsp)
        obtain sz' sp where "szsp = (sz', sp)" by (cases szsp)
        then have "commit_image e c path d sz' sp entry k6 = Inr (r, k')"
          using assms k2 \<open>ipo = _\<close> k4 sz k6 Some by (simp add: exec_def Let_def)
        note c = commit_image_tables [OF this]
        then obtain nm where "same_tables (upd_proc c (\<lambda>p. p\<lparr>p_name := nm, p_pgdir := d, p_sz := sz'\<rparr>) k6) k'" by blast
        then have "same_tables (upd_proc c (\<lambda>p. p\<lparr>p_name := nm, p_pgdir := d, p_sz := sz'\<rparr>) k) k'"
          using t6 by (simp add: same_tables_def upd_proc_def)
        then show ?thesis using c by blast
      qed
    qed
  qed
qed


definition exec_example :: kern where
  "exec_example = run_example\<lparr>k_fs := run_fs\<lparr>fs_icache := [(fs_icache run_fs ! 0)\<lparr>i_valid := True, i_type := T_FILE\<rparr>]\<rparr>\<rparr>"

lemma exec_example_fails: "\<exists>k'. exec run_env 1 [97] [] exec_example = Inr (-1, k')"
  by (simp add: exec_def Let_def on_fs_def fs_begin_def begin_op_def exec_example_def run_example_def run_fs_def log_example_def LOGSIZE_def
      MAXOPBLOCKS_def on_fs_r_def namei_def namex_def namex_path_def who_of_def namex_start_def starts_at_root_def dup_or_null_def idup_def upd_ino_def
      namex_loop.simps skipelem_def ilock_def acquiresleep_def initsleeplock_def T_FILE_def T_DIR_def iunlockput_def iunlock_def holdingsleep_def
      releasesleep_def iput_def fs_return_def fs_end_def end_op_def end_op_enter_def)


end
