(* ===== verification/Spec2Isabelle.thy ===== *)
theory Spec2Isabelle
  imports Prelude Carray Kalloc Pipe LogOps Pqueue Mutex Jsmn Printf Grep Kbd Console Shm Files Account Exec
begin

text \<open>
  Verification library for dockv6, an xv6 kernel for 32-bit x86 extended with containers, named
  shared memory, named mutexes with condition variables, and a queue of processes by priority.

  \<^bold>\<open>The program.\<close>  User processes run on page tables (vm.c) whose pages come from one allocator
  (kalloc.c).  A process (proc.c) has memory, open files, a working directory, slots for shared
  pages and mutexes, and possibly a container, which limits how many processes it may fork and
  gives it a root directory.  Open files (file.c) are pipes (pipe.c) or inodes of the file system
  (fs.c), which writes its blocks through a log (log.c) and a cache of blocks (bio.c) to the
  in-memory disk (memide.c).  System calls (syscall.c, sysfile.c, sysproc.c) check the caller's
  arguments and call these layers.  The console (console.c, kbd.c, uart.c) is a device of the
  file system.  In user space there are the container manager and its JSON tokenizer (jsmn.h),
  printf and string routines (printf.c, ulib.c) and grep (grep.c).

  \<^bold>\<open>Conventions.\<close>  Prelude has the result type of fallible code: Panic for panic(), Undefined where
  C leaves the behaviour open (null pointers, array bounds), Blocked for code that goes to
  sleep; bindr sequences it.  Integers that can wrap around are words of their width; a char array
  is a list of bytes, and memory a function from 32-bit addresses to bytes.  A pointer into a
  table is an index into a list and a null pointer None.  Code between acquire and release of a
  spin lock is one step; where processes interleave there is an inductive step relation.

  \<^bold>\<open>Theories and sources.\<close>
  \<^item> Memory, CString, Carray: string.c and the string instructions of x86.h, on memory and on arrays.
  \<^item> Kalloc: kalloc.c, with the free list in the pages themselves; a locale states what an allocator
    of pages promises, and is interpreted on kalloc and kfree.
  \<^item> Locks, Sleeplock: spinlock.c with pushcli and popcli, sleeplock.c.
  \<^item> Ring, Pipe: ring buffers as a locale on their size; pipe.c as an interpretation of it.
  \<^item> Bytes, Bio, Log, LogOps: structures in blocks, bio.c with memide.c, log.c; system calls
    that use the log at the same time are a step relation.
  \<^item> Proc, Pqueue, Mutex: the process table, sleep, wakeup and the scheduler; pqueue_enqueue and
    prio_set; the mutexes, kill and the condition variables of proc.c.
  \<^item> Vm, Uvm, Shm: vm.c: page tables in memory, address spaces, shm_get and shm_rem.
  \<^item> Fs, Files: fs.c; Fs holds every routine and Files what they do to the blocks.
  \<^item> Syscall: fetchint, fetchstr, argint, argptr and argstr of syscall.c.
  \<^item> Kern: the record of the whole kernel's state; on_fs, on_mem, on_shm, on_mux and on_queue run an
    operation of a component in it.
  \<^item> Filetab, Sysfile: file.c and pipealloc; sysfile.c.
  \<^item> Lifecycle, Account: allocproc, userinit, growproc, fork, exit, wait and the container calls of
    proc.c, and sysproc.c; what these do to the accounts of files and containers.
  \<^item> Exec: exec.c and loaduvm.
  \<^item> Jsmn, Printf, Grep: jsmn.h; printf.c, ulib.c and the kernel's cprintf; grep.c.
  \<^item> Kbd, Console: kbd.c; console.c and uart.c.

  \<^bold>\<open>What is shown.\<close>
  \<^item> Memory: pages are never lost or handed out twice; allocuvm maps fresh zeroed pages and undoes
    its work when it fails; shm_get maps the page of a name in the caller's container; shm_rem of
    a process whose size is not a multiple of the page size removes the wrong page.
  \<^item> Disk: after a crash at any point of a commit, recovery gives the state before or after it; the
    reservations of the log suffice for system calls that keep to them; what writei writes
    readi reads; balloc takes the first free block; inodes survive iupdate and ilock.
  \<^item> Files: pipes deliver bytes in order and wake their sleepers; reference counts of open files are
    exact over sys_dup, sys_close, sys_open, sys_pipe, fork, exit and wait.
  \<^item> Processes: spin locks and sleep locks exclude; no process runs on two processors and every
    runnable one is reached; the queue is well formed and its walks end; mutexes exclude and are
    kept apart by container, but kill and cv_wait break this in ways shown; exit hands children
    on and wakes the parent; exec is all or nothing.
  \<^item> Containers: a container stays within its limit when forks run one at a time, and exceeds it when
    two interleave.
  \<^item> System calls: arguments that are accepted lie inside the caller.
  \<^item> User code: the tokenizer stays inside its buffers and inverts the printing of a configuration;
    grep's matcher is the meaning of its patterns; console editing delivers the lines typed.

  \<^bold>\<open>Bounds.\<close>  Loops over memory and files recurse on what is left and are total functions.
  Loops over linked lists of processes and over parents have fuel NPROC + 1: a list without
  repetition in a table of NPROC entries is shorter, which is proved for well-formed queues and
  process trees.  Loops over the pages of a range have as fuel the number of pages in it.  In these
  loops Blocked stands for fuel that ran out; the theorems on the queue, on mappages and on
  allocuvm show that it does not, while copyuvm is defined with the same bound and has no theorem.
  A string read at a user address is looked at up to KERNBASE.

  \<^bold>\<open>Parameters.\<close>  The linker's symbols end and data, the addresses of trapret and forkret and the
  bytes of initcode are fields of env; so are the functions in the device table.  System calls
  take the memory of the caller as its page table shows it.

  \<^bold>\<open>Not modelled.\<close>  Assembly and the start of the machine (bootasm.S, bootmain.c, entry.S, swtch.S,
  trapasm.S, main.c), interrupt dispatch (trap.c, the call through the table in syscall.c), and
  the programming of hardware (ide.c, lapic.c, ioapic.c, picirq.c, mp.c, the registers loaded by
  seginit and switchuvm) have no state the model could express.  Of proc.c, forkret and
  procdump are left out; of sysproc.c, the calls that read the clock; of log.c, initlog's
  reading of the superblock.  mkfs.c runs on the host.  The shell, the container manager, umalloc.c, the small user
  programs and the tests are sequences of system calls and are not modelled.
\<close>

end
